(* ===== verification/Prelude.thy ===== *)
theory Prelude
  imports Main "HOL-Library.Word" "HOL-Library.Char_ord" "HOL-Library.List_Lexorder"
    "HOL-Library.Multiset" "HOL-Library.Code_Target_Nat"
begin

text \<open>
  Shared vocabulary of the development: names for the machine integers, Rust's checked and
  saturating arithmetic on them, results as sums, \<open>std::cmp::Ordering\<close> with its combinators,
  the stable sort and the selection functions of slices and iterators, and the operations on
  \<open>&str\<close> that the sources use. A string is its list of bytes (\<open>char\<close> is a byte), so the
  lexicographic order of \<open>HOL-Library.List_Lexorder\<close> is the order of Rust's \<open>str\<close>.
  Arithmetic that the sources write with plain \<open>+\<close>, \<open>-\<close>, \<open>*\<close> is the word operation:
  it wraps, as in a build without overflow checks.
\<close>

section \<open>Types and collections of facts\<close>

type_synonym u8 = "8 word"
type_synonym u16 = "16 word"
type_synonym u32 = "32 word"
type_synonym u64 = "64 word"
type_synonym i64 = "64 word"
type_synonym ('e, 'a) result = "'e + 'a"

named_theorems arith_unat \<open>unsigned readings of checked and saturating arithmetic\<close>
named_theorems inv_intros \<open>operations that keep a component's invariant\<close>

section \<open>Results\<close>

definition is_ok :: "('e, 'a) result \<Rightarrow> bool" where
  "is_ok r = (case r of Inl _ \<Rightarrow> False | Inr _ \<Rightarrow> True)"

definition ok :: "('e, 'a) result \<Rightarrow> 'a option" where
  "ok r = (case r of Inl _ \<Rightarrow> None | Inr a \<Rightarrow> Some a)"

fun try_map :: "('a \<Rightarrow> ('e, 'b) result) \<Rightarrow> 'a list \<Rightarrow> ('e, 'b list) result" where
  "try_map f [] = Inr []"
| "try_map f (x # xs) =
     (case f x of Inl e \<Rightarrow> Inl e
      | Inr y \<Rightarrow> (case try_map f xs of Inl e \<Rightarrow> Inl e | Inr ys \<Rightarrow> Inr (y # ys)))"

definition filter_map :: "('a \<Rightarrow> 'b option) \<Rightarrow> 'a list \<Rightarrow> 'b list" where
  "filter_map f xs = map the (filter (\<lambda>y. y \<noteq> None) (map f xs))"

lemma is_ok_simps [simp]: "is_ok (Inr a)" "\<not> is_ok (Inl e)"
  by (simp_all add: is_ok_def)

lemma ok_simps [simp]: "ok (Inr a) = Some a" "ok (Inl e) = None"
  by (simp_all add: ok_def)

lemma is_ok_iff: "is_ok r \<longleftrightarrow> (\<exists>a. r = Inr a)"
  by (cases r) auto

lemma filter_map_simps [simp]:
  "filter_map f [] = []"
  "filter_map f (x # xs) = (case f x of None \<Rightarrow> filter_map f xs | Some y \<Rightarrow> y # filter_map f xs)"
  by (auto simp: filter_map_def split: option.splits)

lemma set_filter_map: "set (filter_map f xs) = {y. \<exists>x \<in> set xs. f x = Some y}"
  by (induction xs) (auto split: option.splits)

lemma try_map_Inr_iff:
  "try_map f xs = Inr ys \<longleftrightarrow> list_all2 (\<lambda>x y. f x = Inr y) xs ys"
proof (induction xs arbitrary: ys)
  case Nil
  then show ?case by auto
next
  case (Cons x xs)
  then show ?case
    by (cases ys; cases "try_map f xs") (auto split: sum.splits)
qed

lemma try_map_all_ok: "(\<And>x. x \<in> set xs \<Longrightarrow> f x = Inr (g x)) \<Longrightarrow> try_map f xs = Inr (map g xs)"
  by (induction xs) auto

lemma set_try_map: "try_map f xs = Inr ys \<Longrightarrow> set ys = {y. Inr y \<in> f ` set xs}"
proof (induction xs arbitrary: ys)
  case (Cons x xs)
  then obtain y zs where "f x = Inr y" "try_map f xs = Inr zs" "ys = y # zs"
    by (auto split: sum.splits)
  with Cons.IH [of zs] show ?case by auto
qed simp

section \<open>Checked and saturating arithmetic\<close>

definition checked_add :: "'l::len word \<Rightarrow> 'l word \<Rightarrow> 'l word option" where
  "checked_add a b = (if unat a + unat b < 2 ^ LENGTH('l) then Some (a + b) else None)"

definition saturating_add :: "'l::len word \<Rightarrow> 'l word \<Rightarrow> 'l word" where
  "saturating_add a b = (if unat a + unat b < 2 ^ LENGTH('l) then a + b else - 1)"

definition saturating_sub :: "'l::len word \<Rightarrow> 'l word \<Rightarrow> 'l word" where
  "saturating_sub a b = (if a < b then 0 else a - b)"

definition div_ceil :: "'l::len word \<Rightarrow> 'l word \<Rightarrow> 'l word" where
  "div_ceil a b = a div b + (if a mod b = 0 then 0 else 1)"

lemma checked_add_Some_iff:
  "checked_add a b = Some c \<longleftrightarrow> unat (c :: 'l::len word) = unat a + unat b"
proof
  assume "checked_add a b = Some c"
  then show "unat c = unat a + unat b"
    by (auto simp: checked_add_def unat_word_ariths split: if_splits)
next
  assume eq: "unat c = unat a + unat b"
  moreover have "unat c < 2 ^ LENGTH('l)"
    by (rule unsigned_less)
  ultimately have lt: "unat a + unat b < 2 ^ LENGTH('l)"
    by simp
  with eq have "c = a + b"
    by (simp add: word_unat_eq_iff unat_word_ariths)
  with lt show "checked_add a b = Some c"
    by (simp add: checked_add_def)
qed

lemma checked_add_None_iff:
  "checked_add a b = None \<longleftrightarrow> 2 ^ LENGTH('l) \<le> unat (a :: 'l::len word) + unat b"
  by (auto simp: checked_add_def)

lemma unat_saturating_add [arith_unat]:
  "unat (saturating_add a b) = min (unat a + unat b) (2 ^ LENGTH('l) - 1)"
  for a b :: "'l::len word"
proof (cases "unat a + unat b < 2 ^ LENGTH('l)")
  case True
  then show ?thesis
    by (simp add: saturating_add_def unat_word_ariths)
next
  case False
  have "unat (- 1 :: 'l word) = 2 ^ LENGTH('l) - 1"
    by (simp add: unsigned_minus_1_eq_mask mask_eq_exp_minus_1)
  with False show ?thesis
    by (simp add: saturating_add_def)
qed

lemma unat_saturating_sub [arith_unat]: "unat (saturating_sub a b) = unat a - unat b"
  by (auto simp: saturating_sub_def word_less_nat_alt unat_sub word_le_nat_alt)

lemma ceil_div_nat:
  fixes a b :: nat
  assumes "0 < b"
  shows "(a + b - 1) div b = a div b + (if a mod b = 0 then 0 else 1)"
proof -
  define q r where "q = a div b" and "r = a mod b"
  have a: "a = r + q * b" and r: "r < b" using assms by (simp_all add: q_def r_def)
  show ?thesis
  proof (cases "r = 0")
    case True
    then have "a + b - 1 = (b - 1) + q * b" using a assms by simp
    then have "(a + b - 1) div b = q + (b - 1) div b" using assms by (simp only: div_mult_self1)
    with True show ?thesis using assms by (simp add: q_def r_def)
  next
    case False
    then have "a + b - 1 = (r - 1) + (q + 1) * b" using a by simp
    then have "(a + b - 1) div b = (q + 1) + (r - 1) div b"
      using assms by (simp only: div_mult_self1)
    moreover have "(r - 1) div b = 0" using r by (intro div_less) simp
    ultimately show ?thesis using False by (simp add: q_def r_def)
  qed
qed

lemma unat_div_ceil [arith_unat]:
  fixes a b :: "'l::len word"
  assumes "b \<noteq> 0"
  shows "unat (div_ceil a b) = (unat a + unat b - 1) div unat b"
proof -
  have b: "0 < unat b" using assms by (simp add: unat_gt_0)
  have fits: "unat a div unat b + (if unat a mod unat b = 0 then 0 else 1) < 2 ^ LENGTH('l)"
  proof (cases "unat a mod unat b = 0")
    case True
    then show ?thesis
      using le_less_trans [OF div_le_dividend unsigned_less, of a "unat b"] by simp
  next
    case False
    then have "unat a \<noteq> 0" "unat b \<noteq> 1" by (metis mod_0, metis mod_by_1)
    then have "unat a div unat b < unat a" using b by (intro div_less_dividend) linarith+
    moreover have "unat a < 2 ^ LENGTH('l)" by (rule unsigned_less)
    ultimately show ?thesis using False by (simp only: if_False)
  qed
  have mod: "a mod b = 0 \<longleftrightarrow> unat a mod unat b = 0"
    by (simp add: word_unat_eq_iff unat_mod)
  have "unat (div_ceil a b) = unat a div unat b + (if unat a mod unat b = 0 then 0 else 1)"
    using fits unfolding div_ceil_def mod by (simp add: unat_word_ariths unat_div split: if_splits)
  then show ?thesis using ceil_div_nat [OF b] by simp
qed

lemma unat_u8_less [simp]: "unat (b :: u8) < 256"
proof -
  have "unat b < 2 ^ LENGTH(8)" by (rule unsigned_less)
  then show ?thesis by simp
qed

section \<open>Orderings, sorting and selection\<close>

text \<open>\<open>std::cmp::Ordering\<close>, \<open>Ord::cmp\<close>, \<open>then_with\<close> and \<open>reverse\<close>.\<close>

datatype ordering = Less | Equal | Greater

definition cmp :: "'a::linorder \<Rightarrow> 'a \<Rightarrow> ordering" where
  "cmp a b = (if a < b then Less else if a = b then Equal else Greater)"

fun then_with :: "ordering \<Rightarrow> ordering \<Rightarrow> ordering" where
  "then_with Equal r = r"
| "then_with l r = l"

fun reverse_ordering :: "ordering \<Rightarrow> ordering" where
  "reverse_ordering Less = Greater"
| "reverse_ordering Equal = Equal"
| "reverse_ordering Greater = Less"

text \<open>
  \<open>slice::sort_by\<close> is stable: it is insertion sort from the right, where an element goes in
  front of the first one it is not greater than. \<open>Vec::dedup\<close> is the library's
  \<open>remdups_adj\<close>. \<open>Iterator::max_by\<close> keeps the last of several maxima and
  \<open>Iterator::min_by\<close> the first of several minima.
\<close>

fun insert_by :: "('a \<Rightarrow> 'a \<Rightarrow> ordering) \<Rightarrow> 'a \<Rightarrow> 'a list \<Rightarrow> 'a list" where
  "insert_by c x [] = [x]"
| "insert_by c x (y # ys) = (if c x y = Greater then y # insert_by c x ys else x # y # ys)"

definition sort_by :: "('a \<Rightarrow> 'a \<Rightarrow> ordering) \<Rightarrow> 'a list \<Rightarrow> 'a list" where
  "sort_by c xs = foldr (insert_by c) xs []"

fun max_by :: "('a \<Rightarrow> 'a \<Rightarrow> ordering) \<Rightarrow> 'a list \<Rightarrow> 'a option" where
  "max_by c [] = None"
| "max_by c (x # xs) = Some (fold (\<lambda>y acc. if c acc y = Greater then acc else y) xs x)"

fun min_by :: "('a \<Rightarrow> 'a \<Rightarrow> ordering) \<Rightarrow> 'a list \<Rightarrow> 'a option" where
  "min_by c [] = None"
| "min_by c (x # xs) = Some (fold (\<lambda>y acc. if c acc y = Greater then y else acc) xs x)"

lemma cmp_iffs [simp]:
  "cmp a b = Less \<longleftrightarrow> a < b"
  "cmp a b = Equal \<longleftrightarrow> a = b"
  "cmp a b = Greater \<longleftrightarrow> b < a"
  by (auto simp: cmp_def)

lemma then_with_iffs [simp]:
  "then_with a b = Less \<longleftrightarrow> a = Less \<or> a = Equal \<and> b = Less"
  "then_with a b = Equal \<longleftrightarrow> a = Equal \<and> b = Equal"
  "then_with a b = Greater \<longleftrightarrow> a = Greater \<or> a = Equal \<and> b = Greater"
  by (cases a; simp)+

lemma reverse_cmp [simp]: "reverse_ordering (cmp a b) = cmp b a"
  by (auto simp: cmp_def)

lemma reverse_then_with [simp]:
  "reverse_ordering (then_with a b) = then_with (reverse_ordering a) (reverse_ordering b)"
  by (cases a) simp_all

lemma sort_by_simps [simp]:
  "sort_by c [] = []"
  "sort_by c (x # xs) = insert_by c x (sort_by c xs)"
  by (simp_all add: sort_by_def)

lemma mset_insert_by [simp]: "mset (insert_by c x xs) = add_mset x (mset xs)"
  by (induction xs) auto

lemma mset_sort_by [simp]: "mset (sort_by c xs) = mset xs"
  by (induction xs) auto

lemma set_insert_by [simp]: "set (insert_by c x xs) = insert x (set xs)"
  by (metis mset_insert_by set_mset_add_mset_insert set_mset_mset)

lemma set_sort_by [simp]: "set (sort_by c xs) = set xs"
  by (metis mset_sort_by set_mset_mset)

text \<open>Selection by a comparison that respects a key, even when the comparison itself is not an
  order: the result maximises (or minimises) the key.\<close>

definition respects_key :: "('a \<Rightarrow> 'a \<Rightarrow> ordering) \<Rightarrow> ('a \<Rightarrow> 'k::linorder) \<Rightarrow> 'a set \<Rightarrow> bool" where
  "respects_key c k S = (\<forall>x \<in> S. \<forall>y \<in> S. if c x y = Greater then k y \<le> k x else k x \<le> k y)"

lemma max_by_fold_key:
  "respects_key c k (set (x # xs)) \<Longrightarrow>
   m = fold (\<lambda>y acc. if c acc y = Greater then acc else y) xs x \<Longrightarrow>
   m \<in> set (x # xs) \<and> (\<forall>y \<in> set (x # xs). k y \<le> k m)"
proof (induction xs arbitrary: x)
  case (Cons y ys)
  define z where "z = (if c x y = Greater then x else y)"
  have "respects_key c k (set (z # ys))"
    using Cons.prems(1) by (auto simp: z_def respects_key_def)
  moreover have "m = fold (\<lambda>y acc. if c acc y = Greater then acc else y) ys z"
    using Cons.prems(2) by (simp add: z_def)
  ultimately have "m \<in> set (z # ys) \<and> (\<forall>w \<in> set (z # ys). k w \<le> k m)"
    by (rule Cons.IH)
  moreover have "k x \<le> k z" "k y \<le> k z"
    using Cons.prems(1) by (auto simp: z_def respects_key_def split: if_splits)
  ultimately show ?case
    by (auto simp: z_def split: if_splits)
qed simp

lemma max_by_key:
  "respects_key c k (set xs) \<Longrightarrow> max_by c xs = Some m \<Longrightarrow> m \<in> set xs \<and> (\<forall>y \<in> set xs. k y \<le> k m)"
  using max_by_fold_key [of c k "hd xs" "tl xs" m] by (cases xs) simp_all

lemma max_by_None_iff [simp]: "max_by c xs = None \<longleftrightarrow> xs = []"
  by (cases xs) auto

lemma min_by_None_iff [simp]: "min_by c xs = None \<longleftrightarrow> xs = []"
  by (cases xs) auto

lemma min_by_cmp:
  fixes k :: "'a \<Rightarrow> 'k::linorder"
  assumes "min_by (\<lambda>a b. cmp (k a) (k b)) xs = Some m"
  shows "m \<in> set xs \<and> (\<forall>y \<in> set xs. k m \<le> k y)"
proof -
  have "m' = fold (\<lambda>y acc. if cmp (k acc) (k y) = Greater then y else acc) ys x \<Longrightarrow>
    m' \<in> set (x # ys) \<and> (\<forall>y \<in> set (x # ys). k m' \<le> k y)" for m' x and ys
  proof (induction ys arbitrary: x)
    case (Cons y ys)
    from Cons.IH [of "if k y < k x then y else x"] Cons.prems show ?case
      by (auto split: if_splits)
  qed simp
  with assms show ?thesis by (cases xs) auto
qed

text \<open>
  The contract of a comparison function on the values \<open>S\<close> it is used on: a total preorder.
  Sorting with it sorts, and the extrema it selects are extrema.
\<close>

locale comparator_on =
  fixes S :: "'a set" and c :: "'a \<Rightarrow> 'a \<Rightarrow> ordering"
  assumes c_flip: "x \<in> S \<Longrightarrow> y \<in> S \<Longrightarrow> c y x = reverse_ordering (c x y)"
    and c_trans: "x \<in> S \<Longrightarrow> y \<in> S \<Longrightarrow> z \<in> S \<Longrightarrow>
      c x y \<noteq> Greater \<Longrightarrow> c y z \<noteq> Greater \<Longrightarrow> c x z \<noteq> Greater"
begin

lemma c_total: "x \<in> S \<Longrightarrow> y \<in> S \<Longrightarrow> c x y = Greater \<Longrightarrow> c y x \<noteq> Greater"
  using c_flip [of x y] by simp

lemma c_refl: "x \<in> S \<Longrightarrow> c x x = Equal"
  using c_flip [of x x] by (cases "c x x") auto

lemma sorted_insert_by:
  "x \<in> S \<Longrightarrow> set xs \<subseteq> S \<Longrightarrow> sorted_wrt (\<lambda>a b. c a b \<noteq> Greater) xs \<Longrightarrow>
   sorted_wrt (\<lambda>a b. c a b \<noteq> Greater) (insert_by c x xs)"
proof (induction xs)
  case Nil
  then show ?case by simp
next
  case (Cons y ys)
  then have "c x y \<noteq> Greater \<Longrightarrow> \<forall>z \<in> set ys. c x z \<noteq> Greater"
    using c_trans [of x y] by auto
  with Cons show ?case
    by (auto dest: c_total)
qed

lemma sorted_sort_by:
  "set xs \<subseteq> S \<Longrightarrow> sorted_wrt (\<lambda>a b. c a b \<noteq> Greater) (sort_by c xs)"
  by (induction xs) (simp_all add: sorted_insert_by)

lemma max_by_fold:
  "set (x # xs) \<subseteq> S \<Longrightarrow> m = fold (\<lambda>y acc. if c acc y = Greater then acc else y) xs x \<Longrightarrow>
   m \<in> set (x # xs) \<and> (\<forall>y \<in> set (x # xs). c y m \<noteq> Greater)"
proof (induction xs arbitrary: x)
  case Nil
  then show ?case by (simp add: c_refl)
next
  case (Cons y ys)
  define z where "z = (if c x y = Greater then x else y)"
  have z: "z \<in> S" "c x z \<noteq> Greater" "c y z \<noteq> Greater"
    using Cons.prems(1) c_total [of x y] c_refl by (auto simp: z_def)
  have "m \<in> set (z # ys) \<and> (\<forall>w \<in> set (z # ys). c w m \<noteq> Greater)"
    using Cons.prems z(1) by (intro Cons.IH) (auto simp: z_def)
  moreover from this have "m \<in> S"
    using Cons.prems(1) z(1) by auto
  moreover from calculation have "c x m \<noteq> Greater" "c y m \<noteq> Greater"
    using z Cons.prems(1) c_trans [of x z m] c_trans [of y z m] by auto
  ultimately show ?case
    by (auto simp: z_def split: if_splits)
qed

lemma max_by_max:
  "set xs \<subseteq> S \<Longrightarrow> max_by c xs = Some m \<Longrightarrow> m \<in> set xs \<and> (\<forall>y \<in> set xs. c y m \<noteq> Greater)"
  using max_by_fold by (cases xs) auto

end

text \<open>A comparison that only calls equal values equal: sorting and removing adjacent
  duplicates gives the one strictly increasing list of the values.\<close>

locale strict_comparator_on = comparator_on +
  assumes c_equal: "x \<in> S \<Longrightarrow> y \<in> S \<Longrightarrow> c x y = Equal \<Longrightarrow> x = y"
begin

lemma c_Less_iff: "x \<in> S \<Longrightarrow> y \<in> S \<Longrightarrow> c x y = Less \<longleftrightarrow> c x y \<noteq> Greater \<and> x \<noteq> y"
  using c_equal [of x y] c_refl [of x] by (cases "c x y") auto

lemma sorted_dedup:
  "set xs \<subseteq> S \<Longrightarrow> sorted_wrt (\<lambda>a b. c a b \<noteq> Greater) xs \<Longrightarrow>
   sorted_wrt (\<lambda>a b. c a b = Less) (remdups_adj xs)"
proof (induction xs rule: remdups_adj.induct)
  case (3 x y xs)
  show ?case
  proof (cases "x = y")
    case True
    with 3 show ?thesis by simp
  next
    case False
    have xy: "c x y = Less"
      using 3(3,4) False by (simp add: c_Less_iff)
    moreover have "c x z = Less" if "z \<in> set xs" for z
    proof -
      have "c x z \<noteq> Greater" "c y z \<noteq> Greater" "z \<in> S"
        using 3(3,4) that by auto
      moreover have "x \<noteq> z"
        using xy calculation 3(3) c_flip [of x y] by auto
      ultimately show ?thesis
        using 3(3) by (simp add: c_Less_iff)
    qed
    ultimately show ?thesis
      using 3 False by simp
  qed
qed simp_all

lemma sorted_distinct_unique:
  "set xs \<subseteq> S \<Longrightarrow> set ys = set xs \<Longrightarrow> sorted_wrt (\<lambda>a b. c a b = Less) xs \<Longrightarrow>
   sorted_wrt (\<lambda>a b. c a b = Less) ys \<Longrightarrow> xs = ys"
proof (induction xs arbitrary: ys)
  case Nil
  then show ?case by simp
next
  case (Cons x xs)
  then obtain y ys' where ys: "ys = y # ys'"
    by (cases ys) auto
  have sub: "set ys \<subseteq> S"
    using Cons.prems by simp
  have less_asym: "c a b = Less \<Longrightarrow> c b a \<noteq> Less" if "a \<in> S" "b \<in> S" for a b
    using c_flip [OF that] by simp
  have xy: "x = y"
  proof (rule ccontr)
    assume "x \<noteq> y"
    then have "x \<in> set ys'" "y \<in> set xs"
      using Cons.prems(2) ys by auto
    then have "c y x = Less" "c x y = Less"
      using Cons.prems(3,4) ys by auto
    then show False
      using less_asym [of x y] Cons.prems(1) sub ys by auto
  qed
  have irrefl: "x \<notin> set xs" "y \<notin> set ys'"
    using Cons.prems(1,3,4) ys sub c_refl [of x] c_refl [of y] by auto
  then have "set ys' = set xs"
    using Cons.prems(2) ys xy by auto
  then have "xs = ys'"
    using Cons ys by auto
  with xy ys show ?case by simp
qed

lemma sort_dedup_strict:
  "set xs \<subseteq> S \<Longrightarrow> sorted_wrt (\<lambda>a b. c a b = Less) (remdups_adj (sort_by c xs))"
  by (rule sorted_dedup) (simp_all add: sorted_sort_by)

lemma sort_dedup_cong:
  "set xs \<subseteq> S \<Longrightarrow> set ys = set xs \<Longrightarrow>
   remdups_adj (sort_by c xs) = remdups_adj (sort_by c ys)"
  by (rule sorted_distinct_unique) (simp_all add: sort_dedup_strict)

lemma sort_dedup_id:
  "set xs \<subseteq> S \<Longrightarrow> sorted_wrt (\<lambda>a b. c a b = Less) xs \<Longrightarrow> remdups_adj (sort_by c xs) = xs"
  by (rule sorted_distinct_unique) (simp_all add: sort_dedup_strict)

end

interpretation linorder_cmp: strict_comparator_on UNIV cmp
  by unfold_locales (auto simp: cmp_def split: if_splits)

lemma comparator_on_key: "comparator_on S (\<lambda>a b. cmp (k a) (k b))"
  by unfold_locales auto

section \<open>State machines\<close>

text \<open>The contract between a component's steps and its invariant: the start state has it and every
  step keeps it, so every reachable state has it.\<close>

locale machine =
  fixes init :: 's and step :: "'s \<Rightarrow> 's \<Rightarrow> bool" and inv :: "'s \<Rightarrow> bool"
  assumes inv_init: "inv init"
    and inv_step: "inv s \<Longrightarrow> step s t \<Longrightarrow> inv t"
begin

lemma inv_steps: "rtranclp step s t \<Longrightarrow> inv s \<Longrightarrow> inv t"
  by (induction rule: rtranclp_induct) (auto intro: inv_step)

lemma inv_reachable: "rtranclp step init s \<Longrightarrow> inv s"
  using inv_init inv_steps by blast

end

section \<open>Strings\<close>

definition starts_with :: "string \<Rightarrow> string \<Rightarrow> bool" where
  "starts_with s p = (take (length p) s = p)"

definition strip_prefix :: "string \<Rightarrow> string \<Rightarrow> string option" where
  "strip_prefix s p = (if starts_with s p then Some (drop (length p) s) else None)"

fun split_once :: "string \<Rightarrow> char \<Rightarrow> (string \<times> string) option" where
  "split_once [] d = None"
| "split_once (x # xs) d =
     (if x = d then Some ([], xs) else map_option (\<lambda>(a, b). (x # a, b)) (split_once xs d))"

fun rsplit_once :: "string \<Rightarrow> char \<Rightarrow> (string \<times> string) option" where
  "rsplit_once [] d = None"
| "rsplit_once (x # xs) d =
     (case rsplit_once xs d of
        Some (a, b) \<Rightarrow> Some (x # a, b)
      | None \<Rightarrow> if x = d then Some ([], xs) else None)"

lemma strip_prefix_append [simp]: "strip_prefix (p @ s) p = Some s"
  by (simp add: strip_prefix_def starts_with_def)

lemma strip_prefix_Some_iff: "strip_prefix s p = Some r \<longleftrightarrow> s = p @ r"
  by (auto simp: strip_prefix_def starts_with_def split: if_splits)
    (metis append_take_drop_id)

lemma starts_with_iff: "starts_with s p \<longleftrightarrow> (\<exists>r. s = p @ r)"
  by (metis append_eq_conv_conj append_take_drop_id starts_with_def)

lemma split_once_None_iff: "split_once s d = None \<longleftrightarrow> d \<notin> set s"
  by (induction s) auto

lemma split_once_Some: "split_once s d = Some (a, b) \<Longrightarrow> s = a @ d # b \<and> d \<notin> set a"
  by (induction s arbitrary: a) (auto split: if_splits)

lemma rsplit_once_None_iff: "rsplit_once s d = None \<longleftrightarrow> d \<notin> set s"
  by (induction s) (auto split: option.splits)

lemma rsplit_once_Some: "rsplit_once s d = Some (a, b) \<Longrightarrow> s = a @ d # b \<and> d \<notin> set b"
proof (induction s arbitrary: a)
  case (Cons x xs)
  then show ?case
    by (auto simp: rsplit_once_None_iff split: option.splits if_splits)
qed simp

lemma rsplit_once_append: "d \<notin> set b \<Longrightarrow> rsplit_once (a @ d # b) d = Some (a, b)"
proof (induction a)
  case Nil
  then have "rsplit_once b d = None" by (simp add: rsplit_once_None_iff)
  then show ?case by simp
qed simp

end
