(* ===== verification/Std_Net.thy ===== *)
theory Std_Net
  imports Prelude
begin

text \<open>
  What the sources use of Rust's standard library on addresses and numbers: \<open>IpAddr\<close> as its
  octets in network order, the decimal and hexadecimal \<open>Display\<close> forms, the compressed IPv6
  \<open>Display\<close>, and \<open>str::parse\<close> for \<open>u16\<close>, \<open>i64\<close> and \<open>IpAddr\<close>.
\<close>

section \<open>Addresses\<close>

datatype ip_addr = V4 "u8 list" | V6 "u8 list"

fun is_ipv4 :: "ip_addr \<Rightarrow> bool" where
  "is_ipv4 (V4 _) = True"
| "is_ipv4 (V6 _) = False"

fun octets :: "ip_addr \<Rightarrow> u8 list" where
  "octets (V4 os) = os"
| "octets (V6 os) = os"

fun wf_ip :: "ip_addr \<Rightarrow> bool" where
  "wf_ip (V4 os) = (length os = 4)"
| "wf_ip (V6 os) = (length os = 16)"

text \<open>The sixteen-bit segments of an octet list, and the octets of a segment list.\<close>

fun segments :: "u8 list \<Rightarrow> nat list" where
  "segments (a # b # os) = (unat a * 256 + unat b) # segments os"
| "segments _ = []"

fun seg_octets :: "nat list \<Rightarrow> u8 list" where
  "seg_octets [] = []"
| "seg_octets (s # ss) = of_nat (s div 256) # of_nat s # seg_octets ss"

section \<open>Digits\<close>

definition byte :: "char \<Rightarrow> nat" where
  "byte c = of_char c"

definition is_ascii_digit :: "char \<Rightarrow> bool" where
  "is_ascii_digit c = (48 \<le> byte c \<and> byte c \<le> 57)"

definition digit_value :: "char \<Rightarrow> nat" where
  "digit_value c = byte c - 48"

definition hex_value :: "char \<Rightarrow> nat option" where
  "hex_value c =
     (if is_ascii_digit c then Some (byte c - 48)
      else if 97 \<le> byte c \<and> byte c \<le> 102 then Some (byte c - 97 + 10)
      else if 65 \<le> byte c \<and> byte c \<le> 70 then Some (byte c - 65 + 10)
      else None)"

definition digit_char :: "nat \<Rightarrow> char" where
  "digit_char d = (if d < 10 then char_of (48 + d) else char_of (87 + d))"

fun dec :: "nat \<Rightarrow> string" where
  "dec n = (if n < 10 then [digit_char n] else dec (n div 10) @ [digit_char (n mod 10)])"

fun hex :: "nat \<Rightarrow> string" where
  "hex n = (if n < 16 then [digit_char n] else hex (n div 16) @ [digit_char (n mod 16)])"

declare dec.simps [simp del] hex.simps [simp del]

section \<open>Parsing integers\<close>

definition digits_value :: "string \<Rightarrow> nat" where
  "digits_value ds = foldl (\<lambda>v c. v * 10 + digit_value c) 0 ds"

definition parse_u16 :: "string \<Rightarrow> u16 option" where
  "parse_u16 s =
     (let ds = (case s of c # cs \<Rightarrow> if c = CHR ''+'' then cs else s | [] \<Rightarrow> s)
      in if ds \<noteq> [] \<and> list_all is_ascii_digit ds \<and> digits_value ds < 2 ^ 16
         then Some (of_nat (digits_value ds)) else None)"

definition parse_i64 :: "string \<Rightarrow> int option" where
  "parse_i64 s =
     (let neg = (case s of c # _ \<Rightarrow> c = CHR ''-'' | [] \<Rightarrow> False);
          ds = (case s of c # cs \<Rightarrow> if c = CHR ''+'' \<or> c = CHR ''-'' then cs else s | [] \<Rightarrow> s)
      in if ds = [] \<or> \<not> list_all is_ascii_digit ds then None
         else if neg then (if digits_value ds \<le> 2 ^ 63 then Some (- int (digits_value ds)) else None)
         else if digits_value ds < 2 ^ 63 then Some (int (digits_value ds)) else None)"

section \<open>Printing addresses\<close>

fun join :: "string \<Rightarrow> string list \<Rightarrow> string" where
  "join sep [] = []"
| "join sep [s] = s"
| "join sep (s # t # ts) = s @ sep @ join sep (t # ts)"

definition ipv4_display :: "u8 list \<Rightarrow> string" where
  "ipv4_display os = join ''.'' (map (\<lambda>b. dec (unat b)) os)"

definition fmt_subslice :: "nat list \<Rightarrow> string" where
  "fmt_subslice ss = join '':'' (map hex ss)"

text \<open>The first longest run of zero segments, as its start and its length.\<close>

fun zero_span :: "nat list \<Rightarrow> nat \<Rightarrow> nat \<times> nat \<Rightarrow> nat \<times> nat \<Rightarrow> nat \<times> nat" where
  "zero_span [] i longest current = longest"
| "zero_span (s # ss) i longest current =
     (if s = 0 then
        let current = ((if snd current = 0 then i else fst current), snd current + 1)
        in zero_span ss (i + 1) (if snd current > snd longest then current else longest) current
      else zero_span ss (i + 1) longest (0, 0))"

definition to_ipv4_mapped :: "u8 list \<Rightarrow> u8 list option" where
  "to_ipv4_mapped os =
     (if take 12 os = replicate 10 0 @ [255, 255] then Some (drop 12 os) else None)"

definition ipv6_display :: "u8 list \<Rightarrow> string" where
  "ipv6_display os =
     (case to_ipv4_mapped os of
        Some v4 \<Rightarrow> ''::ffff:'' @ ipv4_display v4
      | None \<Rightarrow>
          (let ss = segments os; (start, len) = zero_span ss 0 (0, 0) (0, 0)
           in if 1 < len
              then fmt_subslice (take start ss) @ ''::'' @ fmt_subslice (drop (start + len) ss)
              else fmt_subslice ss))"

fun ip_display :: "ip_addr \<Rightarrow> string" where
  "ip_display (V4 os) = ipv4_display os"
| "ip_display (V6 os) = ipv6_display os"

section \<open>Facts about digits and numerals\<close>

lemma byte_digit_char: "d < 16 \<Longrightarrow> byte (digit_char d) = (if d < 10 then 48 + d else 87 + d)"
  by (simp add: byte_def digit_char_def)

lemma is_ascii_digit_char: "d < 16 \<Longrightarrow> is_ascii_digit (digit_char d) \<longleftrightarrow> d < 10"
  by (auto simp: is_ascii_digit_def byte_digit_char)

lemma digit_value_char [simp]: "d < 10 \<Longrightarrow> digit_value (digit_char d) = d"
  by (simp add: digit_value_def byte_digit_char)

lemma digit_char_value [simp]: "is_ascii_digit c \<Longrightarrow> digit_char (digit_value c) = c"
  by (auto simp: is_ascii_digit_def digit_value_def digit_char_def byte_def)

lemma digit_value_less: "is_ascii_digit c \<Longrightarrow> digit_value c < 10"
  by (auto simp: is_ascii_digit_def digit_value_def)

lemma hex_value_char [simp]: "d < 16 \<Longrightarrow> hex_value (digit_char d) = Some d"
  by (auto simp: hex_value_def is_ascii_digit_char byte_digit_char)

lemma dec_small: "n < 10 \<Longrightarrow> dec n = [digit_char n]"
  by (simp add: dec.simps)

lemma dec_step: "0 < n \<Longrightarrow> d < 10 \<Longrightarrow> dec (n * 10 + d) = dec n @ [digit_char d]"
  by (subst dec.simps) simp

lemma dec_digits: "c \<in> set (dec n) \<Longrightarrow> is_ascii_digit c"
proof (induction n rule: dec.induct)
  case (1 n)
  then show ?case
    by (subst (asm) (2) dec.simps) (auto simp: is_ascii_digit_char split: if_splits)
qed

lemma hex_digits: "c \<in> set (hex n) \<Longrightarrow> \<exists>d. d < 16 \<and> c = digit_char d"
proof (induction n rule: hex.induct)
  case (1 n)
  then show ?case
    by (subst (asm) (2) hex.simps)
      (auto split: if_splits intro: exI [of _ "n mod 16"])
qed

lemma dec_nonempty [simp]: "dec n \<noteq> []"
  by (subst dec.simps) simp

lemma hex_nonempty [simp]: "hex n \<noteq> []"
  by (subst hex.simps) simp

lemma digits_value_snoc: "digits_value (ds @ [c]) = digits_value ds * 10 + digit_value c"
  by (simp add: digits_value_def)

lemma digits_value_dec [simp]: "digits_value (dec n) = n"
proof (induction n rule: dec.induct)
  case (1 n)
  show ?case
  proof (cases "n < 10")
    case True
    then show ?thesis by (simp add: dec_small digits_value_def)
  next
    case False
    with 1 show ?thesis
      by (subst dec.simps) (simp add: digits_value_snoc)
  qed
qed

lemma dec_inject [simp]: "dec m = dec n \<longleftrightarrow> m = n"
  by (metis digits_value_dec)

text \<open>Decimal and hexadecimal numerals of bounded values, digit by digit.\<close>

lemma dec_lt_1000:
  "n < 1000 \<Longrightarrow> dec n =
     (if n < 10 then [digit_char n]
      else if n < 100 then [digit_char (n div 10), digit_char (n mod 10)]
      else [digit_char (n div 100), digit_char (n div 10 mod 10), digit_char (n mod 10)])"
proof -
  assume "n < 1000"
  moreover have "n div 10 div 10 = n div 100"
    by (simp add: div_mult2_eq [symmetric])
  ultimately show ?thesis
    by (simp add: div_less_iff_less_mult dec.simps [of n] dec.simps [of "n div 10"] dec.simps [of "n div 100"])
qed

lemma hex_lt_65536:
  "n < 65536 \<Longrightarrow> hex n =
     (if n < 16 then [digit_char n]
      else if n < 256 then [digit_char (n div 16), digit_char (n mod 16)]
      else if n < 4096 then [digit_char (n div 256), digit_char (n div 16 mod 16), digit_char (n mod 16)]
      else [digit_char (n div 4096), digit_char (n div 256 mod 16), digit_char (n div 16 mod 16),
            digit_char (n mod 16)])"
proof -
  assume "n < 65536"
  moreover have "n div 16 div 16 = n div 256" "n div 256 div 16 = n div 4096"
    by (simp_all add: div_mult2_eq [symmetric])
  ultimately show ?thesis
    by (simp add: div_less_iff_less_mult hex.simps [of n] hex.simps [of "n div 16"] hex.simps [of "n div 256"]
        hex.simps [of "n div 4096"])
qed

lemma byte_eq_iff: "byte c = byte d \<longleftrightarrow> c = d"
  by (simp add: byte_def)

lemma char_not_digit [simp]:
  "\<not> is_ascii_digit (CHR ''.'')" "\<not> is_ascii_digit (CHR '':'')" "\<not> is_ascii_digit (CHR ''/'')"
  "\<not> is_ascii_digit (CHR ''%'')" "\<not> is_ascii_digit (CHR ''+'')" "\<not> is_ascii_digit (CHR ''-'')"
  by (simp_all add: is_ascii_digit_def byte_def)

lemma hex_value_specials [simp]:
  "hex_value (CHR ''.'') = None" "hex_value (CHR '':'') = None" "hex_value (CHR ''/'') = None"
  "hex_value (CHR ''%'') = None"
  by (simp_all add: hex_value_def is_ascii_digit_def byte_def)

lemma special_not_in_dec:
  "\<not> is_ascii_digit c \<Longrightarrow> c \<notin> set (dec n)"
  using dec_digits by blast

lemma special_not_in_hex:
  "hex_value c = None \<Longrightarrow> c \<notin> set (hex n)"
  using hex_digits hex_value_char by fastforce

lemma set_join: "set (join sep ss) \<subseteq> set sep \<union> \<Union> (set ` set ss)"
  by (induction sep ss rule: join.induct) auto

lemma parse_i64_dec: "n < 2 ^ 63 \<Longrightarrow> parse_i64 (dec n) = Some (int n)"
proof -
  assume n: "n < 2 ^ 63"
  obtain c cs where eq: "dec n = c # cs"
    by (cases "dec n") auto
  then have "is_ascii_digit c"
    using dec_digits [of c n] by simp
  then have "c \<noteq> CHR ''+''" "c \<noteq> CHR ''-''"
    by auto
  moreover have "list_all is_ascii_digit (dec n)"
    by (auto simp: list_all_iff dest: dec_digits)
  ultimately show ?thesis
    using n eq digits_value_dec [of n] by (simp add: parse_i64_def)
qed

section \<open>Octets and segments\<close>

lemma segments_bound: "s \<in> set (segments os) \<Longrightarrow> s < 65536"
proof (induction os rule: segments.induct)
  case (1 a b os)
  have "unat a < 256" "unat b < 256"
    by simp_all
  then have "unat a * 256 + unat b < 65536" by arith
  with 1 show ?case by auto
qed simp_all

lemma of_nat_seg_octets:
  "(of_nat ((unat a * 256 + unat b) div 256) :: u8) = a" "(of_nat (unat a * 256 + unat b) :: u8) = b"
proof -
  have "unat b < 256"
    by simp
  then show "(of_nat ((unat a * 256 + unat b) div 256) :: u8) = a"
    by simp
  have zero: "(256 :: u8) = 0" by simp
  have "a * 256 = 0" by (simp only: zero mult_zero_right)
  then show "(of_nat (unat a * 256 + unat b) :: u8) = b"
    by simp
qed

lemma seg_octets_segments: "even (length os) \<Longrightarrow> seg_octets (segments os) = os"
proof (induction os rule: segments.induct)
  case (1 a b os)
  then show ?case
    using of_nat_seg_octets [of a b] by (simp del: of_nat_add of_nat_mult)
qed simp_all

lemma length_segments: "length (segments os) = length os div 2"
  by (induction os rule: segments.induct) auto

lemma length_seg_octets [simp]: "length (seg_octets ss) = 2 * length ss"
  by (induction ss) auto

lemma seg_octets_append: "seg_octets (ss @ ts) = seg_octets ss @ seg_octets ts"
  by (induction ss) auto

lemma seg_octets_zeros: "seg_octets (replicate n 0) = replicate (2 * n) 0"
  by (induction n) auto

section \<open>Byte buffers\<close>

text \<open>Indexing and slicing, \<open>None\<close> where the code panics. A socket address is an address and a
  port; the flow label and scope of an IPv6 one are not used.\<close>

type_synonym bytes = "u8 list"

type_synonym socket_addr = "ip_addr \<times> u16"

definition idx :: "bytes \<Rightarrow> nat \<Rightarrow> u8 option" where
  "idx d i = (if i < length d then Some (d ! i) else None)"

definition byte_range :: "bytes \<Rightarrow> nat \<Rightarrow> nat \<Rightarrow> bytes option" where
  "byte_range d a b = (if a \<le> b \<and> b \<le> length d then Some (take (b - a) (drop a d)) else None)"

named_theorems in_range \<open>reads within a buffer\<close>

lemma idx_in [in_range]: "i < length d \<Longrightarrow> idx d i = Some (d ! i)"
  by (simp add: idx_def)

lemma byte_range_in [in_range]:
  "a \<le> b \<Longrightarrow> b \<le> length d \<Longrightarrow> byte_range d a b = Some (take (b - a) (drop a d))"
  by (simp add: byte_range_def)

end
