(* ===== verification/Netip.thy ===== *)
theory Netip
  imports Std_Net "HOL-Library.Product_Lexorder"
begin

text \<open>
  The address and prefix texts of \<open>headscale-api-acl/src/go_netip.rs\<close>: the parsers for IPv4,
  IPv6 and prefix text with their error order, the canonical texts they are printed back to, and
  the comparison of prefixes. An error keeps the quoted input, the message and the offending rest
  of the text; \<open>go_strconv::quote\<close>, which only renders them, is not modelled.
  The theorems: the IPv4 parser accepts exactly the printed forms, the canonical text of every
  address and prefix parses back to it, and the prefix comparison is a strict total order on
  canonical texts.
\<close>

section \<open>Parsing addresses\<close>

datatype addr_error = AddrError (ae_input: string) (ae_message: string) (ae_at: string)

fun ipv4_loop ::
  "string \<Rightarrow> char option \<Rightarrow> u8 list \<Rightarrow> nat \<Rightarrow> nat \<Rightarrow> string \<Rightarrow> (addr_error, u8 list \<times> nat) result" where
  "ipv4_loop input prev fields value digits [] = Inr (fields, value)"
| "ipv4_loop input prev fields value digits (b # rest) =
     (if is_ascii_digit b then
        if digits = 1 \<and> value = 0
        then Inl (AddrError input ''IPv4 field has octet with leading zero'' [])
        else let value' = value * 10 + digit_value b in
          if value' > 255 then Inl (AddrError input ''IPv4 field has value >255'' [])
          else ipv4_loop input (Some b) fields value' (digits + 1) rest
      else if b = CHR ''.'' then
        if prev = None \<or> rest = [] \<or> prev = Some (CHR ''.'')
        then Inl (AddrError input ''IPv4 field must have at least one digit'' (b # rest))
        else if length fields = 3 then Inl (AddrError input ''IPv4 address too long'' [])
        else ipv4_loop input (Some b) (fields @ [of_nat value]) 0 0 rest
      else Inl (AddrError input ''unexpected character'' (b # rest)))"

definition ipv4_fields :: "string \<Rightarrow> string \<Rightarrow> (addr_error, u8 list) result" where
  "ipv4_fields input text =
     (case ipv4_loop input None [] 0 0 text of
        Inl e \<Rightarrow> Inl e
      | Inr (fields, value) \<Rightarrow>
          if length fields < 3 then Inl (AddrError input ''IPv4 address too short'' [])
          else Inr (fields @ [of_nat value]))"

text \<open>One hexadecimal group: how many digits it has and their value.\<close>

fun hex_group :: "string \<Rightarrow> string \<Rightarrow> nat \<Rightarrow> nat \<Rightarrow> string \<Rightarrow> (addr_error, nat \<times> nat) result" where
  "hex_group input text offset value [] = Inr (offset, value)"
| "hex_group input text offset value (b # bs) =
     (case hex_value b of
        None \<Rightarrow> Inr (offset, value)
      | Some digit \<Rightarrow>
          let value' = value * 16 + digit in
          if offset > 3 then Inl (AddrError input ''each group must have 4 or less digits'' text)
          else if value' > 65535 then Inl (AddrError input ''IPv6 field has value >=2^16'' text)
          else hex_group input text (offset + 1) value' bs)"

text \<open>
  The loop over the groups. \<open>acc\<close> is \<open>octets[..position]\<close>, the part of the array written so
  far (the rest of the array is still zero), so \<open>position\<close> is its length. The result is the state
  in which the loop is left: the octets, the position of the ellipsis and the text not consumed.
\<close>

function v6_loop ::
  "string \<Rightarrow> u8 list \<Rightarrow> nat option \<Rightarrow> string \<Rightarrow> (addr_error, u8 list \<times> nat option \<times> string) result" where
  "v6_loop input acc ellipsis text =
     (if 16 \<le> length acc then Inr (acc, ellipsis, text)
      else case hex_group input text 0 0 text of
        Inl e \<Rightarrow> Inl e
      | Inr (offset, value) \<Rightarrow>
          if offset = 0
          then Inl (AddrError input ''each colon-separated field must have at least one digit'' text)
          else (let acc' = acc @ [of_nat (value div 256), of_nat value] in
            case drop offset text of
              [] \<Rightarrow> Inr (acc', ellipsis, [])
            | c # more \<Rightarrow>
                if c = CHR ''.'' then
                  if ellipsis = None \<and> length acc \<noteq> 12
                  then Inl (AddrError input
                    ''embedded IPv4 address must replace the final 2 fields of the address'' text)
                  else if length acc + 4 > 16
                  then Inl (AddrError input
                    ''too many hex fields to fit an embedded IPv4 at the end of the address'' text)
                  else (case ipv4_fields input text of
                      Inl e \<Rightarrow> Inl e
                    | Inr fields \<Rightarrow> Inr (acc @ fields, ellipsis, []))
                else if c \<noteq> CHR '':''
                then Inl (AddrError input ''unexpected character, want colon'' (c # more))
                else (case more of
                  [] \<Rightarrow> Inl (AddrError input ''colon must be followed by more characters'' (c # more))
                | d # after \<Rightarrow>
                    if d = CHR '':'' then
                      if ellipsis \<noteq> None
                      then Inl (AddrError input ''multiple :: in address'' (d # after))
                      else if after = [] then Inr (acc', Some (length acc'), [])
                      else v6_loop input acc' (Some (length acc')) after
                    else v6_loop input acc' ellipsis (d # after))))"
  by pat_completeness auto
termination
  by (relation "measure (\<lambda>(input, acc, ellipsis, text). 16 - length acc)") auto

declare v6_loop.simps [simp del]

definition ipv6_address :: "string \<Rightarrow> (addr_error, ip_addr \<times> string option) result" where
  "ipv6_address input =
     (case (case split_once input (CHR ''%'') of
              Some (ip, z) \<Rightarrow> if z = [] then None else Some (ip, Some z)
            | None \<Rightarrow> Some (input, None)) of
        None \<Rightarrow> Inl (AddrError input ''zone must be a non-empty string'' [])
      | Some (text, zone) \<Rightarrow>
          let (ellipsis, text') = (case strip_prefix text ''::'' of
              Some rest \<Rightarrow> (Some 0, rest) | None \<Rightarrow> (None, text))
          in if ellipsis \<noteq> None \<and> text' = [] then Inr (V6 (replicate 16 0), zone)
          else (case v6_loop input [] ellipsis text' of
              Inl e \<Rightarrow> Inl e
            | Inr (acc, ellipsis, rest) \<Rightarrow>
                if rest \<noteq> [] then Inl (AddrError input ''trailing garbage after address'' rest)
                else if length acc < 16 then
                  (case ellipsis of
                     None \<Rightarrow> Inl (AddrError input ''address string too short'' [])
                   | Some e \<Rightarrow>
                       Inr (V6 (take e acc @ replicate (16 - length acc) 0 @ drop e acc), zone))
                else if ellipsis \<noteq> None
                then Inl (AddrError input ''the :: must expand to at least one field of zeros'' [])
                else Inr (V6 acc, zone)))"

fun parse_address_scan :: "string \<Rightarrow> string \<Rightarrow> (addr_error, ip_addr \<times> string option) result" where
  "parse_address_scan text [] = Inl (AddrError text ''unable to parse IP'' [])"
| "parse_address_scan text (b # bs) =
     (if b = CHR ''.'' then
        (case ipv4_fields text text of Inl e \<Rightarrow> Inl e | Inr bytes \<Rightarrow> Inr (V4 bytes, None))
      else if b = CHR '':'' then ipv6_address text
      else if b = CHR ''%'' then Inl (AddrError text ''missing IPv6 address'' [])
      else parse_address_scan text bs)"

definition parse_address :: "string \<Rightarrow> (addr_error, ip_addr \<times> string option) result" where
  "parse_address text = parse_address_scan text text"

section \<open>Canonical texts\<close>

definition address_text :: "ip_addr \<Rightarrow> string option \<Rightarrow> string" where
  "address_text ip zone =
     (case ip of
        V6 os \<Rightarrow> (case to_ipv4_mapped os of
            Some v4 \<Rightarrow> ''::ffff:'' @ ipv4_display v4
          | None \<Rightarrow> ipv6_display os)
      | V4 os \<Rightarrow> ipv4_display os)
     @ (case zone of Some z \<Rightarrow> CHR ''%'' # z | None \<Rightarrow> [])"

definition addr_text :: "string \<Rightarrow> string option" where
  "addr_text text =
     (if text = [] then Some []
      else map_option (\<lambda>(ip, zone). address_text ip zone) (ok (parse_address text)))"

fun decimal_fold :: "u16 \<Rightarrow> string \<Rightarrow> u16 option" where
  "decimal_fold v [] = Some v"
| "decimal_fold v (b # bs) =
     (if \<not> is_ascii_digit b then None
      else if unat v * 10 + digit_value b < 2 ^ 16
      then decimal_fold (of_nat (unat v * 10 + digit_value b)) bs else None)"

definition decimal :: "string \<Rightarrow> u16 option" where
  "decimal text = (if text = [] then None else decimal_fold 0 text)"

definition addr_host_prefix_text :: "string \<Rightarrow> string option" where
  "addr_host_prefix_text text =
     (if text = [] then Some []
      else (case parse_address text of
        Inl _ \<Rightarrow> None
      | Inr (ip, _) \<Rightarrow> Some (address_text ip None @ ''/'' @ dec (if is_ipv4 ip then 32 else 128))))"

definition strip_suffix_bracket :: "string \<Rightarrow> string option" where
  "strip_suffix_bracket s = (if s \<noteq> [] \<and> last s = CHR '']'' then Some (butlast s) else None)"

definition addr_port_text :: "string \<Rightarrow> string option" where
  "addr_port_text text =
     (if text = [] then Some []
      else case rsplit_once text (CHR '':'') of
        None \<Rightarrow> None
      | Some (ip, port) \<Rightarrow>
          (case (case strip_prefix ip ''['' of
              Some i \<Rightarrow> map_option (\<lambda>j. (j, True)) (strip_suffix_bracket i)
            | None \<Rightarrow> Some (ip, False)) of
            None \<Rightarrow> None
          | Some (i, bracketed) \<Rightarrow>
              (case parse_address i of
                 Inl _ \<Rightarrow> None
               | Inr (a, zone) \<Rightarrow>
                   if (\<not> is_ipv4 a) \<noteq> bracketed then None
                   else (case decimal port of
                       None \<Rightarrow> None
                     | Some p \<Rightarrow>
                         let t = address_text a zone in
                         Some (if bracketed then ''['' @ t @ '']:'' @ dec (unat p)
                               else t @ '':'' @ dec (unat p))))))"

section \<open>Prefixes\<close>

datatype prefix_error =
    NoSlash string
  | BadAddress string addr_error
  | ZonePresent string
  | BadBits string string
  | OutOfRange string

definition parse_prefix :: "string \<Rightarrow> (prefix_error, ip_addr \<times> nat) result" where
  "parse_prefix text =
     (case rsplit_once text (CHR ''/'') of
        None \<Rightarrow> Inl (NoSlash text)
      | Some (address, bits) \<Rightarrow>
          (case parse_address address of
             Inl e \<Rightarrow> Inl (BadAddress text e)
           | Inr (ip, zone) \<Rightarrow>
               if zone \<noteq> None then Inl (ZonePresent text)
               else if 1 < length bits \<and> \<not> (49 \<le> byte (hd bits) \<and> byte (hd bits) \<le> 57)
               then Inl (BadBits text bits)
               else (case parse_i64 bits of
                   None \<Rightarrow> Inl (BadBits text bits)
                 | Some n \<Rightarrow>
                     if \<not> (0 \<le> n \<and> n \<le> (if is_ipv4 ip then 32 else 128))
                     then Inl (OutOfRange text)
                     else Inr (ip, nat n))))"

definition prefix_display :: "ip_addr \<times> nat \<Rightarrow> string" where
  "prefix_display p = address_text (fst p) None @ ''/'' @ dec (snd p)"

definition parse_prefix_text :: "string \<Rightarrow> (prefix_error, string) result" where
  "parse_prefix_text text =
     (case parse_prefix text of Inl e \<Rightarrow> Inl e | Inr p \<Rightarrow> Inr (prefix_display p))"

definition prefix_text :: "string \<Rightarrow> string option" where
  "prefix_text text = (if text = [] then Some [] else ok (parse_prefix_text text))"

definition prefix_parts :: "string \<Rightarrow> (ip_addr \<times> nat) option" where
  "prefix_parts text = ok (parse_prefix text)"

fun masked_loop :: "nat \<Rightarrow> u8 list \<Rightarrow> u8 list" where
  "masked_loop remaining [] = []"
| "masked_loop remaining (b # bs) =
     (if 8 \<le> remaining then b # masked_loop (remaining - 8) bs
      else (and b (if remaining = 0 then 0 else push_bit (8 - remaining) (- 1))) # masked_loop 0 bs)"

definition masked :: "u8 list \<Rightarrow> nat \<Rightarrow> u8 list" where
  "masked address bits = masked_loop bits address"

definition compare_address :: "u8 list \<Rightarrow> nat \<Rightarrow> u8 list \<Rightarrow> nat \<Rightarrow> ordering" where
  "compare_address a a_bits b b_bits =
     then_with (then_with (cmp (masked a a_bits) (masked b b_bits)) (cmp a_bits b_bits)) (cmp a b)"

fun compare_parts :: "(ip_addr \<times> nat) option \<Rightarrow> (ip_addr \<times> nat) option \<Rightarrow> ordering" where
  "compare_parts None None = Equal"
| "compare_parts (Some (V4 a, a_bits)) (Some (V4 b, b_bits)) = compare_address a a_bits b b_bits"
| "compare_parts (Some (V6 a, a_bits)) (Some (V6 b, b_bits)) = compare_address a a_bits b b_bits"
| "compare_parts None (Some _) = Less"
| "compare_parts (Some (V4 _, _)) (Some (V6 _, _)) = Less"
| "compare_parts (Some _) None = Greater"
| "compare_parts (Some (V6 _, _)) (Some (V4 _, _)) = Greater"

definition prefix_compare :: "string \<Rightarrow> string \<Rightarrow> ordering option" where
  "prefix_compare a b =
     (case (if a = [] then Some None else map_option Some (prefix_parts a)) of
        None \<Rightarrow> None
      | Some pa \<Rightarrow>
          (case (if b = [] then Some None else map_option Some (prefix_parts b)) of
             None \<Rightarrow> None
           | Some pb \<Rightarrow> Some (compare_parts pa pb)))"

section \<open>The IPv4 parser accepts exactly the printed forms\<close>

lemma digit_sums:
  fixes n :: nat
  shows "n div 10 * 10 + n mod 10 = n"
    "(n div 100 * 10 + n div 10 mod 10) * 10 + n mod 10 = n"
proof -
  show "n div 10 * 10 + n mod 10 = n" by simp
  have "n div 100 = n div 10 div 10" by (simp add: div_mult2_eq [symmetric])
  then show "(n div 100 * 10 + n div 10 mod 10) * 10 + n mod 10 = n" by simp
qed

lemma ipv4_loop_dec:
  assumes "n \<le> 255"
  shows "ipv4_loop input prev fields 0 0 (dec n @ rest) =
    ipv4_loop input (Some (last (dec n))) fields n (length (dec n)) rest"
proof -
  consider "n < 10" | "10 \<le> n" "n < 100" | "100 \<le> n" by linarith
  then show ?thesis
  proof cases
    case 1
    with assms show ?thesis
      by (simp add: dec_lt_1000 is_ascii_digit_char)
  next
    case 2
    then have "0 < n div 10" "n div 10 < 10" by auto
    with 2 assms show ?thesis
      by (simp add: dec_lt_1000 is_ascii_digit_char digit_sums)
  next
    case 3
    have "n div 100 = n div 10 div 10"
      by (simp add: div_mult2_eq [symmetric])
    then have "n div 100 * 10 + n div 10 mod 10 = n div 10"
      by simp
    moreover have "0 < n div 100" "n div 100 < 10" "n div 10 \<le> 255"
      using 3 assms by (auto simp: div_less_iff_less_mult)
    ultimately show ?thesis
      using 3 assms by (simp add: dec_lt_1000 is_ascii_digit_char digit_sums)
  qed
qed

lemma last_dec_not_dot: "last (dec n) \<noteq> CHR ''.''"
  using dec_digits [of "last (dec n)" n] by auto

lemma ipv4_loop_field:
  assumes "n \<le> 255" "length fields < 3" "rest \<noteq> []"
  shows "ipv4_loop input prev fields 0 0 (dec n @ CHR ''.'' # rest) =
    ipv4_loop input (Some (CHR ''.'')) (fields @ [of_nat n]) 0 0 rest"
  using assms last_dec_not_dot by (simp add: ipv4_loop_dec)

lemma unat_u8_le: "unat (b :: u8) \<le> 255"
  using unat_u8_less [of b] by linarith

lemma ipv4_fields_display:
  "ipv4_fields input (ipv4_display [a, b, c, d]) = Inr [a, b, c, d]"
  by (simp add: ipv4_fields_def ipv4_display_def ipv4_loop_field ipv4_loop_dec [where rest = "[]", simplified]
      unat_u8_le)

lemma join_Cons: "ts \<noteq> [] \<Longrightarrow> join sep (s # ts) = s @ sep @ join sep ts"
  by (cases ts) auto

text \<open>\<open>cur\<close> is the part of the current field read so far.\<close>

lemma ipv4_loop_sound:
  assumes "ipv4_loop input prev fields v k t = Inr (fields', v')"
    and "cur = [] \<and> v = 0 \<and> k = 0 \<and> (prev = None \<or> prev = Some (CHR ''.'')) \<or>
         cur = dec v \<and> k = length cur \<and> v \<le> 255"
    and "cur \<noteq> [] \<or> t \<noteq> []" and "length fields \<le> 3"
  shows "\<exists>ws. fields' = fields @ ws \<and> length fields' \<le> 3 \<and>
    cur @ t = ipv4_display (ws @ [of_nat v'])"
  using assms
proof (induction input prev fields v k t arbitrary: cur rule: ipv4_loop.induct)
  case (1 input prev fields v k)
  then show ?case
    by (auto simp: ipv4_display_def unat_of_nat)
next
  case (2 input prev fields v k b rest)
  show ?case
  proof (cases "is_ascii_digit b")
    case True
    let ?v = "v * 10 + digit_value b"
    from 2(3) True have ok: "\<not> (k = 1 \<and> v = 0)" "?v \<le> 255"
      "ipv4_loop input (Some b) fields ?v (k + 1) rest = Inr (fields', v')"
      by (auto simp: Let_def split: if_splits)
    have "cur @ [b] = dec ?v \<and> k + 1 = length (dec ?v)"
    proof (cases "cur = []")
      case True
      with 2(4) have "v = 0" "k = 0" by (auto dest: sym)
      with True \<open>is_ascii_digit b\<close> show ?thesis
        by (simp add: dec_small digit_value_less)
    next
      case False
      with 2(4) have cur: "cur = dec v" "k = length cur" by auto
      with ok(1) have "0 < v" by (cases "v = 0") (auto simp: dec_small)
      with cur show ?thesis
        by (simp add: dec_step digit_value_less \<open>is_ascii_digit b\<close>)
    qed
    then have "\<exists>ws. fields' = fields @ ws \<and> length fields' \<le> 3 \<and>
        (cur @ [b]) @ rest = ipv4_display (ws @ [of_nat v'])"
      using ok 2(6) True by (intro 2(1)) auto
    then show ?thesis by simp
  next
    case False
    with 2(3) have ok: "b = CHR ''.''" "prev \<noteq> None" "prev \<noteq> Some (CHR ''.'')" "rest \<noteq> []"
      "length fields \<noteq> 3"
      "ipv4_loop input (Some b) (fields @ [of_nat v]) 0 0 rest = Inr (fields', v')"
      by (auto split: if_splits)
    with 2(4) have cur: "cur = dec v" "v \<le> 255" by auto
    have "\<exists>ws. fields' = (fields @ [of_nat v]) @ ws \<and> length fields' \<le> 3 \<and>
        [] @ rest = ipv4_display (ws @ [of_nat v'])"
      using ok 2(6) False by (intro 2(2)) auto
    then obtain ws where ws: "fields' = fields @ of_nat v # ws" "length fields' \<le> 3"
      "rest = ipv4_display (ws @ [of_nat v'])"
      by auto
    then have "cur @ b # rest = ipv4_display ((of_nat v # ws) @ [of_nat v'])"
      using cur ok(1) by (simp add: ipv4_display_def join_Cons unat_of_nat)
    with ws show ?thesis by blast
  qed
qed

lemma ipv4_fields_sound:
  assumes "ipv4_fields input t = Inr fs"
  shows "length fs = 4 \<and> t = ipv4_display fs"
proof -
  from assms obtain fields v where loop: "ipv4_loop input None [] 0 0 t = Inr (fields, v)"
    and len: "\<not> length fields < 3" and fs: "fs = fields @ [of_nat v]"
    by (auto simp: ipv4_fields_def split: sum.splits if_splits)
  from loop len have "t \<noteq> []" by auto
  with ipv4_loop_sound [OF loop, of "[]"] len fs show ?thesis by auto
qed

section \<open>Canonical IPv6 text parses back\<close>

lemma hex_group_stop:
  "rest = [] \<or> hex_value (hd rest) = None \<Longrightarrow> hex_group input text off v rest = Inr (off, v)"
  by (cases rest) auto

lemma hex_sums:
  fixes n :: nat
  shows "n div 16 * 16 + n mod 16 = n"
    "n div 256 * 16 + n div 16 mod 16 = n div 16"
    "n div 4096 * 16 + n div 256 mod 16 = n div 256"
proof -
  have "n div 256 = n div 16 div 16" "n div 4096 = n div 256 div 16"
    by (simp_all add: div_mult2_eq [symmetric])
  then show "n div 256 * 16 + n div 16 mod 16 = n div 16"
    "n div 4096 * 16 + n div 256 mod 16 = n div 256"
    by simp_all
qed simp

lemma hex_group_hex:
  assumes "n < 65536" "rest = [] \<or> hex_value (hd rest) = None"
  shows "hex_group input text 0 0 (hex n @ rest) = Inr (length (hex n), n)"
proof -
  note stop = hex_group_stop [OF assms(2)]
  have le: "n div 16 \<le> 65535" "n div 256 \<le> 65535" "n div 4096 \<le> 65535" "n \<le> 65535"
    using assms(1) by (auto simp: div_less_iff_less_mult less_Suc_eq_le [symmetric])
  consider "n < 16" | "16 \<le> n" "n < 256" | "256 \<le> n" "n < 4096" | "4096 \<le> n" by linarith
  then show ?thesis
  proof cases
    case 1
    with assms(1) show ?thesis by (simp add: hex_lt_65536 stop)
  next
    case 2
    with assms(1) show ?thesis
      by (simp add: hex_lt_65536 stop div_less_iff_less_mult hex_sums Let_def le not_less)
  next
    case 3
    with assms(1) show ?thesis
      by (simp add: hex_lt_65536 stop div_less_iff_less_mult hex_sums Let_def le not_less)
  next
    case 4
    with assms(1) show ?thesis
      by (simp add: hex_lt_65536 stop div_less_iff_less_mult hex_sums Let_def le not_less)
  qed
qed

lemma hex_group_dec:
  assumes "n \<le> 255"
  shows "\<exists>v. hex_group input text 0 0 (dec n @ CHR ''.'' # rest) = Inr (length (dec n), v)"
proof -
  have d: "d < 10 \<Longrightarrow> hex_value (digit_char d) = Some d" for d by simp
  consider "n < 10" | "10 \<le> n" "n < 100" | "100 \<le> n" by linarith
  then show ?thesis
  proof cases
    case 1
    with assms show ?thesis by (simp add: dec_lt_1000 d)
  next
    case 2
    then have "n div 10 < 10" by auto
    moreover have "n mod 10 < 10" by simp
    ultimately have "n div 10 * 16 + n mod 10 \<le> 65535" by linarith
    with 2 \<open>n div 10 < 10\<close> assms show ?thesis by (simp add: dec_lt_1000 d Let_def not_less)
  next
    case 3
    with assms have "n div 100 < 3" by auto
    moreover have "n div 10 mod 10 < 10" "n mod 10 < 10" by simp_all
    moreover define v where "v = n div 100 * 16 + n div 10 mod 10"
    ultimately have "v \<le> 41" by linarith
    moreover from this \<open>n mod 10 < 10\<close> have "v * 16 + n mod 10 \<le> 65535" by linarith
    ultimately show ?thesis
      using 3 \<open>n div 100 < 3\<close> assms
      by (simp add: dec_lt_1000 d Let_def not_less v_def [symmetric])
  qed
qed

lemma v6_step_end:
  assumes "s < 65536" "length acc < 16"
  shows "v6_loop input acc ell (hex s) = Inr (acc @ seg_octets [s], ell, [])"
  using assms hex_group_hex [of s "[]"] by (simp add: v6_loop.simps [of _ acc])

lemma v6_step_colon:
  assumes "s < 65536" "length acc < 16" "d \<noteq> CHR '':''"
  shows "v6_loop input acc ell (hex s @ CHR '':'' # d # after) =
    v6_loop input (acc @ seg_octets [s]) ell (d # after)"
  using assms hex_group_hex [of s "CHR '':'' # d # after"]
  by (simp add: v6_loop.simps [of _ acc])

lemma v6_step_ellipsis:
  assumes "s < 65536" "length acc < 16"
  shows "v6_loop input acc None (hex s @ CHR '':'' # CHR '':'' # after) =
    (let acc' = acc @ seg_octets [s] in
     if after = [] then Inr (acc', Some (length acc'), [])
     else v6_loop input acc' (Some (length acc')) after)"
  using assms hex_group_hex [of s "CHR '':'' # CHR '':'' # after"]
  by (simp add: v6_loop.simps [of _ acc] Let_def)

lemma fmt_subslice_simps [simp]:
  "fmt_subslice [] = []" "fmt_subslice [s] = hex s"
  "fmt_subslice (s # t # ts) = hex s @ CHR '':'' # fmt_subslice (t # ts)"
  by (simp_all add: fmt_subslice_def)

lemma hd_hex_not_colon: "hd (hex s) \<noteq> CHR '':''"
proof -
  obtain d where "d < 16" "hd (hex s) = digit_char d"
    using hex_digits [of "hd (hex s)" s] by auto
  then show ?thesis
    using hex_value_char [of d] by (metis hex_value_specials(2) option.distinct(1))
qed

lemma fmt_subslice_head:
  assumes "ss \<noteq> []"
  obtains d after where "fmt_subslice ss = d # after" "d \<noteq> CHR '':''"
proof -
  obtain s ts where ss: "ss = s # ts" using assms by (cases ss) auto
  obtain d r where d: "hex s = d # r" by (cases "hex s") auto
  with hd_hex_not_colon [of s] have "d \<noteq> CHR '':''" by simp
  with d ss show ?thesis by (cases ts) (auto intro: that)
qed

lemma v6_loop_fmt:
  assumes "ss \<noteq> []" "\<forall>s \<in> set ss. s < 65536" "length acc + 2 * length ss \<le> 16"
  shows "v6_loop input acc ell (fmt_subslice ss) = Inr (acc @ seg_octets ss, ell, [])"
  using assms
proof (induction ss arbitrary: acc rule: induct_list012)
  case (3 s t ts)
  obtain d after where fmt: "fmt_subslice (t # ts) = d # after" "d \<noteq> CHR '':''"
    by (rule fmt_subslice_head [of "t # ts"]) auto
  have "v6_loop input acc ell (fmt_subslice (s # t # ts)) =
      v6_loop input (acc @ seg_octets [s]) ell (fmt_subslice (t # ts))"
    using 3(4,5) fmt by (simp add: v6_step_colon)
  also have "\<dots> = Inr ((acc @ seg_octets [s]) @ seg_octets (t # ts), ell, [])"
    using 3(4,5) by (intro 3(2)) auto
  finally show ?case by simp
qed (auto simp: v6_step_end)

lemma v6_loop_fmt_ellipsis:
  assumes "ss \<noteq> []" "\<forall>s \<in> set ss. s < 65536" "length acc + 2 * length ss \<le> 16"
  shows "v6_loop input acc None (fmt_subslice ss @ CHR '':'' # CHR '':'' # after) =
    (let acc' = acc @ seg_octets ss in
     if after = [] then Inr (acc', Some (length acc'), [])
     else v6_loop input acc' (Some (length acc')) after)"
  using assms
proof (induction ss arbitrary: acc rule: induct_list012)
  case (3 s t ts)
  obtain d r where fmt: "fmt_subslice (t # ts) = d # r" "d \<noteq> CHR '':''"
    by (rule fmt_subslice_head [of "t # ts"]) auto
  let ?tail = "CHR '':'' # CHR '':'' # after"
  have "v6_loop input acc None (fmt_subslice (s # t # ts) @ ?tail) =
      v6_loop input (acc @ seg_octets [s]) None (fmt_subslice (t # ts) @ ?tail)"
    using 3(4,5) fmt by (simp add: v6_step_colon)
  also have "\<dots> = (let acc' = (acc @ seg_octets [s]) @ seg_octets (t # ts) in
     if after = [] then Inr (acc', Some (length acc'), [])
     else v6_loop input acc' (Some (length acc')) after)"
    using 3(4,5) by (intro 3(2)) auto
  finally show ?case by simp
qed (auto simp: v6_step_ellipsis)

text \<open>The span that \<open>Display\<close> compresses lies in the list and is all zeros.\<close>

definition zeros_at :: "nat list \<Rightarrow> nat \<times> nat \<Rightarrow> bool" where
  "zeros_at xs span = (fst span + snd span \<le> length xs \<and>
     (\<forall>j < snd span. xs ! (fst span + j) = 0))"

lemma zeros_at_split:
  assumes "zeros_at xs (start, len)"
  shows "xs = take start xs @ replicate len 0 @ drop (start + len) xs"
proof -
  have "take len (drop start xs) = replicate len 0"
    using assms by (intro nth_equalityI) (auto simp: zeros_at_def)
  then show ?thesis
    by (metis append_take_drop_id drop_drop add.commute)
qed

lemma zero_span_sound:
  assumes "zeros_at (pre @ ss) longest"
    and "snd current = 0 \<or> zeros_at (pre @ ss) current \<and> fst current + snd current = length pre"
  shows "zeros_at (pre @ ss) (zero_span ss (length pre) longest current)"
  using assms
proof (induction ss arbitrary: pre longest current)
  case Nil
  then show ?case by simp
next
  case (Cons s ss)
  show ?case
  proof (cases "s = 0")
    case True
    let ?cur = "((if snd current = 0 then length pre else fst current), Suc (snd current))"
    have cur: "zeros_at ((pre @ [s]) @ ss) ?cur" "fst ?cur + snd ?cur = length (pre @ [s])"
      using Cons.prems(2) True
      by (auto simp: zeros_at_def less_Suc_eq nth_append)
    have "zeros_at ((pre @ [s]) @ ss)
        (zero_span ss (length (pre @ [s])) (if snd ?cur > snd longest then ?cur else longest) ?cur)"
      using cur Cons.prems(1) by (intro Cons.IH) auto
    with True show ?thesis by (simp add: Let_def split del: if_split)
  next
    case False
    have "zeros_at ((pre @ [s]) @ ss) (zero_span ss (length (pre @ [s])) longest (0, 0))"
      using Cons.prems(1) by (intro Cons.IH) auto
    with False show ?thesis by simp
  qed
qed

lemma zero_span_split:
  assumes "zero_span ss 0 (0, 0) (0, 0) = (start, len)"
  shows "ss = take start ss @ replicate len 0 @ drop (start + len) ss"
    "start + len \<le> length ss"
proof -
  have "zeros_at ss (start, len)"
    using zero_span_sound [of "[]" ss "(0, 0)" "(0, 0)"] assms by (simp add: zeros_at_def)
  then show "ss = take start ss @ replicate len 0 @ drop (start + len) ss"
    "start + len \<le> length ss"
    by (rule zeros_at_split, simp add: zeros_at_def)
qed

lemma fmt_subslice_no_special:
  "hex_value c = None \<Longrightarrow> c \<noteq> CHR '':'' \<Longrightarrow> c \<notin> set (fmt_subslice ss)"
  using set_join [of "'':''" "map hex ss"] special_not_in_hex [of c]
  by (auto simp: fmt_subslice_def)

lemma ipv4_display_no_special:
  "\<not> is_ascii_digit c \<Longrightarrow> c \<noteq> CHR ''.'' \<Longrightarrow> c \<notin> set (ipv4_display os)"
  using set_join [of "''.''" "map (\<lambda>b. dec (unat b)) os"] special_not_in_dec [of c]
  by (auto simp: ipv4_display_def)

lemma strip_prefix_fmt:
  "ss \<noteq> [] \<Longrightarrow> strip_prefix (fmt_subslice ss @ r) ''::'' = None"
  by (erule fmt_subslice_head) (simp add: strip_prefix_def starts_with_def)

lemma dec_head:
  obtains e q where "dec n = e # q" "is_ascii_digit e"
proof -
  obtain e q where eq: "dec n = e # q" by (cases "dec n") auto
  then have "is_ascii_digit e" by (intro dec_digits [of e n]) simp
  with eq show ?thesis by (rule that)
qed

text \<open>The three shapes of a printed address: full, compressed, and IPv4-mapped.\<close>

lemma ipv6_address_full:
  assumes "length ss = 8" "\<forall>s \<in> set ss. s < 65536"
  shows "ipv6_address (fmt_subslice ss) = Inr (V6 (seg_octets ss), None)"
proof -
  have "ss \<noteq> []" using assms(1) by auto
  have "split_once (fmt_subslice ss) (CHR ''%'') = None"
    by (simp add: split_once_None_iff fmt_subslice_no_special)
  moreover have "strip_prefix (fmt_subslice ss) ''::'' = None"
    using strip_prefix_fmt [OF \<open>ss \<noteq> []\<close>, of "[]"] by simp
  moreover have "v6_loop input [] None (fmt_subslice ss) = Inr (seg_octets ss, None, [])" for input
    using assms \<open>ss \<noteq> []\<close> by (simp add: v6_loop_fmt)
  ultimately show ?thesis
    using assms(1) by (simp add: ipv6_address_def)
qed

lemma ipv6_address_compressed:
  assumes "length ss + length ts + len = 8" "1 < len"
    and "\<forall>s \<in> set ss. s < 65536" "\<forall>s \<in> set ts. s < 65536"
  shows "ipv6_address (fmt_subslice ss @ ''::'' @ fmt_subslice ts) =
    Inr (V6 (seg_octets ss @ replicate (2 * len) 0 @ seg_octets ts), None)"
proof -
  let ?text = "fmt_subslice ss @ ''::'' @ fmt_subslice ts"
  have zone: "split_once ?text (CHR ''%'') = None"
    by (simp add: split_once_None_iff fmt_subslice_no_special)
  have fill: "16 - (2 * length ss + 2 * length ts) = 2 * len"
    "2 * length ss + 2 * length ts < 16"
    using assms(1,2) by auto
  have empty_ts: "fmt_subslice ts = [] \<longleftrightarrow> ts = []"
    by (cases "ts = []") (auto elim: fmt_subslice_head)
  have tail: "v6_loop input acc ell (fmt_subslice ts) = Inr (acc @ seg_octets ts, ell, [])"
    if "ts \<noteq> []" "length acc + 2 * length ts \<le> 16" for input acc ell
    using that assms by (simp add: v6_loop_fmt)
  show ?thesis
  proof (cases "ss = []")
    case True
    then have strip: "strip_prefix ?text ''::'' = Some (fmt_subslice ts)"
      by (simp add: strip_prefix_def starts_with_def)
    show ?thesis
      using True zone strip tail [of "[]"] empty_ts fill
      by (cases "ts = []") (auto simp: ipv6_address_def)
  next
    case False
    have strip: "strip_prefix ?text ''::'' = None"
      using strip_prefix_fmt [OF False] by simp
    have "v6_loop input [] None ?text =
        (if ts = [] then Inr (seg_octets ss, Some (2 * length ss), [])
         else v6_loop input (seg_octets ss) (Some (2 * length ss)) (fmt_subslice ts))" for input
      using v6_loop_fmt_ellipsis [OF False assms(3), of "[]" input "fmt_subslice ts"] fill empty_ts
      by (simp add: Let_def)
    then have "v6_loop input [] None ?text =
        Inr (seg_octets ss @ seg_octets ts, Some (2 * length ss), [])" for input
      using tail [of "seg_octets ss"] fill by (cases "ts = []") simp_all
    with zone strip fill show ?thesis
      by (simp add: ipv6_address_def)
  qed
qed

lemma ipv6_address_mapped:
  "ipv6_address (''::ffff:'' @ ipv4_display [a, b, c, d]) =
    Inr (V6 (replicate 10 0 @ [255, 255, a, b, c, d]), None)"
proof -
  let ?v4 = "ipv4_display [a, b, c, d]"
  let ?text = "''::ffff:'' @ ?v4"
  have zone: "split_once ?text (CHR ''%'') = None"
    using ipv4_display_no_special [of "CHR ''%''" "[a, b, c, d]"]
    by (simp add: split_once_None_iff)
  have strip: "strip_prefix ?text ''::'' = Some (''ffff:'' @ ?v4)"
    by (simp add: strip_prefix_def starts_with_def)
  obtain rest where v4: "?v4 = dec (unat a) @ CHR ''.'' # rest"
    by (simp add: ipv4_display_def)
  obtain v where group: "hex_group ?text ?v4 0 0 ?v4 = Inr (length (dec (unat a)), v)"
    using hex_group_dec [OF unat_u8_le, of ?text ?v4 a rest] v4 by auto
  obtain e q where e: "dec (unat a) = e # q" "is_ascii_digit e"
    by (rule dec_head)
  then have "e \<noteq> CHR '':''" by auto
  with e obtain r where head: "?v4 = e # r" "e \<noteq> CHR '':''"
    using v4 by simp
  have "hex 65535 = ''ffff''"
    by code_simp
  moreover have ff: "seg_octets [65535] = [255, 255]"
    by simp
  ultimately have "v6_loop ?text [] (Some 0) (''ffff:'' @ ?v4) =
      v6_loop ?text [255, 255] (Some 0) ?v4"
    using v6_step_colon [of 65535 "[]" e ?text "Some 0" r] head ff by (simp del: seg_octets.simps)
  also have "\<dots> = Inr ([255, 255, a, b, c, d], Some 0, [])"
    using group ipv4_fields_display [of ?text a b c d] v4
    by (simp add: v6_loop.simps [of _ "[255, 255]"])
  finally show ?thesis
    using zone strip by (simp add: ipv6_address_def)
qed

lemma length_4_cases: "length xs = 4 \<Longrightarrow> \<exists>a b c d. xs = [a, b, c, d]"
  by (auto simp: length_Suc_conv eval_nat_numeral)

lemma ipv6_address_display:
  assumes "length os = 16"
  shows "ipv6_address (ipv6_display os) = Inr (V6 os, None)"
proof (cases "to_ipv4_mapped os")
  case (Some v4)
  then have take: "take 12 os = replicate 10 0 @ [255, 255]" and drop: "drop 12 os = v4"
    by (auto simp: to_ipv4_mapped_def split: if_splits)
  have os: "os = (replicate 10 0 @ [255, 255]) @ v4"
    by (subst take [symmetric], subst drop [symmetric]) (rule append_take_drop_id [symmetric])
  have "length v4 = 4" using assms by (simp add: drop [symmetric])
  then obtain a b c d where "v4 = [a, b, c, d]" by (auto dest: length_4_cases)
  with Some os show ?thesis
    by (simp add: ipv6_display_def ipv6_address_mapped [simplified])
next
  case None
  let ?ss = "segments os"
  have ss: "length ?ss = 8" "\<forall>s \<in> set ?ss. s < 65536" "seg_octets ?ss = os"
    using assms by (auto simp: length_segments segments_bound seg_octets_segments)
  obtain start len where span: "zero_span ?ss 0 (0, 0) (0, 0) = (start, len)" by fastforce
  note split = zero_span_split [OF span]
  show ?thesis
  proof (cases "1 < len")
    case True
    have "ipv6_address (ipv6_display os) = Inr (V6 (seg_octets (take start ?ss) @
        replicate (2 * len) 0 @ seg_octets (drop (start + len) ?ss)), None)"
      using None span True split(2) ss
      by (subst ipv6_address_compressed [symmetric])
        (auto simp: ipv6_display_def Let_def dest: in_set_takeD in_set_dropD)
    also have "seg_octets (take start ?ss) @ replicate (2 * len) 0 @
        seg_octets (drop (start + len) ?ss) =
        seg_octets (take start ?ss @ replicate len 0 @ drop (start + len) ?ss)"
      by (simp only: seg_octets_append seg_octets_zeros)
    also have "\<dots> = seg_octets ?ss"
      by (rule arg_cong [OF split(1) [symmetric]])
    finally show ?thesis using ss(3) by simp
  next
    case False
    with None span ss show ?thesis
      by (simp add: ipv6_display_def ipv6_address_full)
  qed
qed

section \<open>Addresses and prefixes: every canonical text parses back\<close>

lemma parse_address_scan_skip:
  "\<forall>c \<in> set pre. c \<noteq> CHR ''.'' \<and> c \<noteq> CHR '':'' \<and> c \<noteq> CHR ''%'' \<Longrightarrow>
   parse_address_scan t (pre @ rest) = parse_address_scan t rest"
  by (induction pre) auto

lemma fmt_colon: "ss \<noteq> [] \<Longrightarrow> \<exists>rest. fmt_subslice ss @ CHR '':'' # r = hex (hd ss) @ CHR '':'' # rest"
  by (induction ss rule: induct_list012) auto

lemma ipv6_display_colon:
  assumes "length os = 16"
  shows "\<exists>pre rest. ipv6_display os = pre @ CHR '':'' # rest \<and> (pre = [] \<or> (\<exists>s. pre = hex s))"
proof (cases "to_ipv4_mapped os")
  case (Some v4)
  then show ?thesis
    by (auto simp: ipv6_display_def intro: exI [of _ "[]"])
next
  case None
  obtain start len where span: "zero_span (segments os) 0 (0, 0) (0, 0) = (start, len)" by fastforce
  show ?thesis
  proof (cases "1 < len")
    case True
    let ?ts = "fmt_subslice (drop (start + len) (segments os))"
    have disp: "ipv6_display os = fmt_subslice (take start (segments os)) @ CHR '':'' # CHR '':'' # ?ts"
      using None span True by (simp add: ipv6_display_def Let_def)
    show ?thesis
    proof (cases "take start (segments os) = []")
      case True
      with disp show ?thesis by (auto intro: exI [of _ "[]"])
    next
      case False
      with disp fmt_colon show ?thesis by metis
    qed
  next
    case False
    obtain s t ts where "segments os = s # t # ts"
      using assms length_segments [of os] by (cases "segments os"; cases "tl (segments os)") auto
    with None span False show ?thesis
      by (auto simp: ipv6_display_def)
  qed
qed

lemma address_text_V6: "address_text (V6 os) None = ipv6_display os"
  by (simp add: address_text_def ipv6_display_def split: option.splits)

lemma parse_address_text:
  assumes "wf_ip ip"
  shows "parse_address (address_text ip None) = Inr (ip, None)"
proof (cases ip)
  case (V4 os)
  with assms obtain a b c d where os: "os = [a, b, c, d]"
    by (auto dest: length_4_cases)
  have "ipv4_display os = dec (unat a) @ CHR ''.'' # join ''.'' [dec (unat b), dec (unat c), dec (unat d)]"
    by (simp add: os ipv4_display_def)
  moreover have "\<forall>x \<in> set (dec (unat a)). x \<noteq> CHR ''.'' \<and> x \<noteq> CHR '':'' \<and> x \<noteq> CHR ''%''"
    using special_not_in_dec by auto
  ultimately have "parse_address_scan t (ipv4_display os) =
      (case ipv4_fields t t of Inl e \<Rightarrow> Inl e | Inr bytes \<Rightarrow> Inr (V4 bytes, None))" for t
    by (simp add: parse_address_scan_skip)
  then show ?thesis
    using V4 os by (simp add: parse_address_def address_text_def ipv4_fields_display)
next
  case (V6 os)
  with assms have len: "length os = 16" by simp
  obtain pre rest where disp: "ipv6_display os = pre @ CHR '':'' # rest"
    and pre: "pre = [] \<or> (\<exists>s. pre = hex s)"
    using ipv6_display_colon [OF len] by auto
  have "\<forall>x \<in> set pre. x \<noteq> CHR ''.'' \<and> x \<noteq> CHR '':'' \<and> x \<noteq> CHR ''%''"
    using pre special_not_in_hex by auto
  then have "parse_address_scan t (ipv6_display os) = ipv6_address t" for t
    by (simp add: disp parse_address_scan_skip)
  with V6 len show ?thesis
    by (simp add: parse_address_def address_text_V6 ipv6_address_display)
qed

text \<open>What the parsers return is well formed.\<close>

lemma ipv4_fields_length: "ipv4_fields input t = Inr fs \<Longrightarrow> length fs = 4"
  using ipv4_fields_sound by blast

lemma v6_loop_length:
  assumes "v6_loop input acc ell t = Inr (acc', ell', t')" "even (length acc)" "length acc \<le> 16"
  shows "length acc' \<le> 16"
  using assms
proof (induction input acc ell t rule: v6_loop.induct)
  case (1 input acc ell t)
  show ?case
  proof (cases "16 \<le> length acc")
    case True
    with 1 show ?thesis by (simp add: v6_loop.simps [of _ acc])
  next
    case False
    with 1(4) have le: "length acc + 2 \<le> 16" by presburger
    obtain off v where hg: "hex_group input t 0 0 t = Inr (off, v)" "off \<noteq> 0"
      using 1(3) False by (auto simp: v6_loop.simps [of _ acc] split: sum.splits if_splits)
    note IH = 1(1) [OF False hg(1) refl hg(2) refl] 1(2) [OF False hg(1) refl hg(2) refl]
    note run = 1(3) [unfolded v6_loop.simps [of input acc]]
    show ?thesis
    proof (cases "drop off t")
      case Nil
      with run False hg le show ?thesis by (auto simp: Let_def)
    next
      case (Cons c more)
      show ?thesis
      proof (cases "c = CHR ''.''")
        case True
        with run False hg Cons show ?thesis
          by (auto simp: Let_def dest: ipv4_fields_length split: if_splits sum.splits)
      next
        case dot: False
        with run False hg Cons obtain d after where more: "c = CHR '':''" "more = d # after"
          by (auto simp: Let_def split: if_splits list.splits)
        show ?thesis
          using run False hg Cons dot more IH [OF Cons] le 1(4)
          by (cases "d = CHR '':''") (auto simp: Let_def split: if_splits)
      qed
    qed
  qed
qed

lemma ipv6_address_wf: "ipv6_address t = Inr (ip, zone) \<Longrightarrow> wf_ip ip \<and> \<not> is_ipv4 ip"
  using v6_loop_length [where acc = "[]"]
  by (force simp: ipv6_address_def Let_def split: option.splits sum.splits if_splits prod.splits)

lemma parse_address_scan_wf: "parse_address_scan t bs = Inr (ip, zone) \<Longrightarrow> wf_ip ip"
proof (induction bs)
  case (Cons b bs)
  then show ?case
    by (auto dest: ipv4_fields_length ipv6_address_wf split: sum.splits if_splits)
qed simp

lemma parse_address_wf: "parse_address t = Inr (ip, zone) \<Longrightarrow> wf_ip ip"
  by (simp add: parse_address_def parse_address_scan_wf)

definition wf_prefix :: "ip_addr \<times> nat \<Rightarrow> bool" where
  "wf_prefix p = (wf_ip (fst p) \<and> snd p \<le> (if is_ipv4 (fst p) then 32 else 128))"

lemma parse_prefix_wf: "parse_prefix t = Inr p \<Longrightarrow> wf_prefix p"
  by (cases p)
    (auto simp: parse_prefix_def wf_prefix_def dest: parse_address_wf
      split: option.splits sum.splits if_splits prod.splits)

lemma dec_bits_hd:
  assumes "n \<le> 128" "1 < length (dec n)"
  shows "49 \<le> byte (hd (dec n)) \<and> byte (hd (dec n)) \<le> 57"
proof -
  have "10 \<le> n" using assms(2) by (cases "n < 10") (auto simp: dec_small)
  with assms(1) show ?thesis
    by (auto simp: dec_lt_1000 byte_digit_char div_less_iff_less_mult)
qed

lemma parse_prefix_display:
  assumes "wf_prefix p"
  shows "parse_prefix (prefix_display p) = Inr p"
proof -
  obtain ip n where p: "p = (ip, n)" by (cases p)
  have "CHR ''/'' \<notin> set (dec n)" by (rule special_not_in_dec) simp
  then have split: "rsplit_once (prefix_display p) (CHR ''/'') = Some (address_text ip None, dec n)"
    by (simp add: p prefix_display_def rsplit_once_append)
  have n: "n \<le> 128" "n \<le> (if is_ipv4 ip then 32 else 128)"
    using assms p by (auto simp: wf_prefix_def split: if_splits)
  then have "parse_i64 (dec n) = Some (int n)" by (intro parse_i64_dec) simp
  then show ?thesis
    using assms p n split dec_bits_hd [OF n(1)]
    by (auto simp: parse_prefix_def wf_prefix_def parse_address_text)
qed

section \<open>The order of prefixes\<close>

lemma cmp_prod: "cmp (a, b) (c, d) = then_with (cmp a c) (cmp b d)"
  by (auto simp: cmp_def less_prod_def)

text \<open>\<open>Prefix.Compare\<close> is the lexicographic order of this key.\<close>

fun prefix_key :: "(ip_addr \<times> nat) option \<Rightarrow> nat \<times> u8 list \<times> nat \<times> u8 list" where
  "prefix_key None = (0, [], 0, [])"
| "prefix_key (Some (V4 os, n)) = (1, masked os n, n, os)"
| "prefix_key (Some (V6 os, n)) = (2, masked os n, n, os)"

lemma compare_parts_key: "compare_parts p q = cmp (prefix_key p) (prefix_key q)"
  by (cases p rule: prefix_key.cases; cases q rule: prefix_key.cases)
    (auto simp: compare_address_def cmp_def less_prod_def)

lemma prefix_key_inject: "prefix_key p = prefix_key q \<longleftrightarrow> p = q"
  by (cases p rule: prefix_key.cases; cases q rule: prefix_key.cases) auto

definition canonical :: "string \<Rightarrow> bool" where
  "canonical t = (t = [] \<or> (\<exists>p. wf_prefix p \<and> t = prefix_display p))"

lemma canonical_Nil [simp]: "canonical []"
  by (simp add: canonical_def)

fun canonical_parts :: "string \<Rightarrow> (ip_addr \<times> nat) option" where
  "canonical_parts t = (if t = [] then None else prefix_parts t)"

lemma prefix_display_nonempty [simp]: "prefix_display p \<noteq> []"
  by (simp add: prefix_display_def)

lemma canonical_parts_display: "wf_prefix p \<Longrightarrow> canonical_parts (prefix_display p) = Some p"
  by (simp add: prefix_parts_def parse_prefix_display)

lemma canonical_parts_inject:
  "canonical s \<Longrightarrow> canonical t \<Longrightarrow> canonical_parts s = canonical_parts t \<longleftrightarrow> s = t"
  using canonical_parts_display unfolding canonical_def by force

lemma prefix_compare_canonical:
  assumes "canonical s" "canonical t"
  shows "prefix_compare s t = Some (cmp (prefix_key (canonical_parts s)) (prefix_key (canonical_parts t)))"
  using assms
  by (auto simp: canonical_def prefix_compare_def prefix_parts_def parse_prefix_display
      compare_parts_key)

lemma parse_prefix_text_canonical: "parse_prefix_text t = Inr s \<Longrightarrow> canonical s \<and> s \<noteq> []"
  by (auto simp: parse_prefix_text_def canonical_def dest: parse_prefix_wf split: sum.splits)

lemma prefix_text_canonical: "prefix_text t = Some s \<Longrightarrow> canonical s"
  by (cases "parse_prefix_text t")
    (auto simp: prefix_text_def dest: parse_prefix_text_canonical split: if_splits)

lemma parse_prefix_text_canonical_id: "canonical t \<Longrightarrow> t \<noteq> [] \<Longrightarrow> parse_prefix_text t = Inr t"
  by (auto simp: canonical_def parse_prefix_text_def parse_prefix_display)

lemma prefix_text_canonical_id: "canonical t \<Longrightarrow> prefix_text t = Some t"
  by (auto simp: prefix_text_def parse_prefix_text_canonical_id)

section \<open>Masking\<close>

definition addr_bit :: "u8 list \<Rightarrow> nat \<Rightarrow> bool" where
  "addr_bit os i = bit (os ! (i div 8)) (7 - i mod 8)"

lemma length_masked_loop [simp]: "length (masked_loop r os) = length os"
  by (induction r os rule: masked_loop.induct) auto

lemma masked_loop_nth:
  "j < length os \<Longrightarrow> k < 8 \<Longrightarrow>
   bit (masked_loop r os ! j) (7 - k) \<longleftrightarrow> 8 * j + k < r \<and> bit (os ! j) (7 - k)"
proof (induction r os arbitrary: j rule: masked_loop.induct)
  case (2 r b bs)
  show ?case
  proof (cases j)
    case 0
    with 2(4) show ?thesis
      by (auto simp: bit_simps)
  next
    case (Suc i)
    with 2 show ?thesis by auto
  qed
qed simp

section \<open>Properties\<close>

text \<open>C31. The IPv4 parser accepts a text exactly when it is the dotted decimal form of four
  octets, with no leading zeros, and returns those octets.\<close>

theorem ipv4_parser_exact:
  "ipv4_fields input t = Inr fs \<longleftrightarrow> length fs = 4 \<and> t = ipv4_display fs"
  using ipv4_fields_sound ipv4_fields_display by (metis length_4_cases)

text \<open>C17. The canonical text of every well-formed prefix, IPv4, IPv6, compressed or IPv4-mapped,
  parses back to that prefix.\<close>

theorem prefix_round_trip:
  "wf_prefix p \<Longrightarrow> parse_prefix (prefix_display p) = Inr p"
  by (rule parse_prefix_display)

theorem prefix_round_trip_witness:
  "wf_prefix (V6 ([32, 1, 13, 184] @ replicate 11 0 @ [1]), 64) \<and>
   parse_prefix (prefix_display (V6 ([32, 1, 13, 184] @ replicate 11 0 @ [1]), 64)) =
     Inr (V6 ([32, 1, 13, 184] @ replicate 11 0 @ [1]), 64)"
proof -
  have wf: "wf_prefix (V6 ([32, 1, 13, 184] @ replicate 11 0 @ [1]), 64)"
    by (simp add: wf_prefix_def)
  from wf prefix_round_trip [OF wf] show ?thesis by blast
qed

text \<open>Normalising prefix text is idempotent: what \<open>parse_prefix_text\<close> returns is
  accepted again and returned unchanged, and it denotes the same prefix as the input.\<close>

theorem prefix_text_idempotent:
  assumes "parse_prefix_text t = Inr s"
  shows "parse_prefix_text s = Inr s \<and> parse_prefix s = parse_prefix t"
proof -
  from assms obtain p where p: "parse_prefix t = Inr p" "s = prefix_display p"
    by (auto simp: parse_prefix_text_def split: sum.splits)
  then have "parse_prefix s = Inr p"
    by (simp add: parse_prefix_display parse_prefix_wf)
  with p show ?thesis by (simp add: parse_prefix_text_def)
qed

theorem prefix_text_idempotent_witness:
  "parse_prefix_text ''2001:0db8:0:0::1/64'' = Inr ''2001:db8::1/64'' \<and>
   parse_prefix_text ''2001:db8::1/64'' = Inr ''2001:db8::1/64''"
proof -
  have ok: "parse_prefix_text ''2001:0db8:0:0::1/64'' = Inr ''2001:db8::1/64''"
    by code_simp
  from ok prefix_text_idempotent [OF ok] show ?thesis by blast
qed

text \<open>On canonical texts the prefix comparison is a strict total order: it always answers,
  swapping the arguments reverses the answer, only equal texts compare equal, and it is
  transitive.\<close>

theorem prefix_compare_total_order:
  assumes "canonical a" "canonical b" "canonical c"
  shows "(\<exists>r. prefix_compare a b = Some r \<and> prefix_compare b a = Some (reverse_ordering r) \<and>
      (r = Equal \<longleftrightarrow> a = b)) \<and>
    (prefix_compare a b = Some Less \<longrightarrow> prefix_compare b c = Some Less \<longrightarrow>
      prefix_compare a c = Some Less)"
  using assms linorder_cmp.c_flip
  by (auto simp: prefix_compare_canonical prefix_key_inject canonical_parts_inject
      simp del: canonical_parts.simps)

theorem prefix_compare_total_order_witness:
  "prefix_compare ''9.0.0.0/8'' ''10.0.0.0/8'' = Some Less \<and>
   prefix_compare ''10.0.0.0/8'' ''::/0'' = Some Less \<and>
   prefix_compare ''9.0.0.0/8'' ''::/0'' = Some Less"
proof -
  have "parse_prefix_text ''9.0.0.0/8'' = Inr ''9.0.0.0/8''"
    "parse_prefix_text ''10.0.0.0/8'' = Inr ''10.0.0.0/8''"
    "parse_prefix_text ''::/0'' = Inr ''::/0''"
    by code_simp+
  then have can: "canonical ''9.0.0.0/8''" "canonical ''10.0.0.0/8''" "canonical ''::/0''"
    by (auto dest: parse_prefix_text_canonical)
  have less: "prefix_compare ''9.0.0.0/8'' ''10.0.0.0/8'' = Some Less"
    "prefix_compare ''10.0.0.0/8'' ''::/0'' = Some Less"
    by code_simp+
  with prefix_compare_total_order [OF can] show ?thesis by blast
qed

text \<open>Masking an address to \<open>bits\<close> keeps exactly its first \<open>bits\<close> bits, counted from the
  most significant, and clears the others.\<close>

theorem masked_bits:
  assumes "i < 8 * length os"
  shows "addr_bit (masked os n) i \<longleftrightarrow> i < n \<and> addr_bit os i"
proof -
  have "i div 8 < length os" "8 * (i div 8) + i mod 8 = i"
    using assms by (simp_all add: div_less_iff_less_mult mult.commute)
  then show ?thesis
    using masked_loop_nth [of "i div 8" os "i mod 8" n] by (simp add: addr_bit_def masked_def)
qed

theorem masked_bits_witness:
  "(10 :: nat) < 8 * length [172, 31, 0, 1 :: u8] \<and>
   (addr_bit (masked [172, 31, 0, 1] 12) 10 \<longleftrightarrow> (10 :: nat) < 12 \<and> addr_bit [172, 31, 0, 1] 10)"
proof -
  have i: "(10 :: nat) < 8 * length [172, 31, 0, 1 :: u8]" by simp
  from i masked_bits [OF i, of 12] show ?thesis by blast
qed

end
