(* ===== verification/Btree.thy ===== *)
theory Btree
  imports Prelude
begin

text \<open>
  \<open>std::collections::BTreeMap\<close> and \<open>BTreeSet\<close>, as the sources use them: a map is the list
  of its entries in increasing key order, a set the increasing list of its elements. Iteration
  is the list itself. The laws the clients rely on are the locale \<open>ordered_map\<close>; the
  interpretation at the end discharges them for the entry lists.
\<close>

type_synonym ('k, 'v) btree_map = "('k \<times> 'v) list"
type_synonym 'k btree_set = "'k list"

section \<open>Operations\<close>

definition bt_get :: "('k, 'v) btree_map \<Rightarrow> 'k \<Rightarrow> 'v option" where
  "bt_get m k = map_of m k"

fun bt_insert :: "'k::linorder \<Rightarrow> 'v \<Rightarrow> ('k, 'v) btree_map \<Rightarrow> ('k, 'v) btree_map" where
  "bt_insert k v [] = [(k, v)]"
| "bt_insert k v ((a, b) # m) =
     (if k < a then (k, v) # (a, b) # m
      else if k = a then (k, v) # m
      else (a, b) # bt_insert k v m)"

definition bt_remove :: "'k \<Rightarrow> ('k, 'v) btree_map \<Rightarrow> ('k, 'v) btree_map" where
  "bt_remove k m = filter (\<lambda>e. fst e \<noteq> k) m"

definition bt_keys :: "('k, 'v) btree_map \<Rightarrow> 'k list" where
  "bt_keys m = map fst m"

definition bt_wf :: "('k::linorder, 'v) btree_map \<Rightarrow> bool" where
  "bt_wf m = sorted_wrt (<) (map fst m)"

fun bs_insert :: "'k::linorder \<Rightarrow> 'k btree_set \<Rightarrow> 'k btree_set" where
  "bs_insert k [] = [k]"
| "bs_insert k (a # s) =
     (if k < a then k # a # s else if k = a then a # s else a # bs_insert k s)"

definition bs_remove :: "'k \<Rightarrow> 'k btree_set \<Rightarrow> 'k btree_set" where
  "bs_remove k s = filter (\<lambda>a. a \<noteq> k) s"

definition bs_wf :: "'k::linorder btree_set \<Rightarrow> bool" where
  "bs_wf s = sorted_wrt (<) s"

section \<open>The contract of an ordered map\<close>

locale ordered_map =
  fixes empty :: 'm
    and get :: "'m \<Rightarrow> 'k::linorder \<Rightarrow> 'v option"
    and put :: "'k \<Rightarrow> 'v \<Rightarrow> 'm \<Rightarrow> 'm"
    and drop_key :: "'k \<Rightarrow> 'm \<Rightarrow> 'm"
    and entries :: "'m \<Rightarrow> ('k \<times> 'v) list"
    and wf :: "'m \<Rightarrow> bool"
  assumes wf_empty: "wf empty"
    and get_empty: "get empty k = None"
    and get_put: "get (put k v m) j = (if j = k then Some v else get m j)"
    and get_drop_key: "get (drop_key k m) j = (if j = k then None else get m j)"
    and wf_put: "wf m \<Longrightarrow> wf (put k v m)"
    and wf_drop_key: "wf m \<Longrightarrow> wf (drop_key k m)"
    and entries_get: "wf m \<Longrightarrow> (k, v) \<in> set (entries m) \<longleftrightarrow> get m k = Some v"
    and entries_sorted: "wf m \<Longrightarrow> sorted_wrt (<) (map fst (entries m))"
begin

text \<open>Collecting a list of pairs into a map: the last pair of a key wins.\<close>

definition collect_pairs :: "('k \<times> 'v) list \<Rightarrow> 'm" where
  "collect_pairs ps = fold (\<lambda>(k, v) m. put k v m) ps empty"

lemma wf_collect_fold: "wf m \<Longrightarrow> wf (fold (\<lambda>(k, v) m. put k v m) ps m)"
  by (induction ps arbitrary: m) (auto simp: wf_put)

lemma get_collect_fold:
  "get (fold (\<lambda>(k, v) m. put k v m) ps m) k =
     (case map_of (rev ps) k of None \<Rightarrow> get m k | Some v \<Rightarrow> Some v)"
  by (induction ps arbitrary: m)
    (auto simp: get_put map_add_def split: option.splits)

lemma wf_collect: "wf (collect_pairs ps)"
  by (simp add: collect_pairs_def wf_collect_fold wf_empty)

lemma get_collect: "get (collect_pairs ps) k = map_of (rev ps) k"
  by (simp add: collect_pairs_def get_collect_fold get_empty split: option.splits)

text \<open>Two maps that answer every lookup alike have the same entries.\<close>

lemma entries_eqI:
  assumes "wf m" "wf n" "\<And>k. get m k = get n k"
  shows "entries m = entries n"
proof -
  have keys: "map fst (entries m) = map fst (entries n)"
  proof (rule linorder_cmp.sorted_distinct_unique)
    have "fst ` set (entries m) = fst ` set (entries n)"
      using assms entries_get by force
    then show "set (map fst (entries n)) = set (map fst (entries m))"
      by simp
  qed (simp_all add: entries_sorted assms)
  have set_eq: "set (entries m) = set (entries n)"
    using assms entries_get by auto
  have inj: "inj_on fst (set (entries n))"
    using entries_sorted [OF assms(2)]
    by (auto simp: inj_on_def entries_get [OF assms(2)])
  show ?thesis
  proof (rule nth_equalityI)
    show len: "length (entries m) = length (entries n)"
      using keys by (metis length_map)
    fix i assume i: "i < length (entries m)"
    then have "fst (entries m ! i) = fst (entries n ! i)"
      using keys len by (metis nth_map)
    with inj set_eq i len show "entries m ! i = entries n ! i"
      by (metis inj_onD nth_mem)
  qed
qed

end

section \<open>Entry lists are ordered maps\<close>

lemma bt_get_Nil [simp]: "bt_get [] k = None"
  by (simp add: bt_get_def)

lemma bt_get_Cons [simp]: "bt_get ((a, b) # m) k = (if k = a then Some b else bt_get m k)"
  by (simp add: bt_get_def)

lemma bt_get_insert [simp]: "bt_get (bt_insert k v m) j = (if j = k then Some v else bt_get m j)"
  by (induction k v m rule: bt_insert.induct) auto

lemma bt_get_remove [simp]: "bt_get (bt_remove k m) j = (if j = k then None else bt_get m j)"
  by (induction m) (auto simp: bt_remove_def)

lemma keys_bt_insert: "set (map fst (bt_insert k v m)) = insert k (set (map fst m))"
  by (induction k v m rule: bt_insert.induct) auto

lemma bt_wf_Nil [simp]: "bt_wf []"
  by (simp add: bt_wf_def)

lemma bt_wf_insert [intro, simp]: "bt_wf m \<Longrightarrow> bt_wf (bt_insert k v m)"
proof (induction k v m rule: bt_insert.induct)
  case (2 k v a b m)
  then show ?case
    using keys_bt_insert [of k v m] by (auto simp: bt_wf_def)
qed (simp add: bt_wf_def)

lemma bt_wf_filter [simp]: "bt_wf m \<Longrightarrow> bt_wf (filter P m)"
proof (induction m)
  case (Cons e m)
  then show ?case
    by (auto simp: bt_wf_def)
qed simp

lemma bt_wf_remove [intro, simp]: "bt_wf m \<Longrightarrow> bt_wf (bt_remove k m)"
  by (simp add: bt_remove_def)

lemma bt_wf_distinct: "bt_wf m \<Longrightarrow> distinct (map fst m)"
  by (auto simp: bt_wf_def strict_sorted_iff)

lemma bt_get_iff: "bt_wf m \<Longrightarrow> bt_get m k = Some v \<longleftrightarrow> (k, v) \<in> set m"
  by (simp add: bt_get_def bt_wf_distinct map_of_eq_Some_iff)

lemma bt_get_dom: "bt_get m k \<noteq> None \<longleftrightarrow> k \<in> set (bt_keys m)"
  by (auto simp: bt_get_def bt_keys_def map_of_eq_None_iff)

interpretation bt: ordered_map "[]" bt_get bt_insert bt_remove "\<lambda>m. m" bt_wf
proof unfold_locales
  fix k :: "'k::linorder" and v :: 'v and m
  show "bt_wf m \<Longrightarrow> (k, v) \<in> set m \<longleftrightarrow> bt_get m k = Some v"
    by (simp add: bt_get_iff)
  show "bt_wf m \<Longrightarrow> sorted_wrt (<) (map fst m)"
    by (simp add: bt_wf_def)
qed simp_all

lemmas bt_eqI = bt.entries_eqI

section \<open>Element lists are sets\<close>

lemma set_bs_insert [simp]: "set (bs_insert k s) = insert k (set s)"
  by (induction k s rule: bs_insert.induct) auto

lemma set_bs_remove [simp]: "set (bs_remove k s) = set s - {k}"
  by (auto simp: bs_remove_def)

lemma bs_wf_Nil [simp]: "bs_wf []"
  by (simp add: bs_wf_def)

lemma bs_wf_insert [simp]: "bs_wf s \<Longrightarrow> bs_wf (bs_insert k s)"
  by (induction k s rule: bs_insert.induct) (auto simp: bs_wf_def)

lemma bs_wf_filter [simp]: "bs_wf s \<Longrightarrow> bs_wf (filter P s)"
  by (simp add: bs_wf_def sorted_wrt_filter)

lemma bs_wf_remove [simp]: "bs_wf s \<Longrightarrow> bs_wf (bs_remove k s)"
  by (simp add: bs_remove_def)

lemma bs_wf_distinct: "bs_wf s \<Longrightarrow> distinct s"
  by (simp add: bs_wf_def strict_sorted_iff)

lemma bs_eqI: "bs_wf s \<Longrightarrow> bs_wf t \<Longrightarrow> set s = set t \<Longrightarrow> s = t"
  by (simp add: bs_wf_def strict_sorted_equal)

lemma bs_insert_id: "bs_wf s \<Longrightarrow> k \<in> set s \<Longrightarrow> bs_insert k s = s"
  by (rule bs_eqI) auto

lemma bs_remove_id: "k \<notin> set s \<Longrightarrow> bs_remove k s = s"
  by (auto simp: bs_remove_def filter_id_conv)

end
