(* ===== verification/Primary_Routes.thy ===== *)
theory Primary_Routes
  imports Netip Btree
begin

text \<open>
  Route normalisation, the sticky primary-route election and route auto-approval of
  \<open>headscale-api/src/tailscale_wire/routes.rs\<close>. The state \<open>PrimaryRouteState\<close> is a record of
  its three ordered collections; each method is one definition that returns the new state and the
  Boolean the method returns. The policy's \<open>RouteApprovalSnapshot::approves\<close> is a parameter of
  the auto-approval functions.
  The theorems: every recalculation is a per-route election that keeps a healthy incumbent and
  otherwise takes the healthy candidate with the least node id, the returned flag says exactly
  whether an assignment changed, and in every reachable state a primary advertises its route.
\<close>

section \<open>Normalisation\<close>

definition is_exit_route :: "string \<Rightarrow> bool" where
  "is_exit_route prefix = (prefix = ''0.0.0.0/0'' \<or> prefix = ''::/0'')"

definition route_compare :: "string \<Rightarrow> string \<Rightarrow> ordering" where
  "route_compare a b = (case prefix_compare a b of Some r \<Rightarrow> r | None \<Rightarrow> cmp a b)"

definition sort_routes :: "string list \<Rightarrow> string list" where
  "sort_routes routes = sort_by route_compare routes"

definition normalize_route_set :: "string list \<Rightarrow> bool \<Rightarrow> (prefix_error, string list) result" where
  "normalize_route_set routes expand_exit_routes =
     (case try_map parse_prefix_text routes of
        Inl e \<Rightarrow> Inl e
      | Inr prefixes \<Rightarrow>
          let out = concat (map (\<lambda>prefix.
              if expand_exit_routes \<and> is_exit_route prefix then [''0.0.0.0/0'', ''::/0'']
              else [prefix]) prefixes)
          in Inr (remdups_adj (sort_routes out)))"

definition normalize_routes :: "string list \<Rightarrow> (prefix_error, string list) result" where
  "normalize_routes routes = normalize_route_set routes True"

definition normalize_advertised_routes :: "string list \<Rightarrow> (prefix_error, string list) result" where
  "normalize_advertised_routes routes = normalize_route_set routes False"

definition normalize_primary_routes ::
  "string list \<Rightarrow> (prefix_error, string btree_set) result" where
  "normalize_primary_routes routes =
     (case try_map parse_prefix_text routes of
        Inl e \<Rightarrow> Inl e
      | Inr prefixes \<Rightarrow> Inr (fold bs_insert (filter (\<lambda>p. \<not> is_exit_route p) prefixes) []))"

definition is_exit_route_str :: "string \<Rightarrow> bool" where
  "is_exit_route_str route =
     (case parse_prefix_text route of Inl _ \<Rightarrow> False | Inr prefix \<Rightarrow> is_exit_route prefix)"

section \<open>The election state\<close>

type_synonym node_id = u64

record primary_route_state =
  pr_routes :: "(node_id, string btree_set) btree_map"
  pr_primaries :: "(string, node_id) btree_map"
  pr_unhealthy :: "node_id btree_set"

definition pr_new :: primary_route_state where
  "pr_new = \<lparr>pr_routes = [], pr_primaries = [], pr_unhealthy = []\<rparr>"

definition push_candidate ::
  "node_id \<Rightarrow> string \<Rightarrow> (string, node_id list) btree_map \<Rightarrow> (string, node_id list) btree_map" where
  "push_candidate node route m =
     bt_insert route ((case bt_get m route of None \<Rightarrow> [] | Some ns \<Rightarrow> ns) @ [node]) m"

definition available_by_route ::
  "(node_id, string btree_set) btree_map \<Rightarrow> (string, node_id list) btree_map" where
  "available_by_route routes =
     fold (\<lambda>(node, rs) m. fold (push_candidate node) rs m) routes []"

fun update_route ::
  "node_id btree_set \<Rightarrow> string \<times> node_id list \<Rightarrow> (string, node_id) btree_map \<times> bool \<Rightarrow>
   (string, node_id) btree_map \<times> bool" where
  "update_route unhealthy (route, nodes) (primaries, changed) =
     (if (case bt_get primaries route of
            Some current \<Rightarrow> current \<in> set nodes \<and>
              (current \<notin> set unhealthy \<or> (\<forall>n \<in> set nodes. n \<in> set unhealthy))
          | None \<Rightarrow> False)
      then (primaries, changed)
      else
        let new_primary =
          (case find (\<lambda>n. n \<notin> set unhealthy) nodes of
             Some n \<Rightarrow> Some n
           | None \<Rightarrow> (case bt_get primaries route of
                Some current \<Rightarrow> if current \<in> set nodes then Some current else None
              | None \<Rightarrow> None))
        in (case new_primary of
              Some n \<Rightarrow> (bt_insert route n primaries, True)
            | None \<Rightarrow>
                if bt_get primaries route \<noteq> None then (bt_remove route primaries, True)
                else (primaries, changed)))"

definition remove_stale ::
  "(string, node_id list) btree_map \<Rightarrow> (string, node_id) btree_map \<times> bool \<Rightarrow>
   (string, node_id) btree_map \<times> bool" where
  "remove_stale available pc =
     fold (\<lambda>route (primaries, changed). (bt_remove route primaries, True))
       (filter (\<lambda>route. bt_get available route = None) (bt_keys (fst pc))) pc"

definition update_primary_locked :: "primary_route_state \<Rightarrow> primary_route_state \<times> bool" where
  "update_primary_locked st =
     (let available = available_by_route (pr_routes st);
          pc = fold (update_route (pr_unhealthy st)) available (pr_primaries st, False);
          (primaries, changed) = remove_stale available pc
      in (st\<lparr>pr_primaries := primaries\<rparr>, changed))"

section \<open>Operations\<close>

definition set_routes ::
  "node_id \<Rightarrow> string list \<Rightarrow> primary_route_state \<Rightarrow>
   (prefix_error, primary_route_state \<times> bool) result" where
  "set_routes node_id routes st =
     (case normalize_primary_routes routes of
        Inl e \<Rightarrow> Inl e
      | Inr rs \<Rightarrow>
          let st' = (if rs = []
            then st\<lparr>pr_routes := bt_remove node_id (pr_routes st),
                    pr_unhealthy := bs_remove node_id (pr_unhealthy st)\<rparr>
            else st\<lparr>pr_routes := bt_insert node_id rs (pr_routes st)\<rparr>)
          in Inr (update_primary_locked st'))"

fun collect_routes ::
  "(node_id, string btree_set) btree_map \<Rightarrow> (node_id \<times> string list) list \<Rightarrow>
   (prefix_error, (node_id, string btree_set) btree_map) result" where
  "collect_routes acc [] = Inr acc"
| "collect_routes acc ((node_id, node_routes) # nodes) =
     (case normalize_primary_routes node_routes of
        Inl e \<Rightarrow> Inl e
      | Inr normalized \<Rightarrow>
          collect_routes (if normalized = [] then acc else bt_insert node_id normalized acc) nodes)"

definition sync_routes ::
  "(node_id \<times> string list) list \<Rightarrow> primary_route_state \<Rightarrow>
   (prefix_error, primary_route_state \<times> bool) result" where
  "sync_routes nodes st =
     (case collect_routes [] nodes of
        Inl e \<Rightarrow> Inl e
      | Inr routes \<Rightarrow>
          Inr (update_primary_locked
            (st\<lparr>pr_routes := routes,
                pr_unhealthy := filter (\<lambda>n. bt_get routes n \<noteq> None) (pr_unhealthy st)\<rparr>)))"

definition primary_routes :: "primary_route_state \<Rightarrow> node_id \<Rightarrow> string list" where
  "primary_routes st node_id =
     sort_routes (map fst (filter (\<lambda>(route, primary). primary = node_id) (pr_primaries st)))"

definition primary_route_for :: "primary_route_state \<Rightarrow> string \<Rightarrow> node_id option" where
  "primary_route_for st route =
     (case normalize_primary_routes [route] of
        Inr (r # _) \<Rightarrow> bt_get (pr_primaries st) r
      | _ \<Rightarrow> None)"

record debug_routes_t =
  dr_available_routes :: "(node_id \<times> string list) list"
  dr_primary_routes :: "(string, node_id) btree_map"

definition debug_routes :: "primary_route_state \<Rightarrow> debug_routes_t" where
  "debug_routes st =
     \<lparr>dr_available_routes = map (\<lambda>(node, rs). (node, sort_routes rs)) (pr_routes st),
      dr_primary_routes = pr_primaries st\<rparr>"

definition flip_health :: "node_id \<Rightarrow> bool \<Rightarrow> node_id btree_set \<Rightarrow> node_id btree_set \<times> bool" where
  "flip_health node_id healthy unhealthy =
     (if healthy then (bs_remove node_id unhealthy, node_id \<in> set unhealthy)
      else (bs_insert node_id unhealthy, node_id \<notin> set unhealthy))"

definition set_node_health ::
  "node_id \<Rightarrow> bool \<Rightarrow> primary_route_state \<Rightarrow> primary_route_state \<times> bool" where
  "set_node_health node_id healthy st =
     (let (unhealthy, health_changed) = flip_health node_id healthy (pr_unhealthy st);
          st' = st\<lparr>pr_unhealthy := unhealthy\<rparr>
      in if \<not> health_changed then (st', False) else update_primary_locked st')"

definition set_node_health_batch ::
  "(node_id \<times> bool) list \<Rightarrow> primary_route_state \<Rightarrow> primary_route_state \<times> bool" where
  "set_node_health_batch updates st =
     (let (unhealthy, health_changed) =
        fold (\<lambda>(node_id, healthy) (u, changed).
            let (u', c) = flip_health node_id healthy u in (u', changed \<or> c))
          updates (pr_unhealthy st, False);
          st' = st\<lparr>pr_unhealthy := unhealthy\<rparr>
      in if \<not> health_changed then (st', False) else update_primary_locked st')"

definition clear_unhealthy :: "node_id \<Rightarrow> primary_route_state \<Rightarrow> primary_route_state" where
  "clear_unhealthy node_id st = st\<lparr>pr_unhealthy := bs_remove node_id (pr_unhealthy st)\<rparr>"

definition is_node_healthy :: "primary_route_state \<Rightarrow> node_id \<Rightarrow> bool" where
  "is_node_healthy st node_id = (node_id \<notin> set (pr_unhealthy st))"

definition has_routes :: "primary_route_state \<Rightarrow> node_id \<Rightarrow> bool" where
  "has_routes st node_id =
     (case bt_get (pr_routes st) node_id of None \<Rightarrow> False | Some rs \<Rightarrow> rs \<noteq> [])"

definition debug_string :: "primary_route_state \<Rightarrow> string" where
  "debug_string st =
     concat (map (\<lambda>route. case bt_get (pr_primaries st) route of
         Some node \<Rightarrow> route @ '': '' @ dec (unat node) @ [CHR 0x0A]
       | None \<Rightarrow> [])
       (sort_routes (bt_keys (pr_primaries st))))"

section \<open>Approved routes\<close>

definition active_approved_routes :: "string list \<Rightarrow> string list \<Rightarrow> string list" where
  "active_approved_routes available approved =
     (let approved_set = filter_map (\<lambda>r. ok (parse_prefix_text r)) approved
      in filter (\<lambda>r. r \<in> set approved_set) (filter_map (\<lambda>r. ok (parse_prefix_text r)) available))"

definition active_exit_routes :: "string list \<Rightarrow> string list \<Rightarrow> string list" where
  "active_exit_routes available approved =
     filter is_exit_route_str (active_approved_routes available approved)"

definition active_primary_routes :: "string list \<Rightarrow> string list \<Rightarrow> string list" where
  "active_primary_routes available approved =
     filter (\<lambda>r. \<not> is_exit_route_str r) (active_approved_routes available approved)"

text \<open>The node as the policy sees it, and the policy's answer for a route (with the flag for an
  exit route), which is a parameter.\<close>

record node_view =
  nv_user_id :: "u64 option"
  nv_addr :: "string option"
  nv_addrs :: "string list"
  nv_user :: "string option"
  nv_tags :: "string list"

type_synonym approver = "node_view \<Rightarrow> string \<Rightarrow> bool \<Rightarrow> bool"

datatype approval_error = InvalidRoutePrefixText

definition typed_prefixes :: "string list \<Rightarrow> (approval_error, string list) result" where
  "typed_prefixes values =
     try_map (\<lambda>v. case prefix_text v of Some p \<Rightarrow> Inr p | None \<Rightarrow> Inl InvalidRoutePrefixText) values"

definition auto_approved_routes_with_snapshot ::
  "approver \<Rightarrow> string list \<Rightarrow> string option \<Rightarrow> u64 option \<Rightarrow> string list \<Rightarrow> string list \<Rightarrow>
   string list \<Rightarrow> (approval_error, string list) result" where
  "auto_approved_routes_with_snapshot approves addresses user user_id tags current_approved
     announced_routes =
     (case typed_prefixes current_approved of
        Inl e \<Rightarrow> Inl e
      | Inr approved \<Rightarrow>
          (case typed_prefixes announced_routes of
             Inl e \<Rightarrow> Inl e
           | Inr announced \<Rightarrow>
               let view = \<lparr>nv_user_id = user_id,
                    nv_addr = (case addresses of [] \<Rightarrow> None | a # _ \<Rightarrow> Some a),
                    nv_addrs = addresses, nv_user = user, nv_tags = tags\<rparr>;
                 approved' = fold (\<lambda>route approved.
                    if route = [] \<or> route \<in> set approved then approved
                    else if addresses \<noteq> [] \<and> approves view route (is_exit_route_str route)
                    then approved @ [route] else approved) announced approved
               in Inr (filter (\<lambda>r. r \<noteq> []) (remdups_adj (sort_routes approved')))))"

definition auto_approval_changed ::
  "string list \<Rightarrow> string list \<Rightarrow> (approval_error, bool) result" where
  "auto_approval_changed current approved =
     (case typed_prefixes current of
        Inl e \<Rightarrow> Inl e
      | Inr c \<Rightarrow> Inr (sort_routes c \<noteq> approved))"

definition auto_approved_routes_for_node ::
  "approver \<Rightarrow> string list \<Rightarrow> string option \<Rightarrow> u64 option \<Rightarrow> string list \<Rightarrow> string list \<Rightarrow>
   string list \<Rightarrow> (approval_error, string list) result" where
  "auto_approved_routes_for_node approves addresses user user_id tags current_approved
     announced_routes =
     (case auto_approved_routes_with_snapshot approves addresses user user_id tags
         current_approved announced_routes of
        Inl e \<Rightarrow> Inl e
      | Inr approved \<Rightarrow>
          (case auto_approval_changed current_approved approved of
             Inl e \<Rightarrow> Inl e
           | Inr changed \<Rightarrow> Inr (if changed then approved else current_approved)))"

definition primary_routes_by_node ::
  "(string \<times> node_id \<times> string list \<times> string list) list \<Rightarrow> (string, string list) btree_map" where
  "primary_routes_by_node nodes =
     (let keys_by_id = fold (\<lambda>(key, node, _, _) m.
            if bt_get m node = None then bt_insert node key m else m) nodes [];
          active_by_id = map (\<lambda>(_, node, available, approved).
            (node, active_primary_routes available approved)) nodes
      in case sync_routes active_by_id pr_new of
           Inl _ \<Rightarrow> []
         | Inr (st, _) \<Rightarrow>
             fold (\<lambda>(node, key) m.
               let routes = primary_routes st node
               in if routes = [] then m else bt_insert key routes m) keys_by_id [])"

section \<open>Sorting routes\<close>

lemma route_compare_canonical:
  "canonical a \<Longrightarrow> canonical b \<Longrightarrow>
   route_compare a b = cmp (prefix_key (canonical_parts a)) (prefix_key (canonical_parts b))"
  by (simp add: route_compare_def prefix_compare_canonical del: canonical_parts.simps)

interpretation route_order: strict_comparator_on "{t. canonical t}" route_compare
proof unfold_locales
  fix x y z assume "x \<in> {t. canonical t}" "y \<in> {t. canonical t}" "z \<in> {t. canonical t}"
  then have eqs: "route_compare x y = cmp (prefix_key (canonical_parts x)) (prefix_key (canonical_parts y))"
    "route_compare y x = cmp (prefix_key (canonical_parts y)) (prefix_key (canonical_parts x))"
    "route_compare y z = cmp (prefix_key (canonical_parts y)) (prefix_key (canonical_parts z))"
    "route_compare x z = cmp (prefix_key (canonical_parts x)) (prefix_key (canonical_parts z))"
    and can: "canonical x" "canonical y"
    by (simp_all add: route_compare_canonical del: canonical_parts.simps)
  show "route_compare y x = reverse_ordering (route_compare x y)"
    unfolding eqs by (rule linorder_cmp.c_flip) simp_all
  show "route_compare x y \<noteq> Greater \<Longrightarrow> route_compare y z \<noteq> Greater \<Longrightarrow> route_compare x z \<noteq> Greater"
    unfolding eqs by (rule linorder_cmp.c_trans) simp_all
  show "route_compare x y = Equal \<Longrightarrow> x = y"
    unfolding eqs using can
    by (simp add: prefix_key_inject canonical_parts_inject del: canonical_parts.simps)
qed

lemma set_sort_routes [simp]: "set (sort_routes rs) = set rs"
  by (simp add: sort_routes_def)

lemma mset_sort_routes [simp]: "mset (sort_routes rs) = mset rs"
  by (simp add: sort_routes_def)

lemma try_map_parse_canonical:
  "try_map parse_prefix_text routes = Inr ps \<Longrightarrow> p \<in> set ps \<Longrightarrow> canonical p \<and> p \<noteq> []"
  unfolding try_map_Inr_iff list_all2_conv_all_nth
  by (auto simp: in_set_conv_nth dest: parse_prefix_text_canonical)

lemma exit_routes_canonical [simp]: "canonical ''0.0.0.0/0''" "canonical ''::/0''"
proof -
  have "parse_prefix_text ''0.0.0.0/0'' = Inr ''0.0.0.0/0''" "parse_prefix_text ''::/0'' = Inr ''::/0''"
    by code_simp+
  then show "canonical ''0.0.0.0/0''" "canonical ''::/0''"
    by (auto dest: parse_prefix_text_canonical)
qed

lemma set_fold_bs_insert [simp]: "set (fold bs_insert xs s) = set xs \<union> set s"
  by (induction xs arbitrary: s) auto

lemma bs_wf_fold_insert [simp]: "bs_wf s \<Longrightarrow> bs_wf (fold bs_insert xs s)"
  by (induction xs arbitrary: s) auto

lemma normalize_primary_routes_sound:
  assumes "normalize_primary_routes routes = Inr rs"
  shows "bs_wf rs" and "\<And>r. r \<in> set rs \<Longrightarrow> canonical r \<and> r \<noteq> [] \<and> \<not> is_exit_route r"
  using assms
  by (auto simp: normalize_primary_routes_def dest: try_map_parse_canonical split: sum.splits)

section \<open>The candidates of a route\<close>

definition candidates :: "(node_id, string btree_set) btree_map \<Rightarrow> string \<Rightarrow> node_id list" where
  "candidates routes r = map fst (filter (\<lambda>(n, rs). r \<in> set rs) routes)"

lemma bt_get_push_candidates:
  "distinct rs \<Longrightarrow> bt_get (fold (push_candidate node) rs m) r =
     (if r \<in> set rs then Some ((case bt_get m r of None \<Rightarrow> [] | Some ns \<Rightarrow> ns) @ [node])
      else bt_get m r)"
  by (induction rs arbitrary: m) (auto simp: push_candidate_def)

lemma bt_wf_push_candidates: "bt_wf m \<Longrightarrow> bt_wf (fold (push_candidate node) rs m)"
  by (induction rs arbitrary: m) (auto simp: push_candidate_def)

lemma bt_get_available_fold:
  assumes "\<forall>(n, rs) \<in> set routes. distinct rs"
  shows "bt_get (fold (\<lambda>(node, rs) m. fold (push_candidate node) rs m) routes m) r =
    (if candidates routes r = [] then bt_get m r
     else Some ((case bt_get m r of None \<Rightarrow> [] | Some ns \<Rightarrow> ns) @ candidates routes r))"
  using assms
proof (induction routes arbitrary: m)
  case (Cons e routes)
  obtain n rs where e: "e = (n, rs)" by (cases e)
  with Cons show ?case
    by (auto simp: candidates_def bt_get_push_candidates split: option.splits)
qed (simp add: candidates_def)

lemma bt_wf_available: "bt_wf (available_by_route routes)"
proof -
  have "bt_wf m \<Longrightarrow> bt_wf (fold (\<lambda>(node, rs) m. fold (push_candidate node) rs m) routes m)" for m
    by (induction routes arbitrary: m) (simp_all add: bt_wf_push_candidates split: prod.split)
  then show ?thesis by (simp add: available_by_route_def)
qed

lemma bt_get_available:
  assumes "\<forall>(n, rs) \<in> set routes. distinct rs"
  shows "bt_get (available_by_route routes) r =
    (if candidates routes r = [] then None else Some (candidates routes r))"
  unfolding available_by_route_def bt_get_available_fold [OF assms] by simp

lemma candidates_sorted: "bt_wf routes \<Longrightarrow> sorted_wrt (<) (candidates routes r)"
  using bt_wf_filter [of routes "\<lambda>(n, rs). r \<in> set rs"] by (simp add: candidates_def bt_wf_def)

section \<open>The election\<close>

text \<open>The specification of one route's election: a healthy incumbent stays, an incumbent stays
  when no candidate is healthy, otherwise the first healthy candidate takes over.\<close>

definition elect :: "node_id list \<Rightarrow> node_id set \<Rightarrow> node_id option \<Rightarrow> node_id option" where
  "elect nodes unhealthy current =
     (if (\<exists>c. current = Some c \<and> c \<in> set nodes \<and> (c \<notin> unhealthy \<or> set nodes \<subseteq> unhealthy))
      then current
      else find (\<lambda>n. n \<notin> unhealthy) nodes)"

lemma elect_Nil [simp]: "elect [] u c = None"
  by (simp add: elect_def)

lemma update_route_elect:
  "update_route u (route, nodes) (p, ch) =
     (let new = elect nodes (set u) (bt_get p route) in
      if new = bt_get p route then (p, ch)
      else case new of Some n \<Rightarrow> (bt_insert route n p, True) | None \<Rightarrow> (bt_remove route p, True))"
proof (cases "bt_get p route")
  case None
  then show ?thesis
    by (cases "find (\<lambda>n. n \<notin> set u) nodes") (simp_all add: elect_def)
next
  case (Some c)
  show ?thesis
  proof (cases "c \<in> set nodes \<and> (c \<notin> set u \<or> set nodes \<subseteq> set u)")
    case True
    then have "elect nodes (set u) (Some c) = Some c"
      by (simp add: elect_def)
    with Some True show ?thesis
      by (simp add: subset_iff)
  next
    case False
    then have el: "elect nodes (set u) (Some c) = find (\<lambda>n. n \<notin> set u) nodes"
      by (auto simp: elect_def)
    have keep: "\<not> (c \<in> set nodes \<and> (c \<notin> set u \<or> (\<forall>n \<in> set nodes. n \<in> set u)))"
      using False by blast
    show ?thesis
    proof (cases "find (\<lambda>n. n \<notin> set u) nodes")
      case None
      with False have "c \<notin> set nodes" by (auto simp: find_None_iff)
      with Some None el show ?thesis by simp
    next
      case (Some n)
      with False have "n \<noteq> c" by (auto simp: find_Some_iff)
      with \<open>bt_get p route = Some c\<close> Some el keep show ?thesis
        by (simp only: update_route.simps option.case if_False) (simp add: Let_def)
    qed
  qed
qed

lemma update_route_spec:
  assumes "update_route u (route, nodes) (p, ch) = (p', ch')" "bt_wf p"
  shows "bt_wf p' \<and>
    (\<forall>r. bt_get p' r = (if r = route then elect nodes (set u) (bt_get p r) else bt_get p r)) \<and>
    (ch' \<longleftrightarrow> ch \<or> elect nodes (set u) (bt_get p route) \<noteq> bt_get p route)"
  using assms
  by (cases "elect nodes (set u) (bt_get p route)")
    (auto simp: update_route_elect Let_def simp del: update_route.simps split: if_splits)

lemma update_routes_fold_spec:
  assumes "fold (update_route u) entries (p, ch) = (p', ch')" "bt_wf p" "distinct (map fst entries)"
  shows "bt_wf p' \<and>
    (\<forall>r. bt_get p' r = (case map_of entries r of None \<Rightarrow> bt_get p r
       | Some nodes \<Rightarrow> elect nodes (set u) (bt_get p r))) \<and>
    (ch' \<longleftrightarrow> ch \<or> (\<exists>r. bt_get p' r \<noteq> bt_get p r))"
  using assms
proof (induction entries arbitrary: p ch)
  case Nil
  then show ?case by simp
next
  case (Cons e entries)
  obtain route nodes where e: "e = (route, nodes)" by (cases e)
  obtain p1 ch1 where step: "update_route u (route, nodes) (p, ch) = (p1, ch1)" by fastforce
  note s = update_route_spec [OF step Cons.prems(2)]
  have fresh: "map_of entries route = None"
    using Cons.prems(3) e by (simp add: map_of_eq_None_iff)
  have IH: "bt_wf p' \<and>
    (\<forall>r. bt_get p' r = (case map_of entries r of None \<Rightarrow> bt_get p1 r
       | Some nodes \<Rightarrow> elect nodes (set u) (bt_get p1 r))) \<and>
    (ch' \<longleftrightarrow> ch1 \<or> (\<exists>r. bt_get p' r \<noteq> bt_get p1 r))"
    using Cons.prems e step s by (intro Cons.IH) auto
  have at_route: "bt_get p' route = bt_get p1 route"
    using IH fresh by simp
  have other: "r \<noteq> route \<Longrightarrow> bt_get p1 r = bt_get p r" for r
    using s by simp
  have "(ch1 \<or> (\<exists>r. bt_get p' r \<noteq> bt_get p1 r)) \<longleftrightarrow> ch \<or> (\<exists>r. bt_get p' r \<noteq> bt_get p r)"
    using s at_route other by metis
  moreover have "bt_get p' r = (case map_of (e # entries) r of None \<Rightarrow> bt_get p r
       | Some nodes \<Rightarrow> elect nodes (set u) (bt_get p r))" for r
    using IH s fresh e by (cases "r = route") (auto split: option.splits)
  ultimately show ?case
    using IH by blast
qed

lemma remove_stale_fold:
  "fold (\<lambda>route (p, ch). (bt_remove route p, True)) rs (p, ch) =
     (filter (\<lambda>e. fst e \<notin> set rs) p, ch \<or> rs \<noteq> [])"
  by (induction rs arbitrary: p ch) (auto simp: bt_remove_def intro: filter_cong)

lemma bt_get_filter_keys:
  "bt_get (filter (\<lambda>e. P (fst e)) m) k = (if P k then bt_get m k else None)"
  by (induction m) auto

lemma remove_stale_spec:
  assumes "remove_stale available (p, ch) = (p', ch')" "bt_wf p"
  shows "bt_wf p' \<and>
    (\<forall>r. bt_get p' r = (if bt_get available r = None then None else bt_get p r)) \<and>
    (ch' \<longleftrightarrow> ch \<or> (\<exists>r. bt_get p' r \<noteq> bt_get p r))"
proof -
  let ?stale = "filter (\<lambda>route. bt_get available route = None) (bt_keys p)"
  have p': "p' = filter (\<lambda>e. fst e \<notin> set ?stale) p" and ch': "ch' \<longleftrightarrow> ch \<or> ?stale \<noteq> []"
    using assms(1) by (auto simp: remove_stale_def remove_stale_fold)
  have get: "bt_get p' r = (if bt_get available r = None then None else bt_get p r)" for r
  proof -
    have "bt_get p' r = (if r \<notin> set ?stale then bt_get p r else None)"
      using bt_get_filter_keys [of "\<lambda>k. k \<notin> set ?stale" p r] by (simp only: p')
    then show ?thesis
      using bt_get_dom [of p r] by auto
  qed
  have "?stale \<noteq> [] \<longleftrightarrow> (\<exists>r. bt_get available r = None \<and> bt_get p r \<noteq> None)"
    using bt_get_dom [of p] by (auto simp: filter_empty_conv)
  moreover have "bt_get p' r \<noteq> bt_get p r \<longleftrightarrow> bt_get available r = None \<and> bt_get p r \<noteq> None" for r
    by (cases "bt_get p r") (auto simp: get)
  ultimately have "?stale \<noteq> [] \<longleftrightarrow> (\<exists>r. bt_get p' r \<noteq> bt_get p r)"
    by simp
  with get ch' assms(2) show ?thesis by (simp add: p')
qed

section \<open>Well-formed states\<close>

text \<open>Every collection is ordered, every advertised route is canonical and not an exit route, no
  node has an empty set of routes, and every primary is a candidate of its route.\<close>

definition wf_routes :: "(node_id, string btree_set) btree_map \<Rightarrow> bool" where
  "wf_routes routes = (bt_wf routes \<and>
     (\<forall>(n, rs) \<in> set routes. bs_wf rs \<and> rs \<noteq> [] \<and>
       (\<forall>r \<in> set rs. canonical r \<and> r \<noteq> [] \<and> \<not> is_exit_route r)))"

definition wf_tables :: "primary_route_state \<Rightarrow> bool" where
  "wf_tables st = (wf_routes (pr_routes st) \<and> bt_wf (pr_primaries st) \<and> bs_wf (pr_unhealthy st))"

definition primaries_valid :: "primary_route_state \<Rightarrow> bool" where
  "primaries_valid st = (\<forall>r n. bt_get (pr_primaries st) r = Some n \<longrightarrow>
     n \<in> set (candidates (pr_routes st) r))"

definition wf_state :: "primary_route_state \<Rightarrow> bool" where
  "wf_state st = (wf_tables st \<and> primaries_valid st)"

lemma wf_routes_distinct: "wf_routes routes \<Longrightarrow> \<forall>(n, rs) \<in> set routes. distinct rs"
  by (auto simp: wf_routes_def bs_wf_distinct)

lemma candidates_iff:
  "bt_wf routes \<Longrightarrow> n \<in> set (candidates routes r) \<longleftrightarrow>
     (\<exists>rs. bt_get routes n = Some rs \<and> r \<in> set rs)"
  by (force simp: candidates_def bt_get_iff)

lemma wf_routes_insert:
  assumes "wf_routes routes" "bs_wf rs" "rs \<noteq> []"
    and "\<forall>r \<in> set rs. canonical r \<and> r \<noteq> [] \<and> \<not> is_exit_route r"
  shows "wf_routes (bt_insert n rs routes)"
proof -
  have wf: "bt_wf (bt_insert n rs routes)"
    using assms(1) by (simp add: wf_routes_def)
  have "(m, ss) \<in> set (bt_insert n rs routes) \<Longrightarrow> (m, ss) = (n, rs) \<or> (m, ss) \<in> set routes" for m ss
    using assms(1) bt_get_iff [OF wf, of m ss] bt_get_iff [of routes m ss]
    by (simp add: wf_routes_def split: if_splits)
  then show ?thesis
    using assms wf unfolding wf_routes_def by fast
qed

lemma wf_routes_remove: "wf_routes routes \<Longrightarrow> wf_routes (bt_remove n routes)"
  by (auto simp: wf_routes_def bt_remove_def)

text \<open>The central fact: a recalculation is the election, route by route, and the flag says
  whether an assignment changed.\<close>

lemma update_primary_locked_spec:
  assumes "update_primary_locked st = (st', changed)" "wf_tables st"
  shows "pr_routes st' = pr_routes st \<and> pr_unhealthy st' = pr_unhealthy st \<and>
    bt_wf (pr_primaries st') \<and>
    (\<forall>r. bt_get (pr_primaries st') r =
       elect (candidates (pr_routes st) r) (set (pr_unhealthy st)) (bt_get (pr_primaries st) r)) \<and>
    (changed \<longleftrightarrow> pr_primaries st' \<noteq> pr_primaries st)"
proof -
  let ?av = "available_by_route (pr_routes st)"
  obtain p1 c1 where p1: "fold (update_route (pr_unhealthy st)) ?av (pr_primaries st, False) = (p1, c1)"
    by fastforce
  obtain p2 c2 where p2: "remove_stale ?av (p1, c1) = (p2, c2)" by fastforce
  have st': "st' = st\<lparr>pr_primaries := p2\<rparr>" "changed = c2"
    using assms(1) p1 p2 by (simp_all add: update_primary_locked_def Let_def)
  have wf: "bt_wf (pr_primaries st)" "wf_routes (pr_routes st)"
    using assms(2) by (simp_all add: wf_tables_def)
  note f = update_routes_fold_spec [OF p1 wf(1) bt_wf_distinct [OF bt_wf_available]]
  note g = remove_stale_spec [OF p2]
  have av: "bt_get ?av r = (if candidates (pr_routes st) r = [] then None
      else Some (candidates (pr_routes st) r))" for r
    by (rule bt_get_available [OF wf_routes_distinct [OF wf(2)]])
  have get: "bt_get p2 r = elect (candidates (pr_routes st) r) (set (pr_unhealthy st))
      (bt_get (pr_primaries st) r)" for r
    using f g av [of r] by (simp add: bt_get_def [of ?av])
  have "c2 \<longleftrightarrow> (\<exists>r. bt_get p1 r \<noteq> bt_get (pr_primaries st) r) \<or> (\<exists>r. bt_get p2 r \<noteq> bt_get p1 r)"
    using f g by simp
  also have "\<dots> \<longleftrightarrow> (\<exists>r. bt_get p2 r \<noteq> bt_get (pr_primaries st) r)"
  proof -
    have "bt_get p1 r = (if bt_get ?av r = None then bt_get (pr_primaries st) r else bt_get p2 r)" for r
      using f g by (simp add: bt_get_def [of ?av] split: option.splits)
    moreover have "bt_get ?av r = None \<Longrightarrow> bt_get p2 r = None" for r
      using f g by simp
    ultimately show ?thesis by metis
  qed
  also have "\<dots> \<longleftrightarrow> p2 \<noteq> pr_primaries st"
    using bt_eqI [of p2 "pr_primaries st"] f g wf by metis
  finally have "c2 \<longleftrightarrow> p2 \<noteq> pr_primaries st" .
  with get f g st' show ?thesis by simp
qed

lemma elect_candidate: "elect nodes u c = Some n \<Longrightarrow> n \<in> set nodes"
  by (auto simp: elect_def find_Some_iff split: if_splits)

lemma update_primary_locked_wf:
  assumes "update_primary_locked st = (st', changed)" "wf_tables st"
  shows "wf_state st'"
  using update_primary_locked_spec [OF assms] assms(2)
  by (auto simp: wf_state_def wf_tables_def primaries_valid_def dest: elect_candidate)

section \<open>What an operation does to the election\<close>

text \<open>Every operation either recalculates, from the old assignments over new tables, or touches
  the health marks only.\<close>

definition recalculated :: "primary_route_state \<Rightarrow> primary_route_state \<Rightarrow> bool" where
  "recalculated st st' = (\<exists>st1 changed. update_primary_locked st1 = (st', changed) \<and>
     wf_tables st1 \<and> pr_primaries st1 = pr_primaries st)"

definition remarked :: "primary_route_state \<Rightarrow> primary_route_state \<Rightarrow> bool" where
  "remarked st st' = (pr_routes st' = pr_routes st \<and> pr_primaries st' = pr_primaries st \<and>
     bs_wf (pr_unhealthy st'))"

lemma set_routes_recalculated [inv_intros]:
  assumes "wf_state st" "set_routes n routes st = Inr (st', changed)"
  shows "recalculated st st'"
proof -
  from assms(2) obtain rs where rs: "normalize_primary_routes routes = Inr rs"
    by (auto simp: set_routes_def split: sum.splits)
  from assms rs normalize_primary_routes_sound [OF rs] show ?thesis
    unfolding recalculated_def
    by (intro exI [of _ "if rs = []
            then st\<lparr>pr_routes := bt_remove n (pr_routes st),
                    pr_unhealthy := bs_remove n (pr_unhealthy st)\<rparr>
            else st\<lparr>pr_routes := bt_insert n rs (pr_routes st)\<rparr>"] exI [of _ changed])
      (auto simp: set_routes_def Let_def wf_state_def wf_tables_def wf_routes_remove
        wf_routes_insert split: if_splits)
qed

lemma collect_routes_wf:
  "wf_routes acc \<Longrightarrow> collect_routes acc nodes = Inr routes \<Longrightarrow> wf_routes routes"
proof (induction acc nodes rule: collect_routes.induct)
  case (2 acc n rs nodes)
  from 2(3) obtain ns where ns: "normalize_primary_routes rs = Inr ns"
    by (auto split: sum.splits)
  note sound = normalize_primary_routes_sound [OF ns]
  have "wf_routes (if ns = [] then acc else bt_insert n ns acc)"
    using 2(2) sound by (auto intro: wf_routes_insert)
  with 2(1) [OF ns] 2(3) ns show ?case by simp
qed simp

lemma sync_routes_recalculated [inv_intros]:
  assumes "wf_state st" "sync_routes nodes st = Inr (st', changed)"
  shows "recalculated st st'"
proof -
  from assms(2) obtain routes where routes: "collect_routes [] nodes = Inr routes"
    by (auto simp: sync_routes_def split: sum.splits)
  have "wf_routes routes"
    by (rule collect_routes_wf [OF _ routes]) (simp add: wf_routes_def)
  with assms routes show ?thesis
    unfolding recalculated_def
    by (intro exI [of _ "st\<lparr>pr_routes := routes,
        pr_unhealthy := filter (\<lambda>n. bt_get routes n \<noteq> None) (pr_unhealthy st)\<rparr>"]
        exI [of _ changed]) (simp add: sync_routes_def wf_state_def wf_tables_def)
qed

lemma flip_health_wf: "bs_wf u \<Longrightarrow> bs_wf (fst (flip_health n h u))"
  by (simp add: flip_health_def)

lemma health_recalculated:
  assumes "wf_state st" "bs_wf u"
    and "(if \<not> health_changed then (st\<lparr>pr_unhealthy := u\<rparr>, False)
          else update_primary_locked (st\<lparr>pr_unhealthy := u\<rparr>)) = (st', changed)"
  shows "recalculated st st' \<or> remarked st st'"
proof (cases health_changed)
  case True
  with assms have "recalculated st st'"
    unfolding recalculated_def
    by (intro exI [of _ "st\<lparr>pr_unhealthy := u\<rparr>"] exI [of _ changed])
      (simp add: wf_state_def wf_tables_def)
  then show ?thesis ..
next
  case False
  with assms have "st' = st\<lparr>pr_unhealthy := u\<rparr>" by simp
  with assms(2) show ?thesis by (simp add: remarked_def)
qed

lemma set_node_health_recalculated:
  assumes "wf_state st" "set_node_health n h st = (st', changed)"
  shows "recalculated st st' \<or> remarked st st'"
proof -
  obtain u c where f: "flip_health n h (pr_unhealthy st) = (u, c)" by fastforce
  moreover have "bs_wf u"
    using assms(1) flip_health_wf [of "pr_unhealthy st" n h] f
    by (simp add: wf_state_def wf_tables_def)
  ultimately show ?thesis
    using assms(2) by (intro health_recalculated [OF assms(1), of u c _ changed])
      (simp_all add: set_node_health_def Let_def)
qed

lemma health_batch_fold_wf:
  "bs_wf u \<Longrightarrow> bs_wf (fst (fold (\<lambda>(node_id, healthy) (u, changed).
     let (u', c) = flip_health node_id healthy u in (u', changed \<or> c)) updates (u, ch)))"
proof (induction updates arbitrary: u ch)
  case (Cons a updates)
  obtain n h where "a = (n, h)" by (cases a)
  moreover obtain u' c where "flip_health n h u = (u', c)" by fastforce
  ultimately show ?case
    using Cons.IH [of u'] flip_health_wf [OF Cons.prems, of n h] by (simp add: Let_def)
qed simp

lemma set_node_health_batch_recalculated:
  assumes "wf_state st" "set_node_health_batch updates st = (st', changed)"
  shows "recalculated st st' \<or> remarked st st'"
proof -
  obtain u c where f: "fold (\<lambda>(node_id, healthy) (u, changed).
     let (u', c) = flip_health node_id healthy u in (u', changed \<or> c)) updates
     (pr_unhealthy st, False) = (u, c)" by fastforce
  moreover have "bs_wf u"
    using assms(1) health_batch_fold_wf [of "pr_unhealthy st" updates False] f
    by (simp add: wf_state_def wf_tables_def)
  ultimately show ?thesis
    using assms(2) by (intro health_recalculated [OF assms(1), of u c _ changed])
      (simp_all add: set_node_health_batch_def Let_def)
qed

lemma clear_unhealthy_remarked [inv_intros]: "wf_state st \<Longrightarrow> remarked st (clear_unhealthy n st)"
  by (simp add: clear_unhealthy_def remarked_def wf_state_def wf_tables_def)

section \<open>Runs\<close>

inductive pr_step :: "primary_route_state \<Rightarrow> primary_route_state \<Rightarrow> bool" where
  step_set: "set_routes n routes st = Inr (st', changed) \<Longrightarrow> pr_step st st'"
| step_sync: "sync_routes nodes st = Inr (st', changed) \<Longrightarrow> pr_step st st'"
| step_health: "set_node_health n h st = (st', changed) \<Longrightarrow> pr_step st st'"
| step_batch: "set_node_health_batch updates st = (st', changed) \<Longrightarrow> pr_step st st'"
| step_clear: "pr_step st (clear_unhealthy n st)"

inductive_cases pr_stepE: "pr_step st st'"

lemma pr_step_recalculated:
  "pr_step st st' \<Longrightarrow> wf_state st \<Longrightarrow> recalculated st st' \<or> remarked st st'"
  by (elim pr_stepE)
    (auto intro: inv_intros dest: set_node_health_recalculated set_node_health_batch_recalculated)

lemma recalculated_wf: "recalculated st st' \<Longrightarrow> wf_state st'"
  by (auto simp: recalculated_def intro: update_primary_locked_wf)

lemma remarked_wf: "remarked st st' \<Longrightarrow> wf_state st \<Longrightarrow> wf_state st'"
  by (simp add: remarked_def wf_state_def wf_tables_def primaries_valid_def)

lemma pr_new_wf: "wf_state pr_new"
  by (simp add: pr_new_def wf_state_def wf_tables_def wf_routes_def primaries_valid_def)

interpretation election: machine pr_new pr_step wf_state
  by unfold_locales
    (auto simp: pr_new_wf intro: recalculated_wf remarked_wf dest: pr_step_recalculated)

section \<open>Facts the properties share\<close>

lemma elect_idem: "elect nodes u (elect nodes u c) = elect nodes u c"
proof (cases "\<exists>d. c = Some d \<and> d \<in> set nodes \<and> (d \<notin> u \<or> set nodes \<subseteq> u)")
  case True
  then have "elect nodes u c = c" by (simp add: elect_def)
  then show ?thesis by simp
next
  case False
  then have e: "elect nodes u c = find (\<lambda>n. n \<notin> u) nodes"
    by (auto simp: elect_def)
  show ?thesis
    unfolding e by (cases "find (\<lambda>n. n \<notin> u) nodes") (auto simp: elect_def find_None_iff find_Some_iff)
qed

lemma elect_keeps: "c \<in> set nodes \<Longrightarrow> c \<notin> u \<Longrightarrow> elect nodes u (Some c) = Some c"
  by (simp add: elect_def)

lemma find_sorted_least:
  fixes xs :: "'a :: linorder list"
  assumes "sorted_wrt (<) xs" "find P xs = Some p" "q \<in> set xs" "P q"
  shows "p \<le> q"
  using assms by (induction xs) (auto split: if_splits)

lemma find_exists: "q \<in> set xs \<Longrightarrow> P q \<Longrightarrow> \<exists>p \<in> set xs. find P xs = Some p \<and> P p"
  by (induction xs) auto

lemma elect_healthy:
  assumes "sorted_wrt (<) nodes" "m \<in> set nodes" "m \<notin> u"
  shows "\<exists>p \<in> set nodes. elect nodes u c = Some p \<and> p \<notin> u \<and>
    (c \<noteq> Some p \<longrightarrow> (\<forall>q \<in> set nodes. q \<notin> u \<longrightarrow> p \<le> q))"
proof (cases "\<exists>d. c = Some d \<and> d \<in> set nodes \<and> d \<notin> u")
  case True
  then show ?thesis by (auto simp: elect_def)
next
  case False
  then have e: "elect nodes u c = find (\<lambda>n. n \<notin> u) nodes"
    using assms(2,3) by (auto simp: elect_def)
  obtain p where p: "p \<in> set nodes" "find (\<lambda>n. n \<notin> u) nodes = Some p" "p \<notin> u"
    using find_exists [OF assms(2), of "\<lambda>n. n \<notin> u"] assms(3) by auto
  have "\<forall>q \<in> set nodes. q \<notin> u \<longrightarrow> p \<le> q"
    using find_sorted_least [OF assms(1) p(2)] by auto
  with e p show ?thesis by auto
qed

lemma recalculated_elect:
  assumes "recalculated st st'"
  shows "bt_get (pr_primaries st') r =
    elect (candidates (pr_routes st') r) (set (pr_unhealthy st')) (bt_get (pr_primaries st) r)"
  using assms by (auto simp: recalculated_def dest: update_primary_locked_spec)

lemma set_primary_routes: "set (primary_routes st n) = {r. (r, n) \<in> set (pr_primaries st)}"
  by (force simp: primary_routes_def)

lemma normalize_primary_routes_single:
  "canonical r \<Longrightarrow> r \<noteq> [] \<Longrightarrow> \<not> is_exit_route r \<Longrightarrow> normalize_primary_routes [r] = Inr [r]"
  by (simp add: normalize_primary_routes_def parse_prefix_text_canonical_id)

lemma candidate_route:
  assumes "wf_routes routes" "n \<in> set (candidates routes r)"
  shows "canonical r \<and> r \<noteq> [] \<and> \<not> is_exit_route r"
  using assms unfolding wf_routes_def candidates_def by force

lemma set_normalize_primary_routes:
  "normalize_primary_routes ts = Inr rs \<Longrightarrow>
     set rs = {r. Inr r \<in> parse_prefix_text ` set ts \<and> \<not> is_exit_route r}"
  by (auto simp: normalize_primary_routes_def dest: set_try_map split: sum.splits)

lemma collect_routes_get:
  assumes "collect_routes acc nodes = Inr routes" "distinct (map fst nodes)"
  shows "bt_get routes n = (case map_of nodes n of None \<Rightarrow> bt_get acc n
    | Some ts \<Rightarrow> (case normalize_primary_routes ts of
        Inr (r # rs) \<Rightarrow> Some (r # rs) | _ \<Rightarrow> bt_get acc n))"
  using assms
proof (induction acc nodes rule: collect_routes.induct)
  case (2 acc m ts nodes)
  from 2(2) obtain ns where ns: "normalize_primary_routes ts = Inr ns"
    by (auto split: sum.splits)
  have "map_of nodes m = None"
    using 2(3) by (simp add: map_of_eq_None_iff)
  with 2(1) [OF ns] 2(2,3) ns show ?case
    by (auto split: list.splits sum.splits option.splits)
qed simp

lemma collect_routes_ok:
  "collect_routes acc nodes = Inr routes \<Longrightarrow> (n, ts) \<in> set nodes \<Longrightarrow>
     \<exists>rs. normalize_primary_routes ts = Inr rs"
  by (induction acc nodes rule: collect_routes.induct) (auto split: sum.splits)

section \<open>Properties of the election\<close>

text \<open>C1. A recalculation of the primary routes refines the per-route election: it leaves the
  advertised routes and the health marks alone, assigns to every route the result of the election
  among the nodes that advertise it, and reports a change exactly when an assignment changed.\<close>

theorem recalculation_is_election:
  assumes "wf_state st" "update_primary_locked st = (st', changed)"
  shows "wf_state st' \<and> pr_routes st' = pr_routes st \<and> pr_unhealthy st' = pr_unhealthy st \<and>
    (\<forall>r. bt_get (pr_primaries st') r =
       elect (candidates (pr_routes st) r) (set (pr_unhealthy st)) (bt_get (pr_primaries st) r)) \<and>
    (changed \<longleftrightarrow> pr_primaries st' \<noteq> pr_primaries st)"
proof -
  have "wf_tables st" using assms(1) by (simp add: wf_state_def)
  with update_primary_locked_spec [OF assms(2)] update_primary_locked_wf [OF assms(2)]
  show ?thesis by simp
qed

lemma example_wf:
  "wf_state \<lparr>pr_routes = [(1, [''10.0.0.0/8'']), (2, [''10.0.0.0/8''])],
     pr_primaries = [(''10.0.0.0/8'', 1)], pr_unhealthy = []\<rparr>"
proof -
  have sync: "sync_routes [(1, [''10.0.0.0/8'']), (2, [''10.0.0.0/8'', ''::/0''])] pr_new =
    Inr (\<lparr>pr_routes = [(1, [''10.0.0.0/8'']), (2, [''10.0.0.0/8''])],
     pr_primaries = [(''10.0.0.0/8'', 1)], pr_unhealthy = []\<rparr>, True)"
    by code_simp
  show ?thesis
    by (rule recalculated_wf [OF sync_routes_recalculated [OF pr_new_wf sync]])
qed

lemma example_unhealthy_wf:
  "wf_state \<lparr>pr_routes = [(1, [''10.0.0.0/8'']), (2, [''10.0.0.0/8''])],
     pr_primaries = [(''10.0.0.0/8'', 1)], pr_unhealthy = [1]\<rparr>"
  using remarked_wf [OF _ example_wf] by (simp add: remarked_def bs_wf_def)

theorem recalculation_is_election_witness:
  "bt_get (pr_primaries (fst (update_primary_locked
     \<lparr>pr_routes = [(1, [''10.0.0.0/8'']), (2, [''10.0.0.0/8''])],
      pr_primaries = [(''10.0.0.0/8'', 1)], pr_unhealthy = [1]\<rparr>))) ''10.0.0.0/8'' = Some 2"
proof -
  let ?st = "\<lparr>pr_routes = [(1, [''10.0.0.0/8'']), (2, [''10.0.0.0/8''])],
      pr_primaries = [(''10.0.0.0/8'', 1)], pr_unhealthy = [1]\<rparr>"
  obtain st' changed where up: "update_primary_locked ?st = (st', changed)" by fastforce
  with recalculation_is_election [OF example_unhealthy_wf up]
  show ?thesis by (simp add: candidates_def elect_def)
qed

text \<open>A recalculation is idempotent: repeating it changes nothing and reports no change.\<close>

theorem recalculation_idempotent:
  assumes "wf_state st" "update_primary_locked st = (st', changed)"
  shows "update_primary_locked st' = (st', False)"
proof -
  obtain st2 c2 where up: "update_primary_locked st' = (st2, c2)" by fastforce
  have wf: "wf_tables st" "wf_state st'"
    using assms update_primary_locked_wf by (auto simp: wf_state_def)
  note s1 = update_primary_locked_spec [OF assms(2) wf(1)]
  have wf': "wf_tables st'" using wf(2) by (simp add: wf_state_def)
  note s2 = update_primary_locked_spec [OF up wf']
  have "pr_primaries st2 = pr_primaries st'"
    using s1 s2 by (intro bt_eqI) (auto simp: elect_idem)
  with s2 up show ?thesis by simp
qed

theorem recalculation_idempotent_witness:
  "\<exists>st'. update_primary_locked
     \<lparr>pr_routes = [(1, [''10.0.0.0/8'']), (2, [''10.0.0.0/8''])],
      pr_primaries = [(''10.0.0.0/8'', 1)], pr_unhealthy = [1]\<rparr> = (st', True) \<and>
    update_primary_locked st' = (st', False)"
proof -
  let ?st = "\<lparr>pr_routes = [(1, [''10.0.0.0/8'']), (2, [''10.0.0.0/8''])],
      pr_primaries = [(''10.0.0.0/8'', 1)], pr_unhealthy = [1]\<rparr>"
  have up: "update_primary_locked ?st = (?st\<lparr>pr_primaries := [(''10.0.0.0/8'', 2)]\<rparr>, True)"
    by code_simp
  from recalculation_idempotent [OF example_unhealthy_wf up] up show ?thesis by blast
qed

text \<open>C14. In every state a server can reach through the operations of the election, a route that
  a node is the primary of has one primary, is advertised by it, is found by a lookup of the route's
  text, and is not an exit route.\<close>

theorem reachable_primaries:
  assumes "rtranclp pr_step pr_new st" "r \<in> set (primary_routes st n)"
  shows "primary_route_for st r = Some n \<and>
    (\<exists>rs. bt_get (pr_routes st) n = Some rs \<and> r \<in> set rs) \<and> \<not> is_exit_route r \<and>
    (\<forall>m. r \<in> set (primary_routes st m) \<longleftrightarrow> m = n)"
proof -
  have wf: "wf_state st" using assms(1) by (rule election.inv_reachable)
  then have bt: "bt_wf (pr_primaries st)" and routes: "wf_routes (pr_routes st)"
    by (simp_all add: wf_state_def wf_tables_def)
  have get: "r \<in> set (primary_routes st m) \<longleftrightarrow> bt_get (pr_primaries st) r = Some m" for m
    using bt by (simp add: set_primary_routes bt_get_iff)
  with assms(2) have p: "bt_get (pr_primaries st) r = Some n" by simp
  with wf have "n \<in> set (candidates (pr_routes st) r)"
    by (simp add: wf_state_def primaries_valid_def)
  with candidate_route [OF routes this] candidates_iff [of "pr_routes st" n r] routes p get
  show ?thesis
    by (auto simp: primary_route_for_def normalize_primary_routes_single wf_routes_def)
qed

theorem reachable_primaries_witness:
  "\<exists>st. rtranclp pr_step pr_new st \<and> primary_route_for st ''10.0.0.0/8'' = Some 7"
proof -
  let ?st = "\<lparr>pr_routes = [(7, [''10.0.0.0/8''])], pr_primaries = [(''10.0.0.0/8'', 7)],
    pr_unhealthy = []\<rparr>"
  have "set_routes 7 [''10.0.0.0/8''] pr_new = Inr (?st, True)" by code_simp
  then have run: "rtranclp pr_step pr_new ?st" by (blast intro: step_set)
  have "''10.0.0.0/8'' \<in> set (primary_routes ?st 7)" by code_simp
  with reachable_primaries [OF run this] run show ?thesis by blast
qed

text \<open>C22. No flapping: whatever operation runs, a primary that still advertises its route and is
  healthy after it keeps the route.\<close>

theorem no_flapping:
  assumes "wf_state st" "pr_step st st'" "bt_get (pr_primaries st) r = Some c"
    and "c \<in> set (candidates (pr_routes st') r)" "is_node_healthy st' c"
  shows "bt_get (pr_primaries st') r = Some c"
  using pr_step_recalculated [OF assms(2,1)]
proof
  assume "recalculated st st'"
  from recalculated_elect [OF this] assms(3-5) show ?thesis
    by (simp add: elect_keeps is_node_healthy_def)
next
  assume "remarked st st'"
  with assms(3) show ?thesis by (simp add: remarked_def)
qed

theorem no_flapping_witness:
  "bt_get (pr_primaries (fst (set_node_health 2 False
     \<lparr>pr_routes = [(1, [''10.0.0.0/8'']), (2, [''10.0.0.0/8''])],
      pr_primaries = [(''10.0.0.0/8'', 1)], pr_unhealthy = []\<rparr>))) ''10.0.0.0/8'' = Some 1"
proof -
  let ?st = "\<lparr>pr_routes = [(1, [''10.0.0.0/8'']), (2, [''10.0.0.0/8''])],
      pr_primaries = [(''10.0.0.0/8'', 1)], pr_unhealthy = []\<rparr>"
  have step: "set_node_health 2 False ?st = (?st\<lparr>pr_unhealthy := [2]\<rparr>, False)" by code_simp
  have "pr_step ?st (?st\<lparr>pr_unhealthy := [2]\<rparr>)" by (rule step_health [OF step])
  from no_flapping [OF example_wf this, of "''10.0.0.0/8''" 1] step show ?thesis
    by (simp add: candidates_def is_node_healthy_def)
qed



definition advertises :: "(node_id \<times> string list) list \<Rightarrow> node_id \<Rightarrow> string \<Rightarrow> bool" where
  "advertises nodes n r = (\<exists>ts. (n, ts) \<in> set nodes \<and> Inr r \<in> parse_prefix_text ` set ts \<and>
     \<not> is_exit_route r)"

text \<open>A fresh synchronisation (the start-up election) makes the primary of a route the node
  with the least id among the nodes whose route texts name it.\<close>

theorem fresh_sync_least:
  assumes "sync_routes nodes pr_new = Inr (st, changed)" "distinct (map fst nodes)"
  shows "bt_get (pr_primaries st) r = Some n \<longleftrightarrow>
    advertises nodes n r \<and> (\<forall>m. advertises nodes m r \<longrightarrow> n \<le> m)"
proof -
  from assms(1) obtain routes where routes: "collect_routes [] nodes = Inr routes"
    by (auto simp: sync_routes_def split: sum.splits)
  have wf: "wf_routes routes"
    by (rule collect_routes_wf [OF _ routes]) (simp add: wf_routes_def)
  then have bt: "bt_wf routes" by (simp add: wf_routes_def)
  have up: "update_primary_locked (pr_new\<lparr>pr_routes := routes\<rparr>) = (st, changed)"
    using assms(1) routes by (simp add: sync_routes_def pr_new_def)
  have "wf_tables (pr_new\<lparr>pr_routes := routes\<rparr>)"
    using wf pr_new_wf by (simp add: wf_tables_def wf_state_def)
  from update_primary_locked_spec [OF up this]
  have get: "bt_get (pr_primaries st) r = find (\<lambda>n. True) (candidates routes r)"
    by (simp add: pr_new_def elect_def)
  have cand: "m \<in> set (candidates routes r) \<longleftrightarrow> advertises nodes m r" for m
  proof -
    have "m \<in> set (candidates routes r) \<longleftrightarrow>
      (\<exists>ts rs. map_of nodes m = Some ts \<and> normalize_primary_routes ts = Inr rs \<and> r \<in> set rs)"
      unfolding candidates_iff [OF bt] collect_routes_get [OF routes assms(2)]
      by (auto split: option.splits sum.splits list.splits)
    also have "\<dots> \<longleftrightarrow> advertises nodes m r"
      using collect_routes_ok [OF routes] set_normalize_primary_routes
      unfolding advertises_def map_of_eq_Some_iff [OF assms(2)] by blast
    finally show ?thesis .
  qed
  have least: "sorted_wrt (<) ns \<Longrightarrow> find (\<lambda>n. True) ns = Some n \<longleftrightarrow>
      n \<in> set ns \<and> (\<forall>m \<in> set ns. n \<le> m)" for ns :: "node_id list"
    by (cases ns) (auto simp: order.strict_implies_order dest: leD)
  show ?thesis
    unfolding get least [OF candidates_sorted [OF bt]] by (auto simp: cand)
qed

theorem fresh_sync_least_witness:
  "\<exists>st. sync_routes [(9, [''10.0.0.0/8'']), (4, [''10.0.0.0/8'', ''::/0''])] pr_new = Inr (st, True) \<and>
    bt_get (pr_primaries st) ''10.0.0.0/8'' = Some 4"
proof -
  let ?nodes = "[(9, [''10.0.0.0/8'']), (4, [''10.0.0.0/8'', ''::/0''])] :: (node_id \<times> string list) list"
  let ?st = "\<lparr>pr_routes = [(4, [''10.0.0.0/8'']), (9, [''10.0.0.0/8''])],
     pr_primaries = [(''10.0.0.0/8'', 4)], pr_unhealthy = []\<rparr>"
  have sync: "sync_routes ?nodes pr_new = Inr (?st, True)" by code_simp
  have parse: "parse_prefix_text ''10.0.0.0/8'' = Inr ''10.0.0.0/8''" "\<not> is_exit_route ''10.0.0.0/8''"
    by code_simp+
  have "bt_get (pr_primaries ?st) ''10.0.0.0/8'' = Some 4"
    by (subst fresh_sync_least [OF sync]) (auto simp: parse advertises_def)
  with sync show ?thesis by blast
qed

section \<open>Properties of normalisation and approval\<close>

lemma normalize_set:
  fixes expand :: bool
  assumes "try_map parse_prefix_text routes = Inr ps"
  defines "out \<equiv> concat (map (\<lambda>p. if expand \<and> is_exit_route p then [''0.0.0.0/0'', ''::/0'']
    else [p]) ps)"
  shows "normalize_route_set routes expand = Inr (remdups_adj (sort_by route_compare out))"
    and "set out \<subseteq> {t. canonical t}"
  using assms try_map_parse_canonical [OF assms(1)]
  by (auto simp: normalize_route_set_def sort_routes_def)

lemma try_map_parse_id:
  "\<forall>p \<in> set ps. canonical p \<and> p \<noteq> [] \<Longrightarrow> try_map parse_prefix_text ps = Inr ps"
  using try_map_all_ok [of ps parse_prefix_text id] by (simp add: parse_prefix_text_canonical_id)

text \<open>A normalised route set is strictly sorted (so free of duplicates), holds both exit
  routes or neither, denotes the set its input texts denote up to that expansion, and is a fixed
  point of the normalisation.\<close>

theorem normalize_routes_correct:
  assumes "normalize_routes routes = Inr out"
  shows "sorted_wrt (\<lambda>a b. route_compare a b = Less) out \<and>
    (''0.0.0.0/0'' \<in> set out \<longleftrightarrow> ''::/0'' \<in> set out) \<and>
    {r \<in> set out. \<not> is_exit_route r} =
      {r. Inr r \<in> parse_prefix_text ` set routes \<and> \<not> is_exit_route r} \<and>
    normalize_routes out = Inr out"
proof -
  from assms obtain ps where ps: "try_map parse_prefix_text routes = Inr ps"
    by (auto simp: normalize_routes_def normalize_route_set_def split: sum.splits)
  let ?ex = "\<lambda>qs. concat (map (\<lambda>p. if True \<and> is_exit_route p then [''0.0.0.0/0'', ''::/0'']
    else [p]) qs)"
  note n = normalize_set [OF ps, of True]
  have out: "out = remdups_adj (sort_by route_compare (?ex ps))"
    using assms n(1) by (simp add: normalize_routes_def)
  have strict: "sorted_wrt (\<lambda>a b. route_compare a b = Less) out"
    unfolding out by (rule route_order.sort_dedup_strict [OF n(2)])
  have set_out: "set out = set (?ex ps)" unfolding out by simp
  have exits: "''0.0.0.0/0'' \<in> set out \<longleftrightarrow> ''::/0'' \<in> set out"
    unfolding set_out by (auto simp: is_exit_route_def split: if_splits)
  have others: "{r \<in> set out. \<not> is_exit_route r} = {r \<in> set ps. \<not> is_exit_route r}"
    unfolding set_out by (auto simp: is_exit_route_def split: if_splits)
  have canon: "p \<in> set out \<Longrightarrow> canonical p \<and> p \<noteq> []" for p
    unfolding set_out using try_map_parse_canonical [OF ps] by (auto split: if_splits)
  then have self: "try_map parse_prefix_text out = Inr out"
    by (intro try_map_parse_id) simp
  note m = normalize_set [OF self, of True]
  have "set (?ex out) = set out"
    using exits by (auto simp: is_exit_route_def split: if_splits)
  with route_order.sort_dedup_cong [OF m(2), of out]
  have "normalize_routes out = Inr (remdups_adj (sort_by route_compare out))"
    using m(1) by (simp add: normalize_routes_def)
  also have "\<dots> = Inr out"
    using route_order.sort_dedup_id [OF _ strict] canon by auto
  finally show ?thesis
    using strict exits others set_try_map [OF ps] by auto
qed

theorem normalize_routes_correct_witness:
  "normalize_routes [''10.0.0.0/8'', ''::/0'', ''10.0.0.0/8''] =
     Inr [''0.0.0.0/0'', ''10.0.0.0/8'', ''::/0''] \<and>
   normalize_routes [''0.0.0.0/0'', ''10.0.0.0/8'', ''::/0''] =
     Inr [''0.0.0.0/0'', ''10.0.0.0/8'', ''::/0'']"
proof -
  have *: "normalize_routes [''10.0.0.0/8'', ''::/0'', ''10.0.0.0/8''] =
     Inr [''0.0.0.0/0'', ''10.0.0.0/8'', ''::/0'']" by code_simp
  from normalize_routes_correct [OF *] * show ?thesis by blast
qed

text \<open>Normalisation depends on the set of prefixes only: two lists of texts that denote the
  same set of prefixes have the same normal form.\<close>

theorem normalize_routes_order_free:
  assumes "try_map parse_prefix_text xs = Inr ps" "try_map parse_prefix_text ys = Inr qs"
    and "set ps = set qs"
  shows "normalize_routes xs = normalize_routes ys \<and>
    normalize_advertised_routes xs = normalize_advertised_routes ys"
proof -
  have "normalize_route_set xs e = normalize_route_set ys e" for e
    unfolding normalize_set(1) [OF assms(1)] normalize_set(1) [OF assms(2)]
    by (intro arg_cong [of _ _ Inr] route_order.sort_dedup_cong normalize_set(2) [OF assms(1)])
      (simp add: assms(3))
  then show ?thesis by (simp add: normalize_routes_def normalize_advertised_routes_def)
qed

theorem normalize_routes_order_free_witness:
  "normalize_routes [''10.0.0.0/8'', ''fd00::/8''] =
   normalize_routes [''fd00::/8'', ''10.0.0.0/8'', ''fd00:0::/8'']"
proof -
  have "try_map parse_prefix_text [''10.0.0.0/8'', ''fd00::/8''] = Inr [''10.0.0.0/8'', ''fd00::/8'']"
    "try_map parse_prefix_text [''fd00::/8'', ''10.0.0.0/8'', ''fd00:0::/8''] =
       Inr [''fd00::/8'', ''10.0.0.0/8'', ''fd00::/8'']"
    by code_simp+
  from normalize_routes_order_free [OF this] show ?thesis by auto
qed

text \<open>Auto-approval never withdraws an approved route, and adds only routes the node
  announced and the policy approves for it; a node without addresses gains none.\<close>

theorem auto_approval_monotone:
  assumes "auto_approved_routes_with_snapshot approves addresses user user_id tags cur ann = Inr out"
    and "typed_prefixes cur = Inr cs" "typed_prefixes ann = Inr as"
  shows "set out = {r. r \<noteq> [] \<and> (r \<in> set cs \<or> r \<in> set as \<and> addresses \<noteq> [] \<and>
    approves \<lparr>nv_user_id = user_id, nv_addr = (case addresses of [] \<Rightarrow> None | a # _ \<Rightarrow> Some a),
      nv_addrs = addresses, nv_user = user, nv_tags = tags\<rparr> r (is_exit_route_str r))}"
proof -
  have fold: "set (fold (\<lambda>route approved. if route = [] \<or> route \<in> set approved then approved
      else if P route then approved @ [route] else approved) xs acc) =
    set acc \<union> {r \<in> set xs. r \<noteq> [] \<and> P r}" for P xs and acc :: "string list"
    by (induction xs arbitrary: acc) auto
  show ?thesis
    using assms by (auto simp: auto_approved_routes_with_snapshot_def Let_def fold)
qed

theorem auto_approval_monotone_witness:
  "\<exists>out. auto_approved_routes_with_snapshot (\<lambda>v r e. r = ''10.0.0.0/8'') [''100.64.0.1'']
     None (Some 1) [] [''192.168.0.0/16''] [''10.0.0.0/8'', ''10.1.0.0/16''] = Inr out \<and>
   set out = {''192.168.0.0/16'', ''10.0.0.0/8''}"
proof -
  let ?ap = "\<lambda>v r e. r = ''10.0.0.0/8''"
  have out: "auto_approved_routes_with_snapshot ?ap [''100.64.0.1''] None (Some 1) []
      [''192.168.0.0/16''] [''10.0.0.0/8'', ''10.1.0.0/16''] =
    Inr [''10.0.0.0/8'', ''192.168.0.0/16'']" by code_simp
  have typed: "typed_prefixes [''192.168.0.0/16''] = Inr [''192.168.0.0/16'']"
    "typed_prefixes [''10.0.0.0/8'', ''10.1.0.0/16''] = Inr [''10.0.0.0/8'', ''10.1.0.0/16'']"
    by code_simp+
  from auto_approval_monotone [OF out typed] out show ?thesis by auto
qed

end
