(* ===== verification/Routing_Table.thy ===== *)
theory Routing_Table
  imports Netip
begin

text \<open>
  The mesh routing table of \<open>headscale-core/src/routing.rs\<close>: \<open>Route\<close> and
  \<open>RoutingTable\<close> are records, every method is one definition. The crate \<open>ipnet\<close> is not
  part of the sources: the type of networks is a type variable and its methods are the fields of
  \<open>ipnet_ops\<close>, an argument of the definitions; \<open>ipnet_laws\<close> states the documented
  behaviour the table relies on, and \<open>cidr_ops\<close> is an instance that has it.
  The theorems: a lookup returns a peer exactly when an approved route covers the destination, and
  then by longest prefix and least priority; in every reachable table the primary of a prefix is an
  approved advertiser at the best priority; lookups follow the primaries; an incumbent is kept.
\<close>

section \<open>Networks\<close>

record 'n ipnet_ops =
  is_v4 :: "'n \<Rightarrow> bool"
  prefix_len :: "'n \<Rightarrow> u8"
  net_addr :: "'n \<Rightarrow> ip_addr"
  net_contains :: "'n \<Rightarrow> ip_addr \<Rightarrow> bool"
  net_new :: "ip_addr \<Rightarrow> u8 \<Rightarrow> 'n option"

text \<open>The documented behaviour of \<open>IpNet\<close>: it is an address with a prefix length (compared
  as the pair), contains the addresses of its family that agree with it up to the prefix length,
  and is made from any length up to the width of the address.\<close>

definition ipnet_laws :: "'n ipnet_ops \<Rightarrow> bool" where
  "ipnet_laws ops \<longleftrightarrow>
     (\<forall>n. is_v4 ops n = is_ipv4 (net_addr ops n)) \<and>
     (\<forall>n m. net_addr ops n = net_addr ops m \<and> prefix_len ops n = prefix_len ops m \<longrightarrow> n = m) \<and>
     (\<forall>n ip. net_contains ops n ip \<longleftrightarrow> is_v4 ops n = is_ipv4 ip \<and>
        masked (octets (net_addr ops n)) (unat (prefix_len ops n)) =
        masked (octets ip) (unat (prefix_len ops n))) \<and>
     (\<forall>ip len. unat len \<le> (if is_ipv4 ip then 32 else 128) \<longrightarrow>
        (\<exists>n. net_new ops ip len = Some n \<and> net_addr ops n = ip \<and> prefix_len ops n = len))"

definition cidr_ops :: "(ip_addr \<times> u8) ipnet_ops" where
  "cidr_ops = \<lparr>is_v4 = (\<lambda>n. is_ipv4 (fst n)), prefix_len = snd, net_addr = fst,
     net_contains = (\<lambda>n ip. is_ipv4 (fst n) = is_ipv4 ip \<and>
        masked (octets (fst n)) (unat (snd n)) = masked (octets ip) (unat (snd n))),
     net_new = (\<lambda>ip len. if unat len \<le> (if is_ipv4 ip then 32 else 128) then Some (ip, len)
        else None)\<rparr>"

lemma cidr_ops_laws: "ipnet_laws cidr_ops"
  by (auto simp: ipnet_laws_def cidr_ops_def)

section \<open>The table\<close>

record 'n route =
  rt_prefix :: 'n
  rt_peer_id :: string
  rt_priority :: u32
  rt_approved :: bool
  rt_advertised :: bool

record 'n routing_table =
  ipv4_routes :: "'n route list"
  ipv6_routes :: "'n route list"
  rt_primaries :: "'n \<rightharpoonup> string"

definition rt_new :: "'n routing_table" where
  "rt_new = \<lparr>ipv4_routes = [], ipv6_routes = [], rt_primaries = Map.empty\<rparr>"

definition all_routes :: "'n routing_table \<Rightarrow> 'n route list" where
  "all_routes t = ipv4_routes t @ ipv6_routes t"

definition family_routes :: "'n ipnet_ops \<Rightarrow> 'n routing_table \<Rightarrow> 'n \<Rightarrow> 'n route list" where
  "family_routes ops t prefix = (if is_v4 ops prefix then ipv4_routes t else ipv6_routes t)"

definition route_order :: "'n ipnet_ops \<Rightarrow> 'n route \<Rightarrow> 'n route \<Rightarrow> ordering" where
  "route_order ops a b =
     then_with (cmp (prefix_len ops (rt_prefix b)) (prefix_len ops (rt_prefix a)))
       (then_with (cmp (rt_priority a) (rt_priority b)) (cmp (rt_peer_id a) (rt_peer_id b)))"

text \<open>\<open>Iterator::min\<close> over priorities.\<close>

fun iter_min :: "'a::linorder list \<Rightarrow> 'a option" where
  "iter_min [] = None"
| "iter_min (x # xs) = Some (fold min xs x)"

definition recompute_primary_for_prefix ::
  "'n ipnet_ops \<Rightarrow> 'n \<Rightarrow> 'n routing_table \<Rightarrow> 'n routing_table" where
  "recompute_primary_for_prefix ops prefix t =
     (let routes = family_routes ops t prefix in
      case iter_min (map rt_priority
          (filter (\<lambda>r. rt_prefix r = prefix \<and> rt_approved r) routes)) of
        None \<Rightarrow> t\<lparr>rt_primaries := (rt_primaries t)(prefix := None)\<rparr>
      | Some best_priority \<Rightarrow>
          if (case rt_primaries t prefix of
                Some current \<Rightarrow> (\<exists>r \<in> set routes. rt_prefix r = prefix \<and> rt_approved r \<and>
                    rt_priority r = best_priority \<and> rt_peer_id r = current)
              | None \<Rightarrow> False)
          then t
          else (case map_option rt_peer_id (min_by (\<lambda>a b. cmp (rt_peer_id a) (rt_peer_id b))
                  (filter (\<lambda>r. rt_prefix r = prefix \<and> rt_approved r \<and>
                     rt_priority r = best_priority) routes)) of
                Some peer_id \<Rightarrow> t\<lparr>rt_primaries := (rt_primaries t)(prefix \<mapsto> peer_id)\<rparr>
              | None \<Rightarrow> t\<lparr>rt_primaries := (rt_primaries t)(prefix := None)\<rparr>))"

definition add_route :: "'n ipnet_ops \<Rightarrow> 'n route \<Rightarrow> 'n routing_table \<Rightarrow> 'n routing_table" where
  "add_route ops route t =
     recompute_primary_for_prefix ops (rt_prefix route)
       (if is_v4 ops (rt_prefix route)
        then t\<lparr>ipv4_routes := sort_by (route_order ops) (ipv4_routes t @ [route])\<rparr>
        else t\<lparr>ipv6_routes := sort_by (route_order ops) (ipv6_routes t @ [route])\<rparr>)"

definition remove_peer_routes ::
  "'n ipnet_ops \<Rightarrow> string \<Rightarrow> 'n routing_table \<Rightarrow> 'n routing_table" where
  "remove_peer_routes ops peer_id t =
     (let affected_prefixes = map rt_prefix (filter (\<lambda>r. rt_peer_id r = peer_id) (all_routes t));
          t' = t\<lparr>ipv4_routes := filter (\<lambda>r. rt_peer_id r \<noteq> peer_id) (ipv4_routes t),
                 ipv6_routes := filter (\<lambda>r. rt_peer_id r \<noteq> peer_id) (ipv6_routes t)\<rparr>
      in fold (recompute_primary_for_prefix ops) affected_prefixes t')"

definition remove_route ::
  "'n ipnet_ops \<Rightarrow> 'n \<Rightarrow> string \<Rightarrow> 'n routing_table \<Rightarrow> 'n routing_table" where
  "remove_route ops prefix peer_id t =
     (let keep = (\<lambda>r. \<not> (rt_prefix r = prefix \<and> rt_peer_id r = peer_id)) in
      recompute_primary_for_prefix ops prefix
       (if is_v4 ops prefix
        then t\<lparr>ipv4_routes := filter keep (ipv4_routes t)\<rparr>
        else t\<lparr>ipv6_routes := filter keep (ipv6_routes t)\<rparr>))"

definition primary_route_for :: "'n routing_table \<Rightarrow> 'n \<Rightarrow> string option" where
  "primary_route_for t prefix = rt_primaries t prefix"

definition primary_precedence :: "'n routing_table \<Rightarrow> 'n route \<Rightarrow> 'n route \<Rightarrow> ordering" where
  "primary_precedence t a b =
     (if rt_prefix a \<noteq> rt_prefix b \<or> rt_priority a \<noteq> rt_priority b then Equal
      else case primary_route_for t (rt_prefix a) of
        Some primary \<Rightarrow>
          if primary = rt_peer_id a \<and> primary \<noteq> rt_peer_id b then Greater
          else if primary = rt_peer_id b \<and> primary \<noteq> rt_peer_id a then Less
          else Equal
      | None \<Rightarrow> Equal)"

definition route_precedence ::
  "'n ipnet_ops \<Rightarrow> 'n routing_table \<Rightarrow> 'n route \<Rightarrow> 'n route \<Rightarrow> ordering" where
  "route_precedence ops t a b =
     then_with (cmp (prefix_len ops (rt_prefix a)) (prefix_len ops (rt_prefix b)))
       (then_with (cmp (rt_priority b) (rt_priority a))
         (then_with (primary_precedence t a b) (cmp (rt_peer_id b) (rt_peer_id a))))"

definition lookup :: "'n ipnet_ops \<Rightarrow> 'n routing_table \<Rightarrow> ip_addr \<Rightarrow> string option" where
  "lookup ops t dst =
     (let routes = (if is_ipv4 dst then ipv4_routes t else ipv6_routes t) in
      map_option rt_peer_id (max_by (route_precedence ops t)
        (filter (\<lambda>r. rt_approved r \<and> net_contains ops (rt_prefix r) dst) routes)))"

definition routes_for_peer :: "'n routing_table \<Rightarrow> string \<Rightarrow> 'n route list" where
  "routes_for_peer t peer_id = filter (\<lambda>r. rt_peer_id r = peer_id) (all_routes t)"

definition approved_routes :: "'n routing_table \<Rightarrow> 'n route list" where
  "approved_routes t = filter rt_approved (all_routes t)"

text \<open>The loop over the mutable routes, with the flag that a route was found.\<close>

definition set_route_approved ::
  "'n ipnet_ops \<Rightarrow> 'n \<Rightarrow> string \<Rightarrow> bool \<Rightarrow> 'n routing_table \<Rightarrow> 'n routing_table \<times> bool" where
  "set_route_approved ops prefix peer_id approved t =
     (let hit = (\<lambda>r. rt_prefix r = prefix \<and> rt_peer_id r = peer_id \<and> rt_advertised r);
          upd = map (\<lambda>r. if hit r then r\<lparr>rt_approved := approved\<rparr> else r);
          found = (\<exists>r \<in> set (family_routes ops t prefix). hit r);
          t' = (if is_v4 ops prefix then t\<lparr>ipv4_routes := upd (ipv4_routes t)\<rparr>
                else t\<lparr>ipv6_routes := upd (ipv6_routes t)\<rparr>)
      in (if found then recompute_primary_for_prefix ops prefix t' else t', found))"

definition has_conflict ::
  "'n ipnet_ops \<Rightarrow> 'n routing_table \<Rightarrow> 'n \<Rightarrow> string \<Rightarrow> 'n route option" where
  "has_conflict ops t prefix peer_id =
     find (\<lambda>r. prefix_len ops (rt_prefix r) = prefix_len ops prefix \<and> rt_peer_id r \<noteq> peer_id \<and>
         (net_contains ops (rt_prefix r) (net_addr ops prefix) \<or>
          net_contains ops prefix (net_addr ops (rt_prefix r))))
       (family_routes ops t prefix)"

definition rt_len :: "'n routing_table \<Rightarrow> nat" where
  "rt_len t = length (ipv4_routes t) + length (ipv6_routes t)"

definition rt_is_empty :: "'n routing_table \<Rightarrow> bool" where
  "rt_is_empty t = (ipv4_routes t = [] \<and> ipv6_routes t = [])"

text \<open>\<open>None\<close> is the panic of the \<open>unwrap\<close>.\<close>

definition host_route :: "'n ipnet_ops \<Rightarrow> ip_addr \<Rightarrow> 'n option" where
  "host_route ops ip = (if is_ipv4 ip then net_new ops ip 32 else net_new ops ip 128)"

section \<open>Election\<close>

text \<open>The approved routes of a prefix, and what the election owes them: a prefix without any has
  no primary; otherwise the primary is a peer of one at the best priority.\<close>

definition approved_for :: "'n ipnet_ops \<Rightarrow> 'n routing_table \<Rightarrow> 'n \<Rightarrow> 'n route set" where
  "approved_for ops t prefix =
     {r \<in> set (family_routes ops t prefix). rt_prefix r = prefix \<and> rt_approved r}"

definition best_peers :: "'n ipnet_ops \<Rightarrow> 'n routing_table \<Rightarrow> 'n \<Rightarrow> string set" where
  "best_peers ops t prefix = {rt_peer_id r | r. r \<in> approved_for ops t prefix \<and>
     (\<forall>q \<in> approved_for ops t prefix. rt_priority r \<le> rt_priority q)}"

definition elected :: "string set \<Rightarrow> string option \<Rightarrow> string option" where
  "elected peers current =
     (if peers = {} then None
      else if \<exists>c. current = Some c \<and> c \<in> peers then current
      else Some (Min peers))"

lemma fold_min_Min: "fold min xs (x :: 'a::linorder) = Min (insert x (set xs))"
  by (metis Min.set_eq_fold list.simps(15))

lemma iter_min_eq: "iter_min xs = (if xs = [] then None else Some (Min (set xs)))"
  by (cases xs) (simp_all add: fold_min_Min)

lemma finite_approved_for [simp]: "finite (approved_for ops t p)"
  by (simp add: approved_for_def)

lemma finite_best_peers [simp]: "finite (best_peers ops t p)"
  by (rule finite_subset [of _ "rt_peer_id ` approved_for ops t p"]) (auto simp: best_peers_def)

lemma best_peers_empty_iff: "best_peers ops t p = {} \<longleftrightarrow> approved_for ops t p = {}"
proof (rule iffI, rule ccontr)
  assume empty: "best_peers ops t p = {}" and ne: "approved_for ops t p \<noteq> {}"
  let ?m = "Min (rt_priority ` approved_for ops t p)"
  have "?m \<in> rt_priority ` approved_for ops t p"
    using ne by (intro Min_in) auto
  then obtain r where r: "r \<in> approved_for ops t p" "rt_priority r = ?m" by force
  then have "\<forall>q \<in> approved_for ops t p. rt_priority r \<le> rt_priority q" by simp
  with r(1) have "rt_peer_id r \<in> best_peers ops t p" unfolding best_peers_def by blast
  with empty show False by simp
qed (auto simp: best_peers_def)

lemma min_by_obtain:
  assumes "xs \<noteq> []"
  obtains m where "min_by c xs = Some m"
  using assms by (cases xs) auto

lemma recompute_elected:
  "recompute_primary_for_prefix ops p t =
     t\<lparr>rt_primaries := (rt_primaries t)(p := elected (best_peers ops t p) (rt_primaries t p))\<rparr>"
proof (cases "approved_for ops t p = {}")
  case True
  then have "filter (\<lambda>r. rt_prefix r = p \<and> rt_approved r) (family_routes ops t p) = []"
    by (auto simp: approved_for_def filter_empty_conv)
  with True show ?thesis
    by (simp add: recompute_primary_for_prefix_def elected_def best_peers_empty_iff)
next
  case False
  define best where "best = Min (rt_priority ` approved_for ops t p)"
  define bs where "bs = filter (\<lambda>r. rt_prefix r = p \<and> rt_approved r \<and> rt_priority r = best)
    (family_routes ops t p)"
  have min: "iter_min (map rt_priority
      (filter (\<lambda>r. rt_prefix r = p \<and> rt_approved r) (family_routes ops t p))) = Some best"
    using False by (auto simp: iter_min_eq best_def approved_for_def filter_empty_conv)
  have le: "r \<in> approved_for ops t p \<Longrightarrow> best \<le> rt_priority r" for r
    by (simp add: best_def)
  have "best \<in> rt_priority ` approved_for ops t p"
    unfolding best_def using False by (intro Min_in) auto
  then have peers: "best_peers ops t p = rt_peer_id ` set bs"
    using le unfolding best_peers_def bs_def approved_for_def
    by (auto intro!: antisym simp: image_iff)
  have ne: "best_peers ops t p \<noteq> {}" using False by (simp add: best_peers_empty_iff)
  then obtain b where b: "min_by (\<lambda>a b. cmp (rt_peer_id a) (rt_peer_id b)) bs = Some b"
    using min_by_obtain [of bs] unfolding peers by auto
  have "Min (best_peers ops t p) = rt_peer_id b"
    unfolding peers using min_by_cmp [OF b] by (intro Min_eqI) auto
  moreover have "(\<exists>r \<in> set (family_routes ops t p). rt_prefix r = p \<and> rt_approved r \<and>
      rt_priority r = best \<and> rt_peer_id r = c) \<longleftrightarrow> c \<in> best_peers ops t p" for c
    unfolding peers by (auto simp: bs_def)
  ultimately show ?thesis
    using ne b unfolding recompute_primary_for_prefix_def Let_def min option.case bs_def [symmetric]
    by (cases "rt_primaries t p") (simp_all add: elected_def fun_upd_idem)
qed

lemma elected_idem [simp]: "finite peers \<Longrightarrow> elected peers (elected peers c) = elected peers c"
  by (auto simp: elected_def)

lemma best_peers_cong:
  "approved_for ops t p = approved_for ops t' p \<Longrightarrow> best_peers ops t p = best_peers ops t' p"
  by (simp add: best_peers_def)

lemma family_routes_primaries [simp]:
  "family_routes ops (t\<lparr>rt_primaries := m\<rparr>) p = family_routes ops t p"
  by (simp add: family_routes_def)

lemma approved_for_primaries [simp]:
  "approved_for ops (t\<lparr>rt_primaries := m\<rparr>) p = approved_for ops t p"
  by (simp add: approved_for_def)

lemma best_peers_primaries [simp]:
  "best_peers ops (t\<lparr>rt_primaries := m\<rparr>) p = best_peers ops t p"
  by (rule best_peers_cong) simp

lemma recompute_fold:
  "fold (recompute_primary_for_prefix ops) ps t =
     t\<lparr>rt_primaries := (\<lambda>q. if q \<in> set ps then elected (best_peers ops t q) (rt_primaries t q)
       else rt_primaries t q)\<rparr>"
proof (induction ps arbitrary: t)
  case (Cons p ps)
  show ?case
    unfolding fold_simps recompute_elected [of ops p] Cons.IH by (auto intro!: arg_cong [of _ _ "\<lambda>m. t\<lparr>rt_primaries := m\<rparr>"])
qed simp

section \<open>The invariant\<close>

text \<open>Routes are filed by family and in order, and every primary is settled.\<close>

definition settled :: "string set \<Rightarrow> string option \<Rightarrow> bool" where
  "settled peers current = (case current of None \<Rightarrow> peers = {} | Some c \<Rightarrow> c \<in> peers)"

definition filed :: "'n ipnet_ops \<Rightarrow> 'n routing_table \<Rightarrow> bool" where
  "filed ops t \<longleftrightarrow>
     (\<forall>r \<in> set (ipv4_routes t). is_v4 ops (rt_prefix r)) \<and>
     (\<forall>r \<in> set (ipv6_routes t). \<not> is_v4 ops (rt_prefix r)) \<and>
     sorted_wrt (\<lambda>a b. route_order ops a b \<noteq> Greater) (ipv4_routes t) \<and>
     sorted_wrt (\<lambda>a b. route_order ops a b \<noteq> Greater) (ipv6_routes t)"

definition rt_inv :: "'n ipnet_ops \<Rightarrow> 'n routing_table \<Rightarrow> bool" where
  "rt_inv ops t \<longleftrightarrow> filed ops t \<and> (\<forall>p. settled (best_peers ops t p) (rt_primaries t p))"

lemma settled_elected [simp]: "finite peers \<Longrightarrow> settled peers (elected peers c)"
  by (auto simp: settled_def elected_def)

lemma elected_settled: "settled peers c \<Longrightarrow> elected peers c = c"
  by (auto simp: settled_def elected_def split: option.splits)

lemma then_with_cmp: "then_with (cmp a b) (cmp c d) = cmp (a, c) (b, d)"
  by (auto simp: cmp_def)

lemma cmp_word_neg: "cmp (a :: 'l::len word) b = cmp (- uint b) (- uint a)"
  by (auto simp: cmp_def word_less_def word_uint_eq_iff)

lemma route_order_key:
  "route_order ops a b =
     cmp (- uint (prefix_len ops (rt_prefix a)), rt_priority a, rt_peer_id a)
       (- uint (prefix_len ops (rt_prefix b)), rt_priority b, rt_peer_id b)"
  by (simp add: route_order_def then_with_cmp cmp_word_neg [of "prefix_len ops _"])

interpretation route_sorting: comparator_on UNIV "route_order ops"
proof -
  have key: "route_order ops = (\<lambda>a b.
     cmp (- uint (prefix_len ops (rt_prefix a)), rt_priority a, rt_peer_id a)
       (- uint (prefix_len ops (rt_prefix b)), rt_priority b, rt_peer_id b))"
    by (intro ext) (rule route_order_key)
  show "comparator_on UNIV (route_order ops)"
    unfolding key by (rule comparator_on_key)
qed

text \<open>The form of every operation: the lists are edited and the prefixes whose approved routes may
  have changed are elected again.\<close>

definition reelected :: "'n ipnet_ops \<Rightarrow> 'n routing_table \<Rightarrow> 'n routing_table \<Rightarrow> bool" where
  "reelected ops t t' \<longleftrightarrow> (\<forall>p. rt_primaries t' p = elected (best_peers ops t' p) (rt_primaries t p))"

lemma reelectedI:
  assumes "rt_inv ops t" "rt_primaries t1 = rt_primaries t"
    and "\<And>q. q \<notin> set ps \<Longrightarrow> approved_for ops t1 q = approved_for ops t q"
    and "t' = fold (recompute_primary_for_prefix ops) ps t1"
  shows "reelected ops t t'"
  unfolding reelected_def
proof
  fix q
  show "rt_primaries t' q = elected (best_peers ops t' q) (rt_primaries t q)"
  proof (cases "q \<in> set ps")
    case True
    then show ?thesis by (simp add: assms(2,4) recompute_fold)
  next
    case False
    then have "best_peers ops t1 q = best_peers ops t q"
      by (intro best_peers_cong assms(3))
    moreover have "settled (best_peers ops t q) (rt_primaries t q)"
      using assms(1) by (simp add: rt_inv_def)
    ultimately show ?thesis
      using False by (simp add: assms(2,4) recompute_fold elected_settled)
  qed
qed

lemma reelected_inv: "reelected ops t t' \<Longrightarrow> filed ops t' \<Longrightarrow> rt_inv ops t'"
  by (simp add: rt_inv_def reelected_def)

lemma filed_recompute [simp]:
  "filed ops (fold (recompute_primary_for_prefix ops) ps t) \<longleftrightarrow> filed ops t"
  "filed ops (recompute_primary_for_prefix ops p t) \<longleftrightarrow> filed ops t"
  by (simp_all add: filed_def recompute_fold recompute_elected)

section \<open>Every operation re-elects\<close>

lemma add_route_reelected:
  assumes "rt_inv ops t"
  shows "reelected ops t (add_route ops r t) \<and> filed ops (add_route ops r t)"
proof
  show "reelected ops t (add_route ops r t)"
    unfolding add_route_def
    by (rule reelectedI [OF assms, where ps = "[rt_prefix r]"])
      (auto simp: approved_for_def family_routes_def)
  show "filed ops (add_route ops r t)"
    using assms unfolding add_route_def rt_inv_def filed_recompute
    by (simp add: filed_def route_sorting.sorted_sort_by)
qed

lemma remove_route_reelected:
  assumes "rt_inv ops t"
  shows "reelected ops t (remove_route ops p c t) \<and> filed ops (remove_route ops p c t)"
proof
  show "reelected ops t (remove_route ops p c t)"
    unfolding remove_route_def Let_def
    by (rule reelectedI [OF assms, where ps = "[p]"]) (auto simp: approved_for_def family_routes_def)
  show "filed ops (remove_route ops p c t)"
    using assms unfolding remove_route_def rt_inv_def Let_def filed_recompute
    by (auto simp: filed_def intro: sorted_wrt_filter)
qed

lemma remove_peer_routes_reelected:
  assumes "rt_inv ops t"
  shows "reelected ops t (remove_peer_routes ops c t) \<and> filed ops (remove_peer_routes ops c t)"
proof
  show "reelected ops t (remove_peer_routes ops c t)"
    unfolding remove_peer_routes_def Let_def
    by (rule reelectedI [OF assms _ _ refl]) (auto simp: approved_for_def family_routes_def all_routes_def)
  show "filed ops (remove_peer_routes ops c t)"
    using assms unfolding remove_peer_routes_def rt_inv_def Let_def filed_recompute
    by (auto simp: filed_def intro: sorted_wrt_filter)
qed

lemma route_order_approved [simp]:
  "route_order ops (a\<lparr>rt_approved := x\<rparr>) b = route_order ops a b"
  "route_order ops a (b\<lparr>rt_approved := x\<rparr>) = route_order ops a b"
  by (simp_all add: route_order_def)

lemma approved_for_edit:
  assumes "\<And>r. r \<in> set (family_routes ops t q) \<Longrightarrow> rt_prefix (f r) = rt_prefix r"
    and "\<And>r. r \<in> set (family_routes ops t q) \<Longrightarrow> rt_prefix r = q \<Longrightarrow> f r = r"
    and "family_routes ops t1 q = family_routes ops t q \<or>
      family_routes ops t1 q = map f (family_routes ops t q)"
  shows "approved_for ops t1 q = approved_for ops t q"
proof -
  have "filter (\<lambda>r. rt_prefix r = q \<and> rt_approved r) (map f rs) =
      filter (\<lambda>r. rt_prefix r = q \<and> rt_approved r) rs"
    if "\<And>r. r \<in> set rs \<Longrightarrow> rt_prefix (f r) = rt_prefix r"
      "\<And>r. r \<in> set rs \<Longrightarrow> rt_prefix r = q \<Longrightarrow> f r = r" for rs
    using that
  proof (induction rs)
    case (Cons r rs)
    then show ?case by (cases "rt_prefix r = q") simp_all
  qed simp
  from this [OF assms(1,2)] assms(3) have
    "filter (\<lambda>r. rt_prefix r = q \<and> rt_approved r) (family_routes ops t1 q) =
     filter (\<lambda>r. rt_prefix r = q \<and> rt_approved r) (family_routes ops t q)"
    by (elim disjE) (simp_all only:)
  then have "set (filter (\<lambda>r. rt_prefix r = q \<and> rt_approved r) (family_routes ops t1 q)) =
     set (filter (\<lambda>r. rt_prefix r = q \<and> rt_approved r) (family_routes ops t q))" by simp
  then show ?thesis by (simp add: approved_for_def)
qed

lemma set_route_approved_reelected:
  fixes ops :: "'n ipnet_ops"
  assumes "rt_inv ops t" "set_route_approved ops p c a t = (t', found)"
  shows "reelected ops t t' \<and> filed ops t'"
proof -
  define hit :: "'n route \<Rightarrow> bool" where "hit = (\<lambda>r. rt_prefix r = p \<and> rt_peer_id r = c \<and> rt_advertised r)"
  define f where "f = (\<lambda>r. if hit r then r\<lparr>rt_approved := a\<rparr> else r)"
  define t1 where "t1 = (if is_v4 ops p then t\<lparr>ipv4_routes := map f (ipv4_routes t)\<rparr>
             else t\<lparr>ipv6_routes := map f (ipv6_routes t)\<rparr>)"
  have t': "t' = fold (recompute_primary_for_prefix ops) (if found then [p] else []) t1"
    and found: "found \<longleftrightarrow> (\<exists>r \<in> set (family_routes ops t p). hit r)"
    using assms(2) by (auto simp: set_route_approved_def Let_def hit_def f_def t1_def)
  have f: "rt_prefix (f r) = rt_prefix r" "route_order ops (f r) q = route_order ops r q"
    "route_order ops q (f r) = route_order ops q r" for q r
    by (simp_all add: f_def)
  have "filed ops t1"
    using assms(1) unfolding rt_inv_def
    by (simp add: filed_def t1_def f sorted_wrt_map)
  moreover have "reelected ops t t'"
  proof (rule reelectedI [OF assms(1) _ _ t'])
    show "rt_primaries t1 = rt_primaries t" by (simp add: t1_def)
    fix q assume q: "q \<notin> set (if found then [p] else [])"
    show "approved_for ops t1 q = approved_for ops t q"
    proof (rule approved_for_edit [where f = f])
      show "r \<in> set (family_routes ops t q) \<Longrightarrow> rt_prefix r = q \<Longrightarrow> f r = r" for r
        using q found by (cases "q = p") (auto simp: f_def hit_def split: if_splits)
      show "family_routes ops t1 q = family_routes ops t q \<or>
          family_routes ops t1 q = map f (family_routes ops t q)"
        by (simp add: family_routes_def t1_def)
    qed (simp add: f)
  qed
  ultimately show ?thesis by (simp add: t')
qed

section \<open>Runs\<close>

inductive rt_step :: "'n ipnet_ops \<Rightarrow> 'n routing_table \<Rightarrow> 'n routing_table \<Rightarrow> bool" for ops where
  step_add: "rt_step ops t (add_route ops r t)"
| step_remove: "rt_step ops t (remove_route ops p c t)"
| step_remove_peer: "rt_step ops t (remove_peer_routes ops c t)"
| step_approve: "set_route_approved ops p c a t = (t', found) \<Longrightarrow> rt_step ops t t'"



lemma rt_step_reelected:
  assumes "rt_step ops t t'" "rt_inv ops t"
  shows "reelected ops t t' \<and> filed ops t'"
  using assms(1)
proof cases
  case step_approve
  with assms(2) show ?thesis by (intro set_route_approved_reelected)
qed (simp_all add: assms(2) add_route_reelected remove_route_reelected remove_peer_routes_reelected)

lemma rt_new_inv: "rt_inv ops rt_new"
  by (simp add: rt_inv_def filed_def rt_new_def settled_def best_peers_def approved_for_def
      family_routes_def)

interpretation table: machine rt_new "rt_step ops" "rt_inv ops"
proof unfold_locales
  show "rt_inv ops rt_new" by (rule rt_new_inv)
  fix s t assume "rt_inv ops s" "rt_step ops s t"
  then have "reelected ops s t \<and> filed ops t" by (intro rt_step_reelected)
  then show "rt_inv ops t" by (intro reelected_inv [of ops s]) simp_all
qed

section \<open>Matching routes\<close>

definition matching :: "'n ipnet_ops \<Rightarrow> 'n routing_table \<Rightarrow> ip_addr \<Rightarrow> 'n route list" where
  "matching ops t dst = filter (\<lambda>r. rt_approved r \<and> net_contains ops (rt_prefix r) dst)
     (if is_ipv4 dst then ipv4_routes t else ipv6_routes t)"

lemma lookup_matching:
  "lookup ops t dst = map_option rt_peer_id (max_by (route_precedence ops t) (matching ops t dst))"
  by (simp add: lookup_def matching_def Let_def)

lemma set_matching:
  assumes "filed ops t" "ipnet_laws ops"
  shows "set (matching ops t dst) =
    {r \<in> set (all_routes t). rt_approved r \<and> net_contains ops (rt_prefix r) dst}"
  using assms unfolding matching_def filed_def ipnet_laws_def all_routes_def by auto

lemma approved_for_all:
  "filed ops t \<Longrightarrow> approved_for ops t p = {r \<in> set (all_routes t). rt_prefix r = p \<and> rt_approved r}"
  by (auto simp: approved_for_def family_routes_def all_routes_def filed_def)

lemma precedence_respects_length:
  "respects_key (route_precedence ops t)
     (\<lambda>r. (uint (prefix_len ops (rt_prefix r)), - uint (rt_priority r))) S"
  by (auto simp: respects_key_def route_precedence_def word_less_def word_uint_eq_iff)

text \<open>A network without host bits, as the control plane distributes them.\<close>

definition truncated :: "'n ipnet_ops \<Rightarrow> 'n \<Rightarrow> bool" where
  "truncated ops n = (masked (octets (net_addr ops n)) (unat (prefix_len ops n)) = octets (net_addr ops n))"

lemma octets_inject: "is_ipv4 a = is_ipv4 b \<Longrightarrow> octets a = octets b \<Longrightarrow> a = b"
  by (cases a; cases b) simp_all

lemma same_length_same_net:
  assumes "ipnet_laws ops" "truncated ops n" "truncated ops m"
    and "net_contains ops n ip" "net_contains ops m ip" "prefix_len ops n = prefix_len ops m"
  shows "n = m"
proof -
  have "octets (net_addr ops n) = octets (net_addr ops m)" "is_v4 ops n = is_v4 ops m"
    using assms unfolding ipnet_laws_def truncated_def by metis+
  then have "net_addr ops n = net_addr ops m"
    using assms(1) unfolding ipnet_laws_def by (metis octets_inject)
  with assms(1,6) show ?thesis unfolding ipnet_laws_def by blast
qed

lemma primary_precedence_same:
  assumes "rt_prefix x = rt_prefix y" "rt_priority x = rt_priority y"
  shows "primary_precedence t x y =
    (let px = rt_primaries t (rt_prefix x) = Some (rt_peer_id x);
         py = rt_primaries t (rt_prefix y) = Some (rt_peer_id y)
     in if px \<and> \<not> py then Greater else if py \<and> \<not> px then Less else Equal)"
proof -
  have "(case c of Some p \<Rightarrow> if p = a \<and> p \<noteq> b then Greater else if p = b \<and> p \<noteq> a then Less else Equal
      | None \<Rightarrow> Equal) =
    (if c = Some a \<and> \<not> c = Some b then Greater else if c = Some b \<and> \<not> c = Some a then Less else Equal)"
    for a b :: string and c
  proof (cases c)
    case (Some p)
    then show ?thesis by (simp only: option.case option.inject)
  qed simp
  then show ?thesis
    unfolding primary_precedence_def primary_route_for_def Let_def assms by (simp only: simp_thms if_False)
qed

lemma precedence_respects_primary:
  assumes "ipnet_laws ops" "\<forall>r \<in> S. truncated ops (rt_prefix r) \<and> net_contains ops (rt_prefix r) dst"
  shows "respects_key (route_precedence ops t)
     (\<lambda>r. (uint (prefix_len ops (rt_prefix r)), - uint (rt_priority r),
        rt_primaries t (rt_prefix r) = Some (rt_peer_id r))) S"
proof -
  have same: "rt_prefix x = rt_prefix y" if "x \<in> S" "y \<in> S"
    "prefix_len ops (rt_prefix x) = prefix_len ops (rt_prefix y)" for x y
    using that assms(2) by (intro same_length_same_net [OF assms(1), where ip = dst]) simp_all
  show ?thesis
    unfolding respects_key_def
  proof (intro ballI)
    fix x y assume "x \<in> S" "y \<in> S"
    then have pre: "prefix_len ops (rt_prefix x) = prefix_len ops (rt_prefix y) \<Longrightarrow> rt_prefix x = rt_prefix y"
      by (rule same)
    let ?k = "\<lambda>r. (uint (prefix_len ops (rt_prefix r)), - uint (rt_priority r),
        rt_primaries t (rt_prefix r) = Some (rt_peer_id r))"
    consider "prefix_len ops (rt_prefix x) \<noteq> prefix_len ops (rt_prefix y)"
      | "rt_prefix x = rt_prefix y" "rt_priority x \<noteq> rt_priority y"
      | "rt_prefix x = rt_prefix y" "rt_priority x = rt_priority y"
      using pre by blast
    then show "if route_precedence ops t x y = Greater then ?k y \<le> ?k x else ?k x \<le> ?k y"
    proof cases
      case 1
      then show ?thesis
        by (simp add: route_precedence_def word_less_def word_uint_eq_iff)
    next
      case 2
      then show ?thesis
        by (simp add: route_precedence_def word_less_def word_uint_eq_iff)
    next
      case 3
      then show ?thesis
        unfolding route_precedence_def primary_precedence_same [OF 3] Let_def
        by (cases "rt_primaries t (rt_prefix x) = Some (rt_peer_id x)";
          cases "rt_primaries t (rt_prefix y) = Some (rt_peer_id y)") simp_all
    qed
  qed
qed

lemma settled_simps [simp]:
  "settled peers None \<longleftrightarrow> peers = {}" "settled peers (Some c) \<longleftrightarrow> c \<in> peers"
  by (simp_all add: settled_def)

lemma rt_inv_settled: "rt_inv ops t \<Longrightarrow> settled (best_peers ops t p) (rt_primaries t p)"
  by (simp add: rt_inv_def)

section \<open>Properties\<close>

text \<open>A table with two peers for \<open>10.0.0.0/8\<close> and one for \<open>10.1.0.0/16\<close>, as the
  operations build it.\<close>

definition example_route :: "u8 list \<Rightarrow> u8 \<Rightarrow> string \<Rightarrow> u32 \<Rightarrow> (ip_addr \<times> u8) route" where
  "example_route os len peer prio = \<lparr>rt_prefix = (V4 os, len), rt_peer_id = peer, rt_priority = prio,
     rt_approved = True, rt_advertised = True\<rparr>"

definition example_table :: "(ip_addr \<times> u8) routing_table" where
  "example_table = add_route cidr_ops (example_route [10, 1, 0, 0] 16 ''c'' 0)
     (add_route cidr_ops (example_route [10, 0, 0, 0] 8 ''a'' 5)
     (add_route cidr_ops (example_route [10, 0, 0, 0] 8 ''b'' 5) rt_new))"

lemma steps_add: "rtranclp (rt_step ops) s t \<Longrightarrow> rtranclp (rt_step ops) s (add_route ops r t)"
  by (erule rtranclp.rtrancl_into_rtrancl) (rule step_add)

lemma example_reachable: "rtranclp (rt_step cidr_ops) rt_new example_table"
  unfolding example_table_def
  by (intro steps_add rtranclp.rtrancl_refl)

lemma example_inv: "rt_inv cidr_ops example_table"
  by (rule table.inv_reachable [OF example_reachable])

lemma example_filed: "filed cidr_ops example_table"
  using example_inv by (simp add: rt_inv_def)

text \<open>C15. In every table that a run of additions, removals and approvals builds, the primary of
  a prefix is a peer with an approved route for exactly that prefix at the least priority number,
  and a prefix has no primary exactly when none of its routes is approved.\<close>

theorem reachable_primary_valid:
  assumes "rtranclp (rt_step ops) rt_new t"
  shows "(primary_route_for t p = None \<longleftrightarrow> approved_for ops t p = {}) \<and>
    (primary_route_for t p = Some c \<longrightarrow>
      (\<exists>r \<in> set (all_routes t). rt_prefix r = p \<and> rt_peer_id r = c \<and> rt_approved r \<and>
        (\<forall>q \<in> set (all_routes t). rt_prefix q = p \<and> rt_approved q \<longrightarrow> rt_priority r \<le> rt_priority q)))"
proof -
  have inv: "rt_inv ops t" using assms by (rule table.inv_reachable)
  then have "settled (best_peers ops t p) (rt_primaries t p)" by (simp add: rt_inv_def)
  moreover have "approved_for ops t p = {r \<in> set (all_routes t). rt_prefix r = p \<and> rt_approved r}"
    using inv by (simp add: approved_for_all rt_inv_def)
  ultimately show ?thesis
    using best_peers_empty_iff [of ops t p]
    by (auto simp: settled_def primary_route_for_def best_peers_def split: option.splits)
qed

theorem reachable_primary_valid_witness:
  "primary_route_for example_table (V4 [10, 0, 0, 0], 8) = Some ''b'' \<and>
   (\<exists>r \<in> set (all_routes example_table). rt_prefix r = (V4 [10, 0, 0, 0], 8) \<and> rt_peer_id r = ''b'')"
proof -
  have "primary_route_for example_table (V4 [10, 0, 0, 0], 8) = Some ''b''" by code_simp
  with reachable_primary_valid [OF example_reachable, of "(V4 [10, 0, 0, 0], 8)" "''b''"]
  show ?thesis by blast
qed

text \<open>Re-election never moves a prefix away from its primary while the primary keeps an
  approved route at the best priority, whatever operation runs.\<close>

theorem incumbent_kept:
  assumes "rt_inv ops t" "rt_step ops t t'" "primary_route_for t p = Some c"
    and "c \<in> best_peers ops t' p"
  shows "primary_route_for t' p = Some c"
  using rt_step_reelected [OF assms(2,1)] assms(3,4)
  by (auto simp: reelected_def elected_def primary_route_for_def)

theorem incumbent_kept_witness:
  "primary_route_for (add_route cidr_ops (example_route [10, 0, 0, 0] 8 ''a'' 5) example_table)
     (V4 [10, 0, 0, 0], 8) = Some ''b''"
proof (rule incumbent_kept [OF example_inv step_add])
  let ?t = "add_route cidr_ops (example_route [10, 0, 0, 0] 8 ''a'' 5) example_table"
  let ?p = "(V4 [10, 0, 0, 0], 8) :: ip_addr \<times> u8"
  show "primary_route_for example_table ?p = Some ''b''" by code_simp
  have "\<forall>q \<in> set (family_routes cidr_ops ?t ?p). rt_prefix q = ?p \<longrightarrow> rt_priority q = 5"
    "example_route [10, 0, 0, 0] 8 ''b'' 5 \<in> set (family_routes cidr_ops ?t ?p)"
    by code_simp+
  then have "example_route [10, 0, 0, 0] 8 ''b'' 5 \<in> approved_for cidr_ops ?t ?p"
    "\<forall>q \<in> approved_for cidr_ops ?t ?p. rt_priority q = 5"
    by (simp_all add: approved_for_def) (simp add: example_route_def)
  then show "''b'' \<in> best_peers cidr_ops ?t ?p"
    unfolding best_peers_def
    by (intro CollectI exI [of _ "example_route [10, 0, 0, 0] 8 ''b'' 5"])
      (simp add: example_route_def)
qed

lemma lookup_best:
  assumes "filed ops t" "ipnet_laws ops"
  shows "(lookup ops t dst = None \<longleftrightarrow>
      \<not> (\<exists>r \<in> set (all_routes t). rt_approved r \<and> net_contains ops (rt_prefix r) dst)) \<and>
    (lookup ops t dst = Some c \<longrightarrow>
      (\<exists>r \<in> set (all_routes t). rt_peer_id r = c \<and> rt_approved r \<and> net_contains ops (rt_prefix r) dst \<and>
        (\<forall>q \<in> set (all_routes t). rt_approved q \<and> net_contains ops (rt_prefix q) dst \<longrightarrow>
          prefix_len ops (rt_prefix q) < prefix_len ops (rt_prefix r) \<or>
          prefix_len ops (rt_prefix q) = prefix_len ops (rt_prefix r) \<and> rt_priority r \<le> rt_priority q)))"
proof -
  note ms = set_matching [OF assms, of dst]
  note best = max_by_key [OF precedence_respects_length]
  show ?thesis
  proof (cases "max_by (route_precedence ops t) (matching ops t dst)")
    case None
    then have "set (matching ops t dst) = {}" by simp
    with None show ?thesis unfolding lookup_matching ms by auto
  next
    case (Some m)
    have mem: "m \<in> set (matching ops t dst)" using best [OF Some] ..
    have "prefix_len ops (rt_prefix q) < prefix_len ops (rt_prefix m) \<or>
        prefix_len ops (rt_prefix q) = prefix_len ops (rt_prefix m) \<and> rt_priority m \<le> rt_priority q"
      if "q \<in> set (matching ops t dst)" for q
    proof -
      have "(uint (prefix_len ops (rt_prefix q)), - uint (rt_priority q)) \<le>
          (uint (prefix_len ops (rt_prefix m)), - uint (rt_priority m))"
        using best [OF Some] that by blast
      then show ?thesis by (simp add: word_less_def word_le_def word_uint_eq_iff) linarith
    qed
    with mem show ?thesis
      unfolding lookup_matching Some ms by (intro conjI impI bexI [of _ m]) auto
  qed
qed

text \<open>C2. Longest-prefix match: a lookup finds a peer exactly when an approved route covers the
  destination, and the peer's route has the greatest prefix length of those routes and, among
  routes of that length, the least priority number.\<close>

theorem lookup_longest_prefix:
  assumes "filed ops t" "ipnet_laws ops"
  shows "(lookup ops t dst = None \<longleftrightarrow>
      \<not> (\<exists>r \<in> set (all_routes t). rt_approved r \<and> net_contains ops (rt_prefix r) dst)) \<and>
    (lookup ops t dst = Some c \<longrightarrow>
      (\<exists>r \<in> set (all_routes t). rt_peer_id r = c \<and> rt_approved r \<and> net_contains ops (rt_prefix r) dst \<and>
        (\<forall>q \<in> set (all_routes t). rt_approved q \<and> net_contains ops (rt_prefix q) dst \<longrightarrow>
          prefix_len ops (rt_prefix q) < prefix_len ops (rt_prefix r) \<or>
          prefix_len ops (rt_prefix q) = prefix_len ops (rt_prefix r) \<and> rt_priority r \<le> rt_priority q)))"
  using assms by (rule lookup_best)

theorem lookup_longest_prefix_witness:
  "lookup cidr_ops example_table (V4 [10, 1, 2, 3]) = Some ''c'' \<and>
   lookup cidr_ops example_table (V4 [11, 1, 2, 3]) = None \<and>
   (\<exists>r \<in> set (all_routes example_table). rt_peer_id r = ''c'' \<and>
     net_contains cidr_ops (rt_prefix r) (V4 [10, 1, 2, 3]))"
proof -
  have "lookup cidr_ops example_table (V4 [10, 1, 2, 3]) = Some ''c''"
    "lookup cidr_ops example_table (V4 [11, 1, 2, 3]) = None" by code_simp+
  with lookup_longest_prefix [OF example_filed cidr_ops_laws, of "V4 [10, 1, 2, 3]" "''c''"]
  show ?thesis by blast
qed

text \<open>C24. Lookups follow the election: in a table of networks without host bits, the peer a
  lookup returns is the primary of a prefix that covers the destination, and that prefix is the
  longest one with an approved route that does.\<close>

theorem lookup_follows_primary:
  assumes "rt_inv ops t" "ipnet_laws ops" "\<forall>r \<in> set (all_routes t). truncated ops (rt_prefix r)"
    and "lookup ops t dst = Some c"
  shows "\<exists>p. primary_route_for t p = Some c \<and> net_contains ops p dst \<and>
    (\<forall>q \<in> set (all_routes t). rt_approved q \<and> net_contains ops (rt_prefix q) dst \<longrightarrow>
      prefix_len ops (rt_prefix q) \<le> prefix_len ops p)"
proof -
  have filed: "filed ops t" using assms(1) by (simp add: rt_inv_def)
  note ms = set_matching [OF filed assms(2), of dst]
  from assms(4) obtain m where m: "max_by (route_precedence ops t) (matching ops t dst) = Some m"
    and c: "c = rt_peer_id m"
    by (auto simp: lookup_matching)
  have "\<forall>r \<in> set (matching ops t dst). truncated ops (rt_prefix r) \<and> net_contains ops (rt_prefix r) dst"
    using assms(3) ms by auto
  note best = max_by_key [OF precedence_respects_primary [OF assms(2) this] m]
  then have mem: "m \<in> approved_for ops t (rt_prefix m)" and cov: "net_contains ops (rt_prefix m) dst"
    using ms by (auto simp: approved_for_all [OF filed])
  then obtain d where d: "rt_primaries t (rt_prefix m) = Some d" "d \<in> best_peers ops t (rt_prefix m)"
    using rt_inv_settled [OF assms(1), of "rt_prefix m"] best_peers_empty_iff [of ops t "rt_prefix m"]
    by (cases "rt_primaries t (rt_prefix m)") auto
  then obtain r where r: "r \<in> approved_for ops t (rt_prefix m)" "rt_peer_id r = d"
      "rt_priority r \<le> rt_priority m"
    using mem by (auto simp: best_peers_def)
  then have "r \<in> set (matching ops t dst)" "rt_prefix r = rt_prefix m"
    using cov ms by (auto simp: approved_for_all [OF filed])
  with best r(2,3) d(1) have "rt_primaries t (rt_prefix m) = Some (rt_peer_id m)"
    by (fastforce simp: word_le_def)
  moreover have "\<forall>q \<in> set (matching ops t dst). prefix_len ops (rt_prefix q) \<le> prefix_len ops (rt_prefix m)"
    using best by (auto simp: word_le_def)
  ultimately show ?thesis
    using cov c ms by (auto simp: primary_route_for_def intro!: exI [of _ "rt_prefix m"])
qed

theorem lookup_follows_primary_witness:
  "\<exists>p. primary_route_for example_table p = Some ''b'' \<and> net_contains cidr_ops p (V4 [10, 2, 0, 1])"
proof -
  have "\<forall>r \<in> set (all_routes example_table). truncated cidr_ops (rt_prefix r)"
    "lookup cidr_ops example_table (V4 [10, 2, 0, 1]) = Some ''b''" by code_simp+
  from lookup_follows_primary [OF example_inv cidr_ops_laws this] show ?thesis by blast
qed

lemma all_routes_removed:
  "set (all_routes (remove_peer_routes ops c t)) = {r \<in> set (all_routes t). rt_peer_id r \<noteq> c}"
  by (auto simp: remove_peer_routes_def Let_def recompute_fold all_routes_def)

lemma lookup_in_routes:
  assumes "lookup ops t dst = Some c"
  shows "\<exists>r \<in> set (all_routes t). rt_peer_id r = c"
proof -
  from assms obtain m where m: "max_by (route_precedence ops t) (matching ops t dst) = Some m"
    and c: "c = rt_peer_id m"
    by (auto simp: lookup_matching)
  have "m \<in> set (matching ops t dst)" using max_by_key [OF precedence_respects_length m] ..
  then have "m \<in> set (all_routes t)" by (auto simp: matching_def all_routes_def split: if_splits)
  with c show ?thesis by blast
qed

text \<open>C26. A removed peer is gone: after \<open>remove_peer_routes\<close> no lookup returns it and no
  prefix has it as primary, and a prefix it was not primary of keeps its primary.\<close>

theorem removed_peer_gone:
  assumes "rt_inv ops t" and t'_def: "t' = remove_peer_routes ops c t"
  shows "lookup ops t' dst \<noteq> Some c \<and> primary_route_for t' p \<noteq> Some c \<and>
    (primary_route_for t p \<noteq> Some c \<longrightarrow> primary_route_for t' p = primary_route_for t p)"
proof -
  have routes: "set (all_routes t') = {r \<in> set (all_routes t). rt_peer_id r \<noteq> c}"
    by (simp add: t'_def all_routes_removed)
  note re = remove_peer_routes_reelected [OF assms(1), of c, folded t'_def]
  then have inv: "rt_inv ops t'" by (auto intro: reelected_inv)
  have "lookup ops t' dst \<noteq> Some c" using lookup_in_routes routes by blast
  moreover have approved: "approved_for ops t' p = {r \<in> approved_for ops t p. rt_peer_id r \<noteq> c}"
    using assms(1) inv routes by (auto simp: approved_for_all rt_inv_def)
  then have "c \<notin> best_peers ops t' p" by (auto simp: best_peers_def)
  then have "primary_route_for t' p \<noteq> Some c"
    using rt_inv_settled [OF inv, of p] by (auto simp: primary_route_for_def)
  moreover have "primary_route_for t' p = primary_route_for t p" if "primary_route_for t p \<noteq> Some c"
  proof (cases "rt_primaries t p")
    case None
    then have "approved_for ops t p = {}"
      using rt_inv_settled [OF assms(1), of p] best_peers_empty_iff [of ops t p] by simp
    with approved None show ?thesis
      using re best_peers_empty_iff [of ops t' p] by (simp add: reelected_def elected_def primary_route_for_def)
  next
    case (Some d)
    with rt_inv_settled [OF assms(1), of p] have "d \<in> best_peers ops t p" by simp
    with that Some approved have "d \<in> best_peers ops t' p"
      by (auto simp: best_peers_def primary_route_for_def)
    with Some re show ?thesis by (auto simp: reelected_def elected_def primary_route_for_def)
  qed
  ultimately show ?thesis by blast
qed

theorem removed_peer_gone_witness:
  "lookup cidr_ops (remove_peer_routes cidr_ops ''b'' example_table) (V4 [10, 2, 0, 1]) = Some ''a'' \<and>
   primary_route_for (remove_peer_routes cidr_ops ''b'' example_table) (V4 [10, 0, 0, 0], 8) \<noteq> Some ''b''"
proof -
  have "lookup cidr_ops (remove_peer_routes cidr_ops ''b'' example_table) (V4 [10, 2, 0, 1]) = Some ''a''"
    by code_simp
  with removed_peer_gone [OF example_inv refl, of "''b''"] show ?thesis by blast
qed

end
