(* ===== verification/Metering.thy ===== *)
theory Metering
  imports Prelude "HOL-Library.AList"
begin

text \<open>
  Bandwidth metering of \<open>headscale-core/src/metering.rs\<close>. A session is a record whose atomic
  counters are 64-bit words; an \<open>Instant\<close> is a number of nanoseconds, and the functions that
  read the clock take it as an argument. The service's \<open>HashMap\<close> is an association list in
  iteration order. Each method is one definition; a method that records returns the session it
  leaves behind with its result.
  The recording methods read both counters, decide, and then add, each access on its own: the last
  sections give the accesses of \<open>record_bidirectional\<close> as steps of threads that share a
  session. Run alone a thread is the method; two threads can together pass a limit that each
  alone respects.
\<close>

section \<open>Sessions\<close>

type_synonym instant = nat

record metering_config =
  bandwidth_limit :: "u64 option"
  rate_limit :: "u64 option"
  consumer_did :: string
  provider_did :: string

record metering_session =
  ms_id :: string
  ms_config :: metering_config
  ms_bytes_in :: u64
  ms_bytes_out :: u64
  ms_started_at :: instant
  ms_last_activity :: instant
  ms_active :: bool

datatype metering_error =
  SessionNotFound string
| SessionInactive
| BandwidthExceeded (be_limit: u64) (be_current: u64) (be_requested: u64)
| RateLimitExceeded
| CounterOverflow

definition session_new :: "instant \<Rightarrow> string \<Rightarrow> metering_config \<Rightarrow> metering_session" where
  "session_new now sid config = \<lparr>ms_id = sid, ms_config = config, ms_bytes_in = 0,
     ms_bytes_out = 0, ms_started_at = now, ms_last_activity = now, ms_active = True\<rparr>"

definition checked_total_bytes :: "metering_session \<Rightarrow> (metering_error, u64) result" where
  "checked_total_bytes s = (case checked_add (ms_bytes_in s) (ms_bytes_out s) of
     None \<Rightarrow> Inl CounterOverflow | Some t \<Rightarrow> Inr t)"

text \<open>The part the three recording methods share after the inactive check: the total, the checked
  sum, the limit.\<close>

definition admit :: "u64 option \<Rightarrow> u64 \<Rightarrow> u64 \<Rightarrow> metering_error option" where
  "admit limit current bytes =
     (case checked_add current bytes of
        None \<Rightarrow> Some CounterOverflow
      | Some new_total \<Rightarrow>
          (case limit of
             Some l \<Rightarrow> if new_total > l then Some (BandwidthExceeded l current bytes) else None
           | None \<Rightarrow> None))"

definition record_incoming ::
  "metering_session \<Rightarrow> u64 \<Rightarrow> metering_session \<times> (metering_error, unit) result" where
  "record_incoming s bytes =
     (if \<not> ms_active s then (s, Inl SessionInactive)
      else case checked_total_bytes s of
        Inl e \<Rightarrow> (s, Inl e)
      | Inr current \<Rightarrow>
          (case admit (bandwidth_limit (ms_config s)) current bytes of
             Some e \<Rightarrow> (s, Inl e)
           | None \<Rightarrow> (s\<lparr>ms_bytes_in := ms_bytes_in s + bytes\<rparr>, Inr ())))"

definition record_outgoing ::
  "metering_session \<Rightarrow> u64 \<Rightarrow> metering_session \<times> (metering_error, unit) result" where
  "record_outgoing s bytes =
     (if \<not> ms_active s then (s, Inl SessionInactive)
      else case checked_total_bytes s of
        Inl e \<Rightarrow> (s, Inl e)
      | Inr current \<Rightarrow>
          (case admit (bandwidth_limit (ms_config s)) current bytes of
             Some e \<Rightarrow> (s, Inl e)
           | None \<Rightarrow> (s\<lparr>ms_bytes_out := ms_bytes_out s + bytes\<rparr>, Inr ())))"

definition record_bidirectional ::
  "metering_session \<Rightarrow> u64 \<Rightarrow> u64 \<Rightarrow> metering_session \<times> (metering_error, unit) result" where
  "record_bidirectional s bytes_in bytes_out =
     (if \<not> ms_active s then (s, Inl SessionInactive)
      else case checked_add bytes_in bytes_out of
        None \<Rightarrow> (s, Inl CounterOverflow)
      | Some total_new \<Rightarrow>
          (case checked_total_bytes s of
             Inl e \<Rightarrow> (s, Inl e)
           | Inr current \<Rightarrow>
               (case admit (bandwidth_limit (ms_config s)) current total_new of
                  Some e \<Rightarrow> (s, Inl e)
                | None \<Rightarrow> (s\<lparr>ms_bytes_in := ms_bytes_in s + bytes_in,
                              ms_bytes_out := ms_bytes_out s + bytes_out\<rparr>, Inr ()))))"

definition total_bytes :: "metering_session \<Rightarrow> u64" where
  "total_bytes s = saturating_add (ms_bytes_in s) (ms_bytes_out s)"

definition remaining_bandwidth :: "metering_session \<Rightarrow> u64 option" where
  "remaining_bandwidth s =
     map_option (\<lambda>limit. saturating_sub limit (total_bytes s)) (bandwidth_limit (ms_config s))"

definition duration_secs :: "instant \<Rightarrow> metering_session \<Rightarrow> u64" where
  "duration_secs now s = of_nat ((now - ms_started_at s) div 1000000000)"

record metering_snapshot =
  sn_session_id :: string
  sn_consumer_did :: string
  sn_provider_did :: string
  sn_bytes_in :: u64
  sn_bytes_out :: u64
  sn_bandwidth_limit :: "u64 option"
  sn_remaining :: "u64 option"
  sn_duration_secs :: u64
  sn_active :: bool

definition snapshot :: "instant \<Rightarrow> metering_session \<Rightarrow> metering_snapshot" where
  "snapshot now s = \<lparr>sn_session_id = ms_id s,
     sn_consumer_did = consumer_did (ms_config s), sn_provider_did = provider_did (ms_config s),
     sn_bytes_in = ms_bytes_in s, sn_bytes_out = ms_bytes_out s,
     sn_bandwidth_limit = bandwidth_limit (ms_config s), sn_remaining = remaining_bandwidth s,
     sn_duration_secs = duration_secs now s, sn_active = ms_active s\<rparr>"

definition snapshot_total_bytes :: "metering_snapshot \<Rightarrow> u64" where
  "snapshot_total_bytes sn = saturating_add (sn_bytes_in sn) (sn_bytes_out sn)"

definition total_kb :: "metering_snapshot \<Rightarrow> u64" where
  "total_kb sn = div_ceil (snapshot_total_bytes sn) 1024"

section \<open>The service\<close>

type_synonym sessions = "(string \<times> metering_session) list"

definition service_new :: sessions where
  "service_new = []"

definition start_session :: "instant \<Rightarrow> string \<Rightarrow> metering_config \<Rightarrow> sessions \<Rightarrow> sessions" where
  "start_session now sid config sessions = AList.update sid (session_new now sid config) sessions"

definition record_usage ::
  "string \<Rightarrow> u64 \<Rightarrow> u64 \<Rightarrow> sessions \<Rightarrow> sessions \<times> (metering_error, unit) result" where
  "record_usage sid bytes_in bytes_out sessions =
     (case map_of sessions sid of
        None \<Rightarrow> (sessions, Inl (SessionNotFound sid))
      | Some s \<Rightarrow>
          let (s', r) = record_bidirectional s bytes_in bytes_out
          in (AList.update sid s' sessions, r))"

definition get_usage :: "instant \<Rightarrow> string \<Rightarrow> sessions \<Rightarrow> metering_snapshot option" where
  "get_usage now sid sessions = map_option (snapshot now) (map_of sessions sid)"

definition end_session ::
  "instant \<Rightarrow> string \<Rightarrow> sessions \<Rightarrow> sessions \<times> (metering_error, metering_snapshot) result" where
  "end_session now sid sessions =
     (case map_of sessions sid of
        None \<Rightarrow> (sessions, Inl (SessionNotFound sid))
      | Some s \<Rightarrow> (AList.delete sid sessions, Inr (snapshot now (s\<lparr>ms_active := False\<rparr>))))"

definition active_sessions :: "instant \<Rightarrow> sessions \<Rightarrow> metering_snapshot list" where
  "active_sessions now sessions = map (snapshot now) (filter ms_active (map snd sessions))"

definition consumer_sessions :: "instant \<Rightarrow> string \<Rightarrow> sessions \<Rightarrow> metering_snapshot list" where
  "consumer_sessions now did sessions =
     map (snapshot now) (filter (\<lambda>s. consumer_did (ms_config s) = did) (map snd sessions))"

definition provider_sessions :: "instant \<Rightarrow> string \<Rightarrow> sessions \<Rightarrow> metering_snapshot list" where
  "provider_sessions now did sessions =
     map (snapshot now) (filter (\<lambda>s. provider_did (ms_config s) = did) (map snd sessions))"

definition provider_total_bytes :: "instant \<Rightarrow> string \<Rightarrow> sessions \<Rightarrow> u64" where
  "provider_total_bytes now did sessions =
     sum_list (map snapshot_total_bytes (provider_sessions now did sessions))"

section \<open>What recording does\<close>

text \<open>The counters do not overflow together and respect the limit.\<close>

definition session_ok :: "metering_session \<Rightarrow> bool" where
  "session_ok s \<longleftrightarrow> unat (ms_bytes_in s) + unat (ms_bytes_out s) < 2 ^ 64 \<and>
     (\<forall>l. bandwidth_limit (ms_config s) = Some l \<longrightarrow>
        unat (ms_bytes_in s) + unat (ms_bytes_out s) \<le> unat l)"

lemma admit_None_iff:
  "admit limit current bytes = None \<longleftrightarrow> unat current + unat bytes < 2 ^ 64 \<and>
     (\<forall>l. limit = Some l \<longrightarrow> unat current + unat bytes \<le> unat l)"
proof (cases "checked_add current bytes")
  case None
  then have "2 ^ 64 \<le> unat current + unat bytes" by (simp add: checked_add_None_iff)
  with None show ?thesis by (simp add: admit_def)
next
  case (Some t)
  then have "unat t = unat current + unat bytes" by (simp add: checked_add_Some_iff)
  moreover have "unat t < 2 ^ 64" using unsigned_less [of t] by simp
  ultimately show ?thesis
    using Some by (simp add: admit_def word_less_nat_alt not_less split: option.split)
qed

lemma checked_total_bytes_ok:
  assumes "session_ok s"
  obtains t where "checked_total_bytes s = Inr t" "unat t = unat (ms_bytes_in s) + unat (ms_bytes_out s)"
  using assms
  by (cases "checked_add (ms_bytes_in s) (ms_bytes_out s)")
    (auto simp: session_ok_def checked_total_bytes_def checked_add_None_iff checked_add_Some_iff)

lemma unat_add_fits:
  fixes a b :: u64
  assumes "unat a + unat b < 2 ^ 64"
  shows "unat (a + b) = unat a + unat b"
  using assms by (simp add: unat_word_ariths)

text \<open>Recording both directions at once: accepted exactly when the session is active and the new
  total fits the counters and the limit, and then it adds exactly the two amounts.\<close>

definition accepts :: "metering_session \<Rightarrow> u64 \<Rightarrow> u64 \<Rightarrow> bool" where
  "accepts s i out \<longleftrightarrow> ms_active s \<and>
     unat (ms_bytes_in s) + unat (ms_bytes_out s) + (unat i + unat out) < 2 ^ 64 \<and>
     (\<forall>l. bandwidth_limit (ms_config s) = Some l \<longrightarrow>
        unat (ms_bytes_in s) + unat (ms_bytes_out s) + (unat i + unat out) \<le> unat l)"

definition add_bytes :: "metering_session \<Rightarrow> u64 \<Rightarrow> u64 \<Rightarrow> metering_session" where
  "add_bytes s i out = s\<lparr>ms_bytes_in := ms_bytes_in s + i, ms_bytes_out := ms_bytes_out s + out\<rparr>"

lemma record_bidirectional_cases:
  assumes "session_ok s"
  obtains (accept) "accepts s i out" "record_bidirectional s i out = (add_bytes s i out, Inr ())"
  | (reject) e where "\<not> accepts s i out" "record_bidirectional s i out = (s, Inl e)"
proof -
  from assms obtain t where t: "checked_total_bytes s = Inr t"
      "unat t = unat (ms_bytes_in s) + unat (ms_bytes_out s)"
    by (rule checked_total_bytes_ok)
  show ?thesis
  proof (cases "ms_active s")
    case False
    then show ?thesis by (intro reject) (simp_all add: record_bidirectional_def accepts_def)
  next
    case active: True
    show ?thesis
    proof (cases "checked_add i out")
      case None
      then have "2 ^ 64 \<le> unat i + unat out" by (simp add: checked_add_None_iff)
      with None active show ?thesis
        by (intro reject) (simp_all add: record_bidirectional_def accepts_def)
    next
      case (Some n)
      then have n: "unat n = unat i + unat out" by (simp add: checked_add_Some_iff)
      have adm: "admit (bandwidth_limit (ms_config s)) t n = None \<longleftrightarrow> accepts s i out"
        unfolding admit_None_iff accepts_def t(2) n using active by simp
      show ?thesis
      proof (cases "admit (bandwidth_limit (ms_config s)) t n")
        case None
        with Some t(1) active adm show ?thesis
          by (intro accept) (simp_all add: record_bidirectional_def add_bytes_def)
      next
        case (Some e)
        with \<open>checked_add i out = Some n\<close> t(1) active adm show ?thesis
          by (intro reject [of e]) (simp_all add: record_bidirectional_def)
      qed
    qed
  qed
qed

lemma add_bytes_simps [simp]:
  "ms_config (add_bytes s i out) = ms_config s" "ms_active (add_bytes s i out) = ms_active s"
  "ms_id (add_bytes s i out) = ms_id s" "ms_started_at (add_bytes s i out) = ms_started_at s"
  by (simp_all add: add_bytes_def)

lemma accepts_add_bytes:
  assumes "accepts s i out"
  shows "unat (ms_bytes_in (add_bytes s i out)) = unat (ms_bytes_in s) + unat i"
    "unat (ms_bytes_out (add_bytes s i out)) = unat (ms_bytes_out s) + unat out"
    "session_ok (add_bytes s i out)"
proof -
  show in_out: "unat (ms_bytes_in (add_bytes s i out)) = unat (ms_bytes_in s) + unat i"
    "unat (ms_bytes_out (add_bytes s i out)) = unat (ms_bytes_out s) + unat out"
    using assms by (simp_all add: add_bytes_def accepts_def unat_add_fits)
  show "session_ok (add_bytes s i out)"
    using assms unfolding session_ok_def in_out by (simp add: accepts_def algebra_simps)
qed

lemma record_one_way_ok:
  assumes "session_ok s"
  shows "session_ok (fst (record_incoming s b)) \<and> session_ok (fst (record_outgoing s b))"
proof -
  from assms obtain t where t: "checked_total_bytes s = Inr t"
      "unat t = unat (ms_bytes_in s) + unat (ms_bytes_out s)"
    by (rule checked_total_bytes_ok)
  show ?thesis
  proof (cases "admit (bandwidth_limit (ms_config s)) t b")
    case None
    then have fits: "unat (ms_bytes_in s) + unat (ms_bytes_out s) + unat b < 2 ^ 64"
      and lim: "\<And>l. bandwidth_limit (ms_config s) = Some l \<Longrightarrow>
        unat (ms_bytes_in s) + unat (ms_bytes_out s) + unat b \<le> unat l"
      unfolding admit_None_iff t(2) by auto
    from fits have "unat (ms_bytes_in s + b) = unat (ms_bytes_in s) + unat b"
      "unat (ms_bytes_out s + b) = unat (ms_bytes_out s) + unat b"
      by (simp_all add: unat_add_fits)
    with None t(1) assms fits lim show ?thesis
      by (auto simp: record_incoming_def record_outgoing_def session_ok_def add.commute add.left_commute)
  next
    case (Some e)
    with t(1) assms show ?thesis by (simp add: record_incoming_def record_outgoing_def)
  qed
qed

section \<open>Runs of the service\<close>

definition sessions_ok :: "sessions \<Rightarrow> bool" where
  "sessions_ok ss \<longleftrightarrow> distinct (map fst ss) \<and>
     (\<forall>sid s. map_of ss sid = Some s \<longrightarrow> session_ok s \<and> ms_active s \<and> ms_id s = sid)"

lemma sessions_okD:
  "sessions_ok ss \<Longrightarrow> map_of ss sid = Some s \<Longrightarrow> session_ok s \<and> ms_active s \<and> ms_id s = sid"
  by (simp add: sessions_ok_def)

lemma session_new_ok: "session_ok (session_new now sid config) \<and> ms_active (session_new now sid config) \<and>
    ms_id (session_new now sid config) = sid"
  by (simp add: session_new_def session_ok_def)

lemma sessions_ok_update:
  "sessions_ok ss \<Longrightarrow> session_ok s \<Longrightarrow> ms_active s \<Longrightarrow> ms_id s = sid \<Longrightarrow>
   sessions_ok (AList.update sid s ss)"
  by (auto simp: sessions_ok_def distinct_update update_conv')

lemma sessions_ok_delete: "sessions_ok ss \<Longrightarrow> sessions_ok (AList.delete sid ss)"
  by (auto simp: sessions_ok_def distinct_delete delete_conv' restrict_map_def)

lemma start_session_ok: "sessions_ok ss \<Longrightarrow> sessions_ok (start_session now sid config ss)"
  using session_new_ok by (simp add: start_session_def sessions_ok_update)

lemma record_usage_cases:
  assumes "sessions_ok ss"
  obtains (missing) "map_of ss sid = None" "record_usage sid i out ss = (ss, Inl (SessionNotFound sid))"
  | (accept) s where "map_of ss sid = Some s" "accepts s i out"
      "record_usage sid i out ss = (AList.update sid (add_bytes s i out) ss, Inr ())"
  | (reject) s e where "map_of ss sid = Some s" "\<not> accepts s i out"
      "record_usage sid i out ss = (AList.update sid s ss, Inl e)"
proof (cases "map_of ss sid")
  case None
  then show ?thesis by (intro missing) (simp_all add: record_usage_def)
next
  case (Some s)
  with assms have "session_ok s" by (simp add: sessions_ok_def)
  then show ?thesis
  proof (cases rule: record_bidirectional_cases [of s i out])
    case accept
    with Some show ?thesis by (intro that(2)) (simp_all add: record_usage_def)
  next
    case (reject e)
    with Some show ?thesis by (intro that(3) [of s e]) (simp_all add: record_usage_def)
  qed
qed

lemma record_usage_ok:
  assumes "sessions_ok ss" "record_usage sid i out ss = (ss', r)"
  shows "sessions_ok ss'"
  using assms(1)
proof (cases rule: record_usage_cases [of ss sid i out])
  case missing
  with assms show ?thesis by simp
next
  case (accept s)
  with assms sessions_okD [OF assms(1) accept(1)] show ?thesis
    by (auto simp: accepts_add_bytes intro!: sessions_ok_update)
next
  case (reject s e)
  with assms sessions_okD [OF assms(1) reject(1)] show ?thesis
    by (auto intro!: sessions_ok_update)
qed

inductive ms_step :: "sessions \<Rightarrow> sessions \<Rightarrow> bool" where
  step_start: "ms_step ss (start_session now sid config ss)"
| step_record: "record_usage sid i out ss = (ss', r) \<Longrightarrow> ms_step ss ss'"
| step_end: "end_session now sid ss = (ss', r) \<Longrightarrow> ms_step ss ss'"

interpretation metering: machine service_new ms_step sessions_ok
proof unfold_locales
  show "sessions_ok service_new" by (simp add: sessions_ok_def service_new_def)
  fix ss ss' assume ok: "sessions_ok ss" and "ms_step ss ss'"
  from this(2) show "sessions_ok ss'"
  proof cases
    case step_start
    with ok show ?thesis by (simp add: start_session_ok)
  next
    case step_record
    with ok show ?thesis by (simp add: record_usage_ok)
  next
    case step_end
    with ok show ?thesis by (auto simp: end_session_def sessions_ok_delete split: option.splits)
  qed
qed

text \<open>A run of usage reports, with the amounts accepted for one session.\<close>

fun charge :: "string \<Rightarrow> (string \<times> u64 \<times> u64) list \<Rightarrow> sessions \<Rightarrow> sessions \<times> nat \<times> nat" where
  "charge sid [] ss = (ss, 0, 0)"
| "charge sid ((k, i, out) # us) ss =
     (case record_usage k i out ss of
        (ss', r) \<Rightarrow> (case charge sid us ss' of
          (ss'', ti, to) \<Rightarrow> if k = sid \<and> is_ok r then (ss'', ti + unat i, to + unat out)
            else (ss'', ti, to)))"

lemma charge_spec:
  assumes "sessions_ok ss" "map_of ss sid = Some s" "charge sid us ss = (ss', ti, to)"
  shows "sessions_ok ss' \<and> (\<exists>s'. map_of ss' sid = Some s' \<and>
    ms_config s' = ms_config s \<and>
    unat (ms_bytes_in s') = unat (ms_bytes_in s) + ti \<and> unat (ms_bytes_out s') = unat (ms_bytes_out s) + to)"
  using assms
proof (induction us arbitrary: ss s ti to)
  case Nil
  then show ?case by auto
next
  case (Cons u us)
  obtain k i out where u: "u = (k, i, out)" by (cases u) auto
  obtain ss1 r where rec: "record_usage k i out ss = (ss1, r)" by fastforce
  obtain ti1 to1 where ch: "charge sid us ss1 = (ss', ti1, to1)"
    and t: "(ti, to) = (if k = sid \<and> is_ok r then (ti1 + unat i, to1 + unat out) else (ti1, to1))"
    using Cons.prems(3) by (auto simp: u rec split: prod.splits if_splits)
  have ok1: "sessions_ok ss1" by (rule record_usage_ok [OF Cons.prems(1) rec])
  have "\<exists>s1. map_of ss1 sid = Some s1 \<and> ms_config s1 = ms_config s \<and>
      unat (ms_bytes_in s1) = unat (ms_bytes_in s) + (if k = sid \<and> is_ok r then unat i else 0) \<and>
      unat (ms_bytes_out s1) = unat (ms_bytes_out s) + (if k = sid \<and> is_ok r then unat out else 0)"
    using Cons.prems(1)
  proof (cases rule: record_usage_cases [of ss k i out])
    case missing
    with rec Cons.prems(2) show ?thesis by auto
  next
    case (accept s1)
    with rec Cons.prems(2) show ?thesis by (auto simp: update_conv' accepts_add_bytes)
  next
    case (reject s1 e)
    with rec Cons.prems(2) show ?thesis by (auto simp: update_conv')
  qed
  then obtain s1 where s1: "map_of ss1 sid = Some s1" "ms_config s1 = ms_config s"
      "unat (ms_bytes_in s1) = unat (ms_bytes_in s) + (if k = sid \<and> is_ok r then unat i else 0)"
      "unat (ms_bytes_out s1) = unat (ms_bytes_out s) + (if k = sid \<and> is_ok r then unat out else 0)"
    by blast
  from Cons.IH [OF ok1 s1(1) ch] s1 t show ?case by (auto split: if_splits)
qed

section \<open>Concurrent recorders\<close>

text \<open>The shared accesses of \<open>record_bidirectional\<close>, in its order: load the incoming counter,
  load the outgoing counter and decide, add to the first, add to the second. The session is behind
  a read lock, so recorders run these steps interleaved.\<close>

datatype recorder_pc =
  RStart
| RLoadedIn u64
| RAdmitted
| RAddedIn
| RDone "(metering_error, unit) result"

record recorder =
  rec_in :: u64
  rec_out :: u64
  rec_pc :: recorder_pc

definition recorder_step :: "metering_session \<Rightarrow> recorder \<Rightarrow> metering_session \<times> recorder" where
  "recorder_step s t =
     (case rec_pc t of
        RStart \<Rightarrow>
          if \<not> ms_active s then (s, t\<lparr>rec_pc := RDone (Inl SessionInactive)\<rparr>)
          else (case checked_add (rec_in t) (rec_out t) of
             None \<Rightarrow> (s, t\<lparr>rec_pc := RDone (Inl CounterOverflow)\<rparr>)
           | Some _ \<Rightarrow> (s, t\<lparr>rec_pc := RLoadedIn (ms_bytes_in s)\<rparr>))
      | RLoadedIn loaded \<Rightarrow>
          (case checked_add loaded (ms_bytes_out s) of
             None \<Rightarrow> (s, t\<lparr>rec_pc := RDone (Inl CounterOverflow)\<rparr>)
           | Some current \<Rightarrow>
               (case admit (bandwidth_limit (ms_config s)) current (rec_in t + rec_out t) of
                  Some e \<Rightarrow> (s, t\<lparr>rec_pc := RDone (Inl e)\<rparr>)
                | None \<Rightarrow> (s, t\<lparr>rec_pc := RAdmitted\<rparr>)))
      | RAdmitted \<Rightarrow> (s\<lparr>ms_bytes_in := ms_bytes_in s + rec_in t\<rparr>, t\<lparr>rec_pc := RAddedIn\<rparr>)
      | RAddedIn \<Rightarrow> (s\<lparr>ms_bytes_out := ms_bytes_out s + rec_out t\<rparr>, t\<lparr>rec_pc := RDone (Inr ())\<rparr>)
      | RDone _ \<Rightarrow> (s, t))"

fun run_recorders :: "nat list \<Rightarrow> metering_session \<times> recorder list \<Rightarrow> metering_session \<times> recorder list" where
  "run_recorders [] st = st"
| "run_recorders (k # ks) (s, ts) =
     (if k < length ts
      then let (s', t') = recorder_step s (ts ! k) in run_recorders ks (s', ts[k := t'])
      else run_recorders ks (s, ts))"

section \<open>Properties\<close>

text \<open>C9. In every state a sequential run of the service reaches, every session's two counters
  add up without overflow and stay within the session's bandwidth limit.\<close>

theorem metering_within_limit:
  assumes "rtranclp ms_step service_new ss" "map_of ss sid = Some s"
  shows "unat (total_bytes s) = unat (ms_bytes_in s) + unat (ms_bytes_out s) \<and>
    (\<forall>l. bandwidth_limit (ms_config s) = Some l \<longrightarrow> total_bytes s \<le> l \<and>
      remaining_bandwidth s = Some (l - total_bytes s))"
proof -
  have "session_ok s"
    using metering.inv_reachable [OF assms(1)] assms(2) sessions_okD by blast
  then have total: "unat (total_bytes s) = unat (ms_bytes_in s) + unat (ms_bytes_out s)"
    and "\<And>l. bandwidth_limit (ms_config s) = Some l \<Longrightarrow> total_bytes s \<le> l"
    by (simp_all add: session_ok_def total_bytes_def unat_saturating_add word_le_nat_alt)
  then show ?thesis
    by (auto simp: remaining_bandwidth_def saturating_sub_def)
qed

text \<open>A session with a limit of 100 bytes after one report of 40 and 20.\<close>

definition example_config :: metering_config where
  "example_config = \<lparr>bandwidth_limit = Some 100, rate_limit = None,
     consumer_did = ''c'', provider_did = ''p''\<rparr>"

definition example_sessions :: sessions where
  "example_sessions = fst (record_usage ''s'' 40 20 (start_session 0 ''s'' example_config service_new))"

lemma example_session:
  "map_of example_sessions ''s'' = Some \<lparr>ms_id = ''s'', ms_config = example_config, ms_bytes_in = 40,
     ms_bytes_out = 20, ms_started_at = 0, ms_last_activity = 0, ms_active = True\<rparr>"
  by code_simp

lemma example_run: "rtranclp ms_step service_new example_sessions"
proof -
  have "ms_step service_new (start_session 0 ''s'' example_config service_new)"
    by (rule step_start)
  moreover have "ms_step (start_session 0 ''s'' example_config service_new) example_sessions"
    by (rule step_record [of "''s''" 40 20 _ _ "Inr ()"]) code_simp
  ultimately show ?thesis by (meson rtranclp.simps)
qed

theorem metering_within_limit_witness:
  "\<exists>s. map_of example_sessions ''s'' = Some s \<and> remaining_bandwidth s = Some 40"
  using metering_within_limit [OF example_run example_session] example_session
  by (simp add: example_config_def total_bytes_def saturating_add_def)

text \<open>C33. A usage report is all or nothing: it is accepted exactly when the session is active and
  the new total fits the 64-bit counter and the limit, and then adds exactly the reported bytes; a
  rejected report leaves the session as it was.\<close>

theorem record_all_or_nothing:
  assumes "session_ok s" "record_bidirectional s i out = (s', r)"
  shows "(is_ok r \<longleftrightarrow> accepts s i out) \<and>
    (is_ok r \<longrightarrow> session_ok s' \<and> unat (ms_bytes_in s') = unat (ms_bytes_in s) + unat i \<and>
      unat (ms_bytes_out s') = unat (ms_bytes_out s) + unat out) \<and>
    (\<not> is_ok r \<longrightarrow> s' = s)"
  using assms(1)
proof (cases rule: record_bidirectional_cases [of s i out])
  case accept
  with assms(2) show ?thesis by (auto simp: accepts_add_bytes)
next
  case (reject e)
  with assms(2) show ?thesis by auto
qed

theorem record_all_or_nothing_witness:
  "\<not> accepts (session_new 0 ''s'' example_config) 90 20 \<and>
   accepts (session_new 0 ''s'' example_config) 80 20"
proof -
  let ?s = "session_new 0 ''s'' example_config"
  have ok: "session_ok ?s" using session_new_ok by blast
  have "record_bidirectional ?s 90 20 = (?s, Inl (BandwidthExceeded 100 0 110))"
    "record_bidirectional ?s 80 20 = (add_bytes ?s 80 20, Inr ())" by code_simp+
  from record_all_or_nothing [OF ok this(1)] record_all_or_nothing [OF ok this(2)]
  show ?thesis by simp
qed

text \<open>Billing is exact: ending a session returns, for each direction, the sum of the accepted
  reports since it started, whatever reports for other sessions ran in between, and the billed
  kilobytes are that total rounded up.\<close>

theorem end_session_bills_accepted:
  assumes "sessions_ok ss" "charge sid us (start_session now sid config ss) = (ss', ti, to)"
  shows "\<exists>sn. end_session later sid ss' = (AList.delete sid ss', Inr sn) \<and> \<not> sn_active sn \<and>
    unat (sn_bytes_in sn) = ti \<and> unat (sn_bytes_out sn) = to \<and>
    unat (snapshot_total_bytes sn) = ti + to \<and>
    unat (total_kb sn) = (ti + to + 1023) div 1024 \<and>
    (\<forall>l. bandwidth_limit config = Some l \<longrightarrow> ti + to \<le> unat l)"
proof -
  let ?s = "session_new now sid config"
  have "map_of (start_session now sid config ss) sid = Some ?s"
    by (simp add: start_session_def update_conv')
  from charge_spec [OF start_session_ok [OF assms(1)] this assms(2)] obtain s'
    where s': "sessions_ok ss'" "map_of ss' sid = Some s'" "ms_config s' = config"
      "unat (ms_bytes_in s') = ti" "unat (ms_bytes_out s') = to"
    by (auto simp: session_new_def)
  from sessions_okD [OF s'(1,2)] have fit: "ti + to < 2 ^ 64"
    and lim: "\<And>l. bandwidth_limit config = Some l \<Longrightarrow> ti + to \<le> unat l"
    by (simp_all add: session_ok_def s')
  let ?sn = "snapshot later (s'\<lparr>ms_active := False\<rparr>)"
  have total: "unat (snapshot_total_bytes ?sn) = ti + to"
    using fit by (simp add: snapshot_def snapshot_total_bytes_def unat_saturating_add s')
  have "unat (total_kb ?sn) = (ti + to + 1023) div 1024"
    unfolding total_kb_def using unat_div_ceil [of 1024 "snapshot_total_bytes ?sn"] total by simp
  with s' total lim show ?thesis
    by (auto simp: end_session_def snapshot_def)
qed

theorem end_session_bills_accepted_witness:
  "\<exists>ss' sn. charge ''s'' [(''s'', 40, 20), (''t'', 1, 1), (''s'', 90, 0), (''s'', 10, 30)]
      (start_session 0 ''s'' example_config service_new) = (ss', 50, 50) \<and>
    snd (end_session 9 ''s'' ss') = Inr sn \<and> unat (snapshot_total_bytes sn) = 100"
proof -
  let ?us = "[(''s'', 40, 20), (''t'', 1, 1), (''s'', 90, 0), (''s'', 10, 30)] :: (string \<times> u64 \<times> u64) list"
  have ok: "sessions_ok service_new" by (rule metering.inv_init)
  obtain ss' ti to where c: "charge ''s'' ?us (start_session 0 ''s'' example_config service_new) = (ss', ti, to)"
    by (metis surj_pair)
  have "snd (charge ''s'' ?us (start_session 0 ''s'' example_config service_new)) = (50, 50)"
    by code_simp
  with c have t: "ti = 50" "to = 50" by simp_all
  from end_session_bills_accepted [OF ok c, of 9] c t show ?thesis by auto
qed

text \<open>Without interference the four shared accesses of a recorder have exactly the effect and
  the result of \<open>record_bidirectional\<close>.\<close>

theorem recorder_alone:
  "run_recorders [0, 0, 0, 0] (s, [\<lparr>rec_in = i, rec_out = out, rec_pc = RStart\<rparr>]) =
    (fst (record_bidirectional s i out),
     [\<lparr>rec_in = i, rec_out = out, rec_pc = RDone (snd (record_bidirectional s i out))\<rparr>])"
proof (cases "ms_active s")
  case False
  then show ?thesis by (simp add: recorder_step_def record_bidirectional_def)
next
  case active: True
  show ?thesis
  proof (cases "checked_add i out")
    case None
    with active show ?thesis by (simp add: recorder_step_def record_bidirectional_def)
  next
    case (Some n)
    then have n: "n = i + out" by (simp add: checked_add_def split: if_splits)
    show ?thesis
    proof (cases "checked_add (ms_bytes_in s) (ms_bytes_out s)")
      case None
      with Some active show ?thesis
        by (simp add: recorder_step_def record_bidirectional_def checked_total_bytes_def)
    next
      case (Some current)
      with \<open>checked_add i out = Some n\<close> n active show ?thesis
        by (cases "admit (bandwidth_limit (ms_config s)) current n")
          (simp_all add: recorder_step_def record_bidirectional_def checked_total_bytes_def)
    qed
  qed
qed


end
