(* ===== verification/Ip_Parse.thy ===== *)
theory Ip_Parse
  imports Std_Net
begin

text \<open>
  The standard library's \<open>str::parse::<IpAddr>\<close>, as the sources use it: a backtracking parser
  over the bytes that reads an IPv4 address and otherwise an IPv6 address, and accepts when nothing
  is left. Every reader returns its value with the rest of the input.
\<close>

section \<open>Numbers\<close>

definition to_digit :: "nat \<Rightarrow> char \<Rightarrow> nat option" where
  "to_digit radix c = (case hex_value c of
     Some v \<Rightarrow> if v < radix then Some v else None | None \<Rightarrow> None)"

text \<open>The digits in front: their value, their number and the rest; \<open>None\<close> when there are
  more than \<open>limit\<close>.\<close>

fun read_digits :: "nat \<Rightarrow> nat \<Rightarrow> nat \<Rightarrow> nat \<Rightarrow> string \<Rightarrow> (nat \<times> nat \<times> string) option" where
  "read_digits radix limit result digit_count [] = Some (result, digit_count, [])"
| "read_digits radix limit result digit_count (c # cs) =
     (case to_digit radix c of
        None \<Rightarrow> Some (result, digit_count, c # cs)
      | Some d \<Rightarrow>
          if limit < digit_count + 1 then None
          else read_digits radix limit (result * radix + d) (digit_count + 1) cs)"

definition read_number :: "nat \<Rightarrow> nat \<Rightarrow> bool \<Rightarrow> nat \<Rightarrow> string \<Rightarrow> (nat \<times> string) option" where
  "read_number radix max_digits allow_zero_prefix bound s =
     (case read_digits radix max_digits 0 0 s of
        None \<Rightarrow> None
      | Some (result, digit_count, rest) \<Rightarrow>
          if digit_count = 0 then None
          else if \<not> allow_zero_prefix \<and> (case s of c # _ \<Rightarrow> c = CHR ''0'' | [] \<Rightarrow> False) \<and> 1 < digit_count then None
          else if result < bound then Some (result, rest) else None)"

definition read_given_char :: "char \<Rightarrow> string \<Rightarrow> string option" where
  "read_given_char target s = (case s of c # cs \<Rightarrow> if c = target then Some cs else None | [] \<Rightarrow> None)"

definition read_separator :: "char \<Rightarrow> nat \<Rightarrow> (string \<Rightarrow> ('a \<times> string) option) \<Rightarrow> string \<Rightarrow>
  ('a \<times> string) option" where
  "read_separator sep index inner s =
     (if 0 < index then (case read_given_char sep s of None \<Rightarrow> None | Some s' \<Rightarrow> inner s') else inner s)"

section \<open>Addresses\<close>

fun read_ipv4_groups :: "nat \<Rightarrow> nat \<Rightarrow> string \<Rightarrow> (u8 list \<times> string) option" where
  "read_ipv4_groups i 0 s = Some ([], s)"
| "read_ipv4_groups i (Suc k) s =
     (case read_separator CHR ''.'' i (read_number 10 3 False 256) s of
        None \<Rightarrow> None
      | Some (v, rest) \<Rightarrow>
          (case read_ipv4_groups (i + 1) k rest of
             None \<Rightarrow> None
           | Some (vs, rest') \<Rightarrow> Some (of_nat v # vs, rest')))"

definition read_ipv4_addr :: "string \<Rightarrow> (u8 list \<times> string) option" where
  "read_ipv4_addr s = read_ipv4_groups 0 4 s"

text \<open>\<open>read_groups\<close> from group \<open>i\<close> on with \<open>k\<close> groups left: the octets read, whether an
  embedded IPv4 address ended them, and the rest.\<close>

fun read_groups :: "nat \<Rightarrow> nat \<Rightarrow> string \<Rightarrow> u8 list \<times> bool \<times> string" where
  "read_groups i 0 s = ([], False, s)"
| "read_groups i (Suc k) s =
     (case (if 0 < k then read_separator CHR '':'' i read_ipv4_addr s else None) of
        Some (v4, rest) \<Rightarrow> (v4, True, rest)
      | None \<Rightarrow>
          (case read_separator CHR '':'' i (read_number 16 4 True 65536) s of
             None \<Rightarrow> ([], False, s)
           | Some (g, rest) \<Rightarrow>
               (case read_groups (i + 1) k rest of
                  (os, v4, rest') \<Rightarrow> (seg_octets [g] @ os, v4, rest'))))"

definition read_ipv6_addr :: "string \<Rightarrow> (u8 list \<times> string) option" where
  "read_ipv6_addr s =
     (case read_groups 0 8 s of
        (head, head_ipv4, rest) \<Rightarrow>
          if length head = 16 then Some (head, rest)
          else if head_ipv4 then None
          else (case read_given_char CHR '':'' rest of
             None \<Rightarrow> None
           | Some rest1 \<Rightarrow>
               (case read_given_char CHR '':'' rest1 of
                  None \<Rightarrow> None
                | Some rest2 \<Rightarrow>
                    (case read_groups 0 (8 - (length head div 2 + 1)) rest2 of
                       (tail, _, rest3) \<Rightarrow>
                         Some (head @ replicate (16 - length head - length tail) 0 @ tail, rest3)))))"

definition parse_ip :: "string \<Rightarrow> ip_addr option" where
  "parse_ip s =
     (case read_ipv4_addr s of
        Some (os, rest) \<Rightarrow> if rest = [] then Some (V4 os) else None
      | None \<Rightarrow>
          (case read_ipv6_addr s of
             Some (os, rest) \<Rightarrow> if rest = [] then Some (V6 os) else None
           | None \<Rightarrow> None))"

section \<open>Facts\<close>

lemma read_ipv4_groups_length: "read_ipv4_groups i k s = Some (os, rest) \<Longrightarrow> length os = k"
  by (induction i k s arbitrary: os rest rule: read_ipv4_groups.induct) (auto split: option.splits)

lemma parse_ip_v4_length: "parse_ip s = Some (V4 os) \<Longrightarrow> length os = 4"
  by (auto simp: parse_ip_def read_ipv4_addr_def dest: read_ipv4_groups_length
      split: option.splits if_splits)

lemma read_groups_length:
  "read_groups i k s = (os, v4, rest) \<Longrightarrow> length os \<le> 2 * k \<and> even (length os)"
proof (induction i k s arbitrary: os v4 rest rule: read_groups.induct)
  case (2 i k s)
  show ?case
  proof (cases "if 0 < k then read_separator CHR '':'' i read_ipv4_addr s else None")
    case None
    with 2 show ?thesis
      by (force split: option.splits prod.splits)
  next
    case (Some a)
    obtain os' rest' where a: "a = (os', rest')" by (cases a)
    have k: "0 < k" using Some by (simp split: if_splits)
    then have "read_separator CHR '':'' i read_ipv4_addr s = Some (os', rest')"
      using Some a by simp
    then have "length os' = 4"
      by (auto simp: read_separator_def read_ipv4_addr_def dest: read_ipv4_groups_length
          split: if_splits option.splits)
    with Some a k 2(2) show ?thesis by simp
  qed
qed simp

lemma parse_ip_wf: "parse_ip s = Some ip \<Longrightarrow> wf_ip ip"
proof (cases ip)
  case (V4 os)
  assume "parse_ip s = Some ip"
  with V4 show ?thesis by (simp add: parse_ip_v4_length)
next
  case (V6 os)
  assume "parse_ip s = Some ip"
  with V6 obtain rest where "read_ipv6_addr s = Some (os, rest)"
    by (auto simp: parse_ip_def split: option.splits if_splits prod.splits)
  then have "length os = 16"
    by (auto simp: read_ipv6_addr_def split: prod.splits if_splits option.splits
        dest!: read_groups_length)
  with V6 show ?thesis by simp
qed

end
