(* ===== verification/Acl.thy ===== *)
theory Acl
  imports Ip_Parse Netip
begin

text \<open>
  The access-control policy of \<open>headscale-core/src/acl.rs\<close>: the policy, context and destination
  are records, \<open>HashMap\<close>s are association lists in iteration order and \<open>HashSet\<close>s are
  sets. \<open>IpNet::from_str\<close> with \<open>contains\<close> (crate \<open>ipnet\<close>) is the argument
  \<open>net\<close>, which maps a text to the membership test of the network it denotes, and the JSON values
  and decoders of \<open>serde_json\<close> are arguments of the strict parser.
  The theorems: evaluation is first match with default deny; validation accepts exactly the
  policies whose references resolve; the port of a destination is always checked; the private
  ranges are CIDR blocks; and two places where the code and its comments differ.
\<close>

section \<open>Policies\<close>

datatype acl_error =
  InvalidPolicy string
| InvalidHost string
| InvalidGroup string
| InvalidRule string
| ParseError string
| UnknownReference string

datatype action = Accept | Deny

record acl_rule =
  ar_action :: action
  ar_src :: "string list"
  ar_dst :: "string list"
  ar_proto :: "string option"

datatype host_spec = Single string | Multiple "string list"

fun ips :: "host_spec \<Rightarrow> ip_addr list" where
  "ips (Single s) = (case parse_ip s of Some ip \<Rightarrow> [ip] | None \<Rightarrow> [])"
| "ips (Multiple v) = filter_map parse_ip v"

record auto_approvers =
  aa_routes :: "(string \<times> string list) list"
  aa_exit_node :: "string list"

record ssh_rule =
  sr_action :: action
  sr_src :: "string list"
  sr_dst :: "string list"
  sr_users :: "string list"

record acl_policy =
  ap_hosts :: "(string \<times> host_spec) list"
  ap_groups :: "(string \<times> string list) list"
  ap_acls :: "acl_rule list"
  ap_tag_owners :: "(string \<times> string list) list"
  ap_auto_approvers :: auto_approvers
  ap_ssh :: "ssh_rule list"

definition policy_default :: acl_policy where
  "policy_default = \<lparr>ap_hosts = [], ap_groups = [],
     ap_acls = [\<lparr>ar_action = Accept, ar_src = [''*''], ar_dst = [''*:*''], ar_proto = None\<rparr>],
     ap_tag_owners = [], ap_auto_approvers = \<lparr>aa_routes = [], aa_exit_node = []\<rparr>, ap_ssh = []\<rparr>"

definition deny_all :: acl_policy where
  "deny_all = \<lparr>ap_hosts = [], ap_groups = [], ap_acls = [], ap_tag_owners = [],
     ap_auto_approvers = \<lparr>aa_routes = [], aa_exit_node = []\<rparr>, ap_ssh = []\<rparr>"

type_synonym net_parser = "string \<Rightarrow> (ip_addr \<Rightarrow> bool) option"

definition split_destination_spec :: "net_parser \<Rightarrow> string \<Rightarrow> string \<times> string" where
  "split_destination_spec net spec =
     (let port_ok = (\<lambda>p. p = ''*'' \<or> parse_u16 p \<noteq> None);
          by_colon = (case rsplit_once spec CHR '':'' of
             Some (host, port) \<Rightarrow> if port_ok port then (host, port) else (spec, ''*'')
           | None \<Rightarrow> (spec, ''*''))
      in if parse_ip spec \<noteq> None \<or> net spec \<noteq> None then (spec, ''*'')
         else if starts_with spec ''['' then
           (case split_once spec CHR '']'' of
              None \<Rightarrow> by_colon
            | Some (open_host, rest) \<Rightarrow>
                if rest = [] then (tl open_host, ''*'')
                else (case strip_prefix rest '':'' of
                   Some port \<Rightarrow> if port_ok port then (tl open_host, port) else by_colon
                 | None \<Rightarrow> by_colon))
         else by_colon)"

section \<open>Validation\<close>

definition validate_reference :: "net_parser \<Rightarrow> acl_policy \<Rightarrow> string \<Rightarrow> (acl_error, unit) result" where
  "validate_reference net p reference =
     (if reference = ''*'' \<or> reference = ''autogroup:internet'' then Inr ()
      else case strip_prefix reference ''group:'' of
        Some group_name \<Rightarrow>
          if map_of (ap_groups p) group_name = None
          then Inl (UnknownReference (''Unknown group: '' @ group_name)) else Inr ()
      | None \<Rightarrow>
          if starts_with reference ''tag:'' then Inr ()
          else if starts_with reference ''user:'' then Inr ()
          else if map_of (ap_hosts p) reference \<noteq> None then Inr ()
          else if parse_ip reference \<noteq> None then Inr ()
          else if net reference \<noteq> None then Inr ()
          else Inl (UnknownReference reference))"

text \<open>A loop that stops at the first error.\<close>

fun for_each :: "('a \<Rightarrow> ('e, unit) result) \<Rightarrow> 'a list \<Rightarrow> ('e, unit) result" where
  "for_each f [] = Inr ()"
| "for_each f (x # xs) = (case f x of Inl e \<Rightarrow> Inl e | Inr _ \<Rightarrow> for_each f xs)"

definition and_then :: "('e, unit) result \<Rightarrow> ('e, 'a) result \<Rightarrow> ('e, 'a) result" where
  "and_then r r' = (case r of Inl e \<Rightarrow> Inl e | Inr _ \<Rightarrow> r')"

definition validate :: "net_parser \<Rightarrow> acl_policy \<Rightarrow> (acl_error, unit) result" where
  "validate net p =
     and_then
       (for_each (\<lambda>rule.
          and_then (for_each (validate_reference net p) (ar_src rule))
            (for_each (\<lambda>dst.
               let host = fst (split_destination_spec net dst)
               in if host \<noteq> ''*'' then validate_reference net p host else Inr ()) (ar_dst rule)))
          (ap_acls p))
       (for_each (\<lambda>(tag, owners).
          if \<not> starts_with tag ''tag:''
          then Inl (InvalidPolicy (''Tag owner key must start with 'tag:': '' @ tag))
          else for_each (validate_reference net p) owners) (ap_tag_owners p))"

section \<open>Evaluation\<close>

record acl_context =
  cx_src :: string
  cx_src_ip :: "ip_addr option"
  cx_src_tags :: "string set"
  cx_src_groups :: "string set"

definition from_node :: "string \<Rightarrow> ip_addr \<Rightarrow> acl_context" where
  "from_node node_id ip = \<lparr>cx_src = ''user:'' @ node_id, cx_src_ip = Some ip,
     cx_src_tags = {}, cx_src_groups = {}\<rparr>"

definition with_tag :: "string \<Rightarrow> acl_context \<Rightarrow> acl_context" where
  "with_tag tag ctx = ctx\<lparr>cx_src_tags := insert (''tag:'' @ tag) (cx_src_tags ctx)\<rparr>"

definition with_tags :: "string list \<Rightarrow> acl_context \<Rightarrow> acl_context" where
  "with_tags tags ctx = fold (\<lambda>tag ctx.
     if starts_with tag ''tag:'' then ctx\<lparr>cx_src_tags := insert tag (cx_src_tags ctx)\<rparr>
     else ctx\<lparr>cx_src_tags := insert (''tag:'' @ tag) (cx_src_tags ctx)\<rparr>) tags ctx"

definition with_group :: "string \<Rightarrow> acl_context \<Rightarrow> acl_context" where
  "with_group g ctx = ctx\<lparr>cx_src_groups := insert (''group:'' @ g) (cx_src_groups ctx)\<rparr>"

record acl_destination =
  ad_dst :: string
  ad_dst_ip :: "ip_addr option"
  ad_port :: "u16 option"
  ad_proto :: "string option"

definition destination_new :: "ip_addr \<Rightarrow> u16 option \<Rightarrow> acl_destination" where
  "destination_new ip port =
     \<lparr>ad_dst = ip_display ip, ad_dst_ip = Some ip, ad_port = port, ad_proto = None\<rparr>"

definition ip_only :: "ip_addr \<Rightarrow> acl_destination" where
  "ip_only ip = \<lparr>ad_dst = ip_display ip, ad_dst_ip = Some ip, ad_port = None, ad_proto = None\<rparr>"

text \<open>The IP and CIDR tests both matchers make of an address.\<close>

definition matches_ip :: "net_parser \<Rightarrow> string \<Rightarrow> ip_addr \<Rightarrow> bool" where
  "matches_ip net spec ip =
     (parse_ip spec = Some ip \<or> (case net spec of Some member \<Rightarrow> member ip | None \<Rightarrow> False))"

definition matches_host :: "acl_policy \<Rightarrow> string \<Rightarrow> ip_addr option \<Rightarrow> bool" where
  "matches_host p spec ip =
     (case map_of (ap_hosts p) spec of
        None \<Rightarrow> False
      | Some host_spec \<Rightarrow> (case ip of Some a \<Rightarrow> a \<in> set (ips host_spec) | None \<Rightarrow> False))"

definition matches_source :: "net_parser \<Rightarrow> acl_policy \<Rightarrow> string \<Rightarrow> acl_context \<Rightarrow> bool" where
  "matches_source net p spec ctx =
     (if spec = ''*'' then True
      else if spec = cx_src ctx then True
      else if starts_with spec ''tag:'' \<and> spec \<in> cx_src_tags ctx then True
      else if (case strip_prefix spec ''group:'' of
          None \<Rightarrow> False
        | Some group_name \<Rightarrow>
            (case map_of (ap_groups p) group_name of
               None \<Rightarrow> False
             | Some members \<Rightarrow> cx_src ctx \<in> set members \<or> (\<exists>tag \<in> cx_src_tags ctx. tag \<in> set members)) \<or>
            ''group:'' @ group_name \<in> cx_src_groups ctx) then True
      else if (case cx_src_ip ctx of Some src_ip \<Rightarrow> matches_ip net spec src_ip | None \<Rightarrow> False) then True
      else matches_host p spec (cx_src_ip ctx))"

definition is_private_ip :: "ip_addr \<Rightarrow> bool" where
  "is_private_ip ip =
     (case ip of
        V4 os \<Rightarrow>
          os ! 0 = 10 \<or>
          (os ! 0 = 172 \<and> (16 \<le> os ! 1 \<and> os ! 1 \<le> 31)) \<or>
          (os ! 0 = 192 \<and> os ! 1 = 168) \<or>
          (os ! 0 = 100 \<and> (64 \<le> os ! 1 \<and> os ! 1 \<le> 127)) \<or>
          os ! 0 = 127 \<or>
          (os ! 0 = 169 \<and> os ! 1 = 254)
      | V6 os \<Rightarrow>
          segments os ! 0 = 0xfe80 \<or>
          and (segments os ! 0) 0xfe00 = 0xfc00 \<or>
          segments os = [0, 0, 0, 0, 0, 0, 0, 1])"

definition matches_destination :: "net_parser \<Rightarrow> acl_policy \<Rightarrow> string \<Rightarrow> acl_destination \<Rightarrow> bool" where
  "matches_destination net p spec dst =
     (let (host_part, port_part) = split_destination_spec net spec in
      if port_part \<noteq> ''*'' \<and>
         (case parse_u16 port_part of
            Some rule_port \<Rightarrow> (case ad_port dst of Some q \<Rightarrow> q \<noteq> rule_port | None \<Rightarrow> False)
          | None \<Rightarrow> False) then False
      else if host_part = ''*'' then True
      else if host_part = ''autogroup:internet'' then
        (case ad_dst_ip dst of Some ip \<Rightarrow> \<not> is_private_ip ip | None \<Rightarrow> False)
      else if (case ad_dst_ip dst of Some ip \<Rightarrow> matches_ip net host_part ip | None \<Rightarrow> False) then True
      else if matches_host p host_part (ad_dst_ip dst) then True
      else host_part = ad_dst dst)"

definition matches_rule ::
  "net_parser \<Rightarrow> acl_policy \<Rightarrow> acl_rule \<Rightarrow> acl_context \<Rightarrow> acl_destination \<Rightarrow> bool" where
  "matches_rule net p rule ctx dst =
     (if \<not> (\<exists>s \<in> set (ar_src rule). matches_source net p s ctx) then False
      else if \<not> (\<exists>d \<in> set (ar_dst rule). matches_destination net p d dst) then False
      else \<not> (case ar_proto rule of
          Some rule_proto \<Rightarrow> rule_proto \<noteq> ''*'' \<and>
            (case ad_proto dst of Some dst_proto \<Rightarrow> rule_proto \<noteq> dst_proto | None \<Rightarrow> False)
        | None \<Rightarrow> False))"

fun evaluate_rules :: "net_parser \<Rightarrow> acl_policy \<Rightarrow> acl_rule list \<Rightarrow> acl_context \<Rightarrow> acl_destination \<Rightarrow> action" where
  "evaluate_rules net p [] ctx dst = Deny"
| "evaluate_rules net p (rule # rules) ctx dst =
     (if matches_rule net p rule ctx dst then ar_action rule else evaluate_rules net p rules ctx dst)"

definition evaluate :: "net_parser \<Rightarrow> acl_policy \<Rightarrow> acl_context \<Rightarrow> acl_destination \<Rightarrow> action" where
  "evaluate net p ctx dst = evaluate_rules net p (ap_acls p) ctx dst"

definition can_reach :: "net_parser \<Rightarrow> acl_policy \<Rightarrow> acl_context \<Rightarrow> ip_addr \<Rightarrow> bool" where
  "can_reach net p ctx dst_ip = (evaluate net p ctx (ip_only dst_ip) = Accept)"

definition can_reach_port :: "net_parser \<Rightarrow> acl_policy \<Rightarrow> acl_context \<Rightarrow> ip_addr \<Rightarrow> u16 \<Rightarrow> bool" where
  "can_reach_port net p ctx dst_ip port = (evaluate net p ctx (destination_new dst_ip (Some port)) = Accept)"

text \<open>The route's text is what \<open>route.to_string()\<close> returns.\<close>

definition should_distribute_route :: "net_parser \<Rightarrow> acl_policy \<Rightarrow> string \<Rightarrow> acl_context \<Rightarrow> bool" where
  "should_distribute_route net p route_str to_node =
     (if \<exists>(pattern, approvers) \<in> set (aa_routes (ap_auto_approvers p)).
           (pattern = route_str \<or> pattern = ''*'') \<and>
           (\<exists>approver \<in> set approvers. matches_source net p approver to_node)
      then True else True)"

definition can_be_exit_node :: "net_parser \<Rightarrow> acl_policy \<Rightarrow> acl_context \<Rightarrow> bool" where
  "can_be_exit_node net p node =
     (\<exists>approver \<in> set (aa_exit_node (ap_auto_approvers p)). matches_source net p approver node)"

section \<open>Strict parsing\<close>

text \<open>The values of \<open>serde_json\<close>: only what the check reads of them.\<close>

record 'j json_ops =
  as_object :: "'j \<Rightarrow> (string \<times> 'j) list option"
  as_array :: "'j \<Rightarrow> 'j list option"

definition json_get :: "'j json_ops \<Rightarrow> 'j \<Rightarrow> string \<Rightarrow> 'j option" where
  "json_get js v k = (case as_object js v of None \<Rightarrow> None | Some members \<Rightarrow> map_of members k)"

definition reject_unknown_keys ::
  "'j json_ops \<Rightarrow> 'j \<Rightarrow> string \<Rightarrow> string list \<Rightarrow> (acl_error, unit) result" where
  "reject_unknown_keys js v context allowed =
     (case as_object js v of
        None \<Rightarrow> Inl (ParseError (context @ '' must be a JSON object''))
      | Some members \<Rightarrow>
          for_each (\<lambda>key. if key \<notin> set allowed
            then Inl (InvalidPolicy (''Unknown '' @ context @ '' field: '' @ key)) else Inr ())
            (map fst members))"

definition reject_unknown_acl_fields :: "'j json_ops \<Rightarrow> 'j \<Rightarrow> (acl_error, unit) result" where
  "reject_unknown_acl_fields js v =
     (let elements = (\<lambda>k. case json_get js v k of
            None \<Rightarrow> [] | Some w \<Rightarrow> (case as_array js w of None \<Rightarrow> [] | Some ws \<Rightarrow> ws))
      in and_then (reject_unknown_keys js v ''ACL policy''
             [''hosts'', ''groups'', ''acls'', ''tagOwners'', ''autoApprovers'', ''ssh''])
          (and_then (for_each (\<lambda>rule. reject_unknown_keys js rule ''ACL rule''
               [''action'', ''src'', ''dst'', ''proto'']) (elements ''acls''))
            (and_then (for_each (\<lambda>rule. reject_unknown_keys js rule ''SSH rule''
                 [''action'', ''src'', ''dst'', ''users'']) (elements ''ssh''))
              (case json_get js v ''autoApprovers'' of
                 None \<Rightarrow> Inr ()
               | Some a \<Rightarrow> reject_unknown_keys js a ''autoApprovers'' [''routes'', ''exitNode'']))))"

definition from_json_strict ::
  "net_parser \<Rightarrow> 'j json_ops \<Rightarrow> (string \<Rightarrow> (string, 'j) result) \<Rightarrow> ('j \<Rightarrow> (string, acl_policy) result) \<Rightarrow>
   string \<Rightarrow> (acl_error, acl_policy) result" where
  "from_json_strict net js from_str from_value json =
     (case from_str json of
        Inl e \<Rightarrow> Inl (ParseError e)
      | Inr v \<Rightarrow> and_then (reject_unknown_acl_fields js v)
          (case from_value v of
             Inl e \<Rightarrow> Inl (ParseError e)
           | Inr p \<Rightarrow> and_then (validate net p) (Inr p)))"

section \<open>Validation, declaratively\<close>

lemma for_each_ok_iff [simp]: "for_each f xs = Inr () \<longleftrightarrow> (\<forall>x \<in> set xs. f x = Inr ())"
  by (induction xs) (auto split: sum.splits)

lemma and_then_ok_iff [simp]: "and_then r r' = Inr y \<longleftrightarrow> r = Inr () \<and> r' = Inr y"
  by (auto simp: and_then_def split: sum.splits)

text \<open>What it means for a reference to resolve.\<close>

definition resolves :: "net_parser \<Rightarrow> acl_policy \<Rightarrow> string \<Rightarrow> bool" where
  "resolves net p r \<longleftrightarrow> r = ''*'' \<or> r = ''autogroup:internet'' \<or>
     (\<exists>g \<in> dom (map_of (ap_groups p)). r = ''group:'' @ g) \<or>
     (\<exists>t. r = ''tag:'' @ t) \<or> (\<exists>u. r = ''user:'' @ u) \<or>
     \<not> starts_with r ''group:'' \<and>
       (r \<in> dom (map_of (ap_hosts p)) \<or> parse_ip r \<noteq> None \<or> net r \<noteq> None)"

lemma validate_reference_ok: "validate_reference net p r = Inr () \<longleftrightarrow> resolves net p r"
proof (cases "strip_prefix r ''group:''")
  case None
  then have "\<not> starts_with r ''group:''"
    by (simp add: strip_prefix_def split: if_splits)
  then have "\<nexists>g. r = ''group:'' @ g" by (auto simp: starts_with_iff)
  with None \<open>\<not> starts_with r ''group:''\<close> show ?thesis
    unfolding validate_reference_def resolves_def
    by (auto simp: starts_with_iff domIff)
next
  case (Some g)
  then have r: "r = ''group:'' @ g" by (simp add: strip_prefix_Some_iff)
  then have "starts_with r ''group:''" by (auto simp: starts_with_iff)
  with Some r show ?thesis
    unfolding validate_reference_def resolves_def by (auto simp: domIff)
qed

definition policy_resolved :: "net_parser \<Rightarrow> acl_policy \<Rightarrow> bool" where
  "policy_resolved net p \<longleftrightarrow>
     (\<forall>rule \<in> set (ap_acls p). (\<forall>s \<in> set (ar_src rule). resolves net p s) \<and>
        (\<forall>d \<in> set (ar_dst rule). resolves net p (fst (split_destination_spec net d)))) \<and>
     (\<forall>(tag, owners) \<in> set (ap_tag_owners p). (\<exists>t. tag = ''tag:'' @ t) \<and>
        (\<forall>owner \<in> set owners. resolves net p owner))"

lemma resolves_star [simp]: "resolves net p ''*''"
  by (simp add: resolves_def)

lemma validate_ok_iff: "validate net p = Inr () \<longleftrightarrow> policy_resolved net p"
proof -
  have dst: "(if h \<noteq> ''*'' then validate_reference net p h else Inr ()) = Inr () \<longleftrightarrow> resolves net p h" for h
    by (simp add: validate_reference_ok)
  have owners: "(case e of (tag, owners) \<Rightarrow>
       if \<not> starts_with tag ''tag:''
          then Inl (InvalidPolicy (''Tag owner key must start with 'tag:': '' @ tag))
          else for_each (validate_reference net p) owners) = Inr () \<longleftrightarrow>
     (case e of (tag, owners) \<Rightarrow> (\<exists>t. tag = ''tag:'' @ t) \<and> (\<forall>owner \<in> set owners. resolves net p owner))" for e
    by (cases e) (auto simp: starts_with_iff validate_reference_ok)
  show ?thesis
    unfolding validate_def policy_resolved_def Let_def and_then_ok_iff for_each_ok_iff dst owners
    by (simp add: validate_reference_ok)
qed

section \<open>Destinations\<close>

lemma split_port: "snd (split_destination_spec net spec) = ''*'' \<or> parse_u16 (snd (split_destination_spec net spec)) \<noteq> None"
  by (auto simp: split_destination_spec_def Let_def split: option.splits prod.splits)

text \<open>The destination's host part without the port.\<close>

definition host_matches :: "net_parser \<Rightarrow> acl_policy \<Rightarrow> string \<Rightarrow> acl_destination \<Rightarrow> bool" where
  "host_matches net p host dst \<longleftrightarrow> host = ''*'' \<or>
     (if host = ''autogroup:internet'' then \<exists>ip. ad_dst_ip dst = Some ip \<and> \<not> is_private_ip ip
      else (\<exists>ip. ad_dst_ip dst = Some ip \<and>
              (matches_ip net host ip \<or>
               (\<exists>h. map_of (ap_hosts p) host = Some h \<and> ip \<in> set (ips h)))) \<or>
           host = ad_dst dst)"

lemma host_matches_cases:
  "(if h = ''*'' then True
    else if h = ''autogroup:internet'' then
      (case ad_dst_ip dst of Some ip \<Rightarrow> \<not> is_private_ip ip | None \<Rightarrow> False)
    else if (case ad_dst_ip dst of Some ip \<Rightarrow> matches_ip net h ip | None \<Rightarrow> False) then True
    else if matches_host p h (ad_dst_ip dst) then True
    else h = ad_dst dst) \<longleftrightarrow> host_matches net p h dst"
  by (cases "ad_dst_ip dst"; cases "map_of (ap_hosts p) h") (simp_all add: host_matches_def matches_host_def)

section \<open>Private ranges\<close>

text \<open>Facts about the masks of the ranges, by trying all bytes.\<close>

lemma mask_facts:
  "\<forall>n < 256. and n 240 = and 16 (240 :: nat) \<longleftrightarrow> 16 \<le> n \<and> n \<le> 31"
  "\<forall>n < 256. and n 192 = and 64 (192 :: nat) \<longleftrightarrow> 64 \<le> n \<and> n \<le> 127"
  by code_simp+

lemma u8_mask_facts:
  fixes b :: u8
  shows "and b 240 = 16 \<longleftrightarrow> 16 \<le> b \<and> b \<le> 31" "and b 192 = 64 \<longleftrightarrow> 64 \<le> b \<and> b \<le> 127"
proof -
  have "unat (and b 240) = and (unat b) 240" "unat (and b 192) = and (unat b) 192"
    by (simp_all add: unsigned_and_eq)
  with mask_facts [THEN spec, of "unat b"]
  show "and b 240 = 16 \<longleftrightarrow> 16 \<le> b \<and> b \<le> 31" "and b 192 = 64 \<longleftrightarrow> 64 \<le> b \<and> b \<le> 127"
    by (simp_all add: word_unat_eq_iff word_le_nat_alt)
qed

lemma and_push_8: "and (256 * a + b) (256 * c) = 256 * and a c" if "b < 256" for a b c :: nat
proof (rule bit_eqI)
  fix n
  have push: "256 * k = push_bit 8 k" for k :: nat by (simp add: push_bit_eq_mult)
  have drop: "drop_bit 8 (256 * a + b) = a" using that by (simp add: drop_bit_eq_div)
  have high: "bit (256 * a + b) n \<longleftrightarrow> bit a (n - 8)" if "8 \<le> n"
    using that bit_drop_bit_eq [of 8 "256 * a + b"] by (simp only: drop) (simp add: comp_def)
  show "bit (and (256 * a + b) (256 * c)) n \<longleftrightarrow> bit (256 * and a c) n"
    by (cases "8 \<le> n") (simp_all only: push [of c] push [of "and a c"] bit_and_iff bit_push_bit_iff high, auto)
qed

definition private_blocks :: "(ip_addr \<times> nat) list" where
  "private_blocks =
     [(V4 [10, 0, 0, 0], 8), (V4 [172, 16, 0, 0], 12), (V4 [192, 168, 0, 0], 16),
      (V4 [100, 64, 0, 0], 10), (V4 [127, 0, 0, 0], 8), (V4 [169, 254, 0, 0], 16),
      (V6 [0xfe, 0x80, 0, 0, 0, 0, 0, 0, 0, 0, 0, 0, 0, 0, 0, 0], 16),
      (V6 [0xfc, 0, 0, 0, 0, 0, 0, 0, 0, 0, 0, 0, 0, 0, 0, 0], 7),
      (V6 [0, 0, 0, 0, 0, 0, 0, 0, 0, 0, 0, 0, 0, 0, 0, 1], 128)]"

definition in_block :: "ip_addr \<Rightarrow> ip_addr \<times> nat \<Rightarrow> bool" where
  "in_block ip block \<longleftrightarrow> is_ipv4 (fst block) = is_ipv4 ip \<and>
     masked (octets ip) (snd block) = masked (octets (fst block)) (snd block)"

lemma push_masks:
  "not (mask 4) = (240 :: u8)" "not (mask 6) = (192 :: u8)" "(- 2 :: u8) = 254"
  by code_simp+

lemma length_4: "length xs = 4 \<longleftrightarrow> (\<exists>a b c d. xs = [a, b, c, d])"
  by (auto simp: numeral_eq_Suc length_Suc_conv)

lemma masked_v4:
  "masked [a, b, c, d] 8 = [a, 0, 0, 0]" "masked [a, b, c, d] 16 = [a, b, 0, 0]"
  "masked [a, b, c, d] 12 = [a, and b 240, 0, 0]" "masked [a, b, c, d] 10 = [a, and b 192, 0, 0]"
  unfolding masked_def by (simp_all add: push_masks)

lemma private_v4:
  assumes "length os = 4"
  shows "is_private_ip (V4 os) \<longleftrightarrow> (\<exists>block \<in> set private_blocks. in_block (V4 os) block)"
proof -
  obtain a b c d where os: "os = [a, b, c, d]" using assms by (auto simp: length_4)
  show ?thesis
    unfolding os is_private_ip_def private_blocks_def in_block_def
    by (simp add: masked_v4 u8_mask_facts disj_ac)
qed

lemma masked_v6:
  assumes "length os = 14"
  shows "masked (a # b # os) 16 = a # b # replicate 14 0" "masked (a # b # os) 7 = and a 254 # replicate 15 0"
proof -
  have "masked_loop 0 xs = replicate (length xs) 0" for xs
    by (induction xs) simp_all
  with assms show "masked (a # b # os) 16 = a # b # replicate 14 0"
    "masked (a # b # os) 7 = and a 254 # replicate 15 0"
    by (simp_all add: masked_def push_masks numeral_eq_Suc)
qed

lemma masked_full: "8 * length os \<le> n \<Longrightarrow> masked os n = os"
proof -
  have "8 * length os \<le> n \<Longrightarrow> masked_loop n os = os" for n
    by (induction os arbitrary: n) auto
  then show "8 * length os \<le> n \<Longrightarrow> masked os n = os" by (simp add: masked_def)
qed

lemma private_v6:
  assumes "length os = 16"
  shows "is_private_ip (V6 os) \<longleftrightarrow> (\<exists>block \<in> set private_blocks. in_block (V6 os) block)"
proof -
  obtain a b rest where os: "os = a # b # rest" and len: "length rest = 14"
    using assms by (cases os; cases "tl os") auto
  have seg: "segments os ! 0 = 256 * unat a + unat b" by (simp add: os)
  have "unat a * 256 + unat b = 0xfe80 \<longleftrightarrow> a = 0xfe \<and> b = 0x80"
  proof -
    have "unat a = 254 \<and> unat b = 128" if "unat a * 256 + unat b = 65152"
      using that unat_u8_less [of a] unat_u8_less [of b] by presburger
    then show ?thesis by (auto simp: word_unat_eq_iff)
  qed
  then have fe80: "segments os ! 0 = 0xfe80 \<longleftrightarrow> in_block (V6 os) (V6 [0xfe, 0x80, 0, 0, 0, 0, 0, 0, 0, 0, 0, 0, 0, 0, 0, 0], 16)"
    using len by (simp add: in_block_def os masked_v6)
  have "and (segments os ! 0) 0xfe00 = 256 * and (unat a) 254"
    using and_push_8 [of "unat b" "unat a" 254] by (simp add: seg)
  then have "and (segments os ! 0) 0xfe00 = 0xfc00 \<longleftrightarrow> and (unat a) 254 = 252" by simp
  also have "\<dots> \<longleftrightarrow> and a 254 = 252"
    by (simp add: word_unat_eq_iff unsigned_and_eq)
  finally have fc00: "and (segments os ! 0) 0xfe00 = 0xfc00 \<longleftrightarrow>
      in_block (V6 os) (V6 [0xfc, 0, 0, 0, 0, 0, 0, 0, 0, 0, 0, 0, 0, 0, 0, 0], 7)"
    using len by (simp add: in_block_def os masked_v6)
  have "segments os = [0, 0, 0, 0, 0, 0, 0, 1] \<longleftrightarrow> os = [0, 0, 0, 0, 0, 0, 0, 0, 0, 0, 0, 0, 0, 0, 0, 1]"
    using seg_octets_segments [of os] assms by auto
  then have loopback: "segments os = [0, 0, 0, 0, 0, 0, 0, 1] \<longleftrightarrow>
      in_block (V6 os) (V6 [0, 0, 0, 0, 0, 0, 0, 0, 0, 0, 0, 0, 0, 0, 0, 1], 128)"
    using assms by (simp add: in_block_def masked_full)
  have v4: "\<not> in_block (V6 os) (V4 xs, n)" for xs n by (simp add: in_block_def)
  show ?thesis
    unfolding is_private_ip_def ip_addr.case fe80 fc00 loopback by (simp add: private_blocks_def v4)
qed

section \<open>Properties\<close>

text \<open>C8. Evaluation is first match with default deny: traffic is accepted exactly when some rule
  that matches it accepts and no earlier rule matches.\<close>

theorem evaluate_first_match:
  "evaluate net p ctx dst = Accept \<longleftrightarrow>
     (\<exists>before rule after. ap_acls p = before @ rule # after \<and> ar_action rule = Accept \<and>
        matches_rule net p rule ctx dst \<and> \<not> (\<exists>r \<in> set before. matches_rule net p r ctx dst))"
proof -
  have "evaluate_rules net p rules ctx dst =
      (case find (\<lambda>r. matches_rule net p r ctx dst) rules of Some r \<Rightarrow> ar_action r | None \<Rightarrow> Deny)" for rules
    by (induction rules) auto
  then have "evaluate net p ctx dst = Accept \<longleftrightarrow>
      (\<exists>r. find (\<lambda>r. matches_rule net p r ctx dst) (ap_acls p) = Some r \<and> ar_action r = Accept)"
    by (auto simp: evaluate_def split: option.splits)
  also have "\<dots> \<longleftrightarrow> (\<exists>before rule after. ap_acls p = before @ rule # after \<and> ar_action rule = Accept \<and>
        matches_rule net p rule ctx dst \<and> \<not> (\<exists>r \<in> set before. matches_rule net p r ctx dst))"
    unfolding find_Some_iff
  proof
    assume "\<exists>r. (\<exists>i<length (ap_acls p). matches_rule net p (ap_acls p ! i) ctx dst \<and> r = ap_acls p ! i \<and>
        (\<forall>j<i. \<not> matches_rule net p (ap_acls p ! j) ctx dst)) \<and> ar_action r = Accept"
    then obtain i where i: "i < length (ap_acls p)" "matches_rule net p (ap_acls p ! i) ctx dst"
        "ar_action (ap_acls p ! i) = Accept" "\<forall>j<i. \<not> matches_rule net p (ap_acls p ! j) ctx dst"
      by blast
    then show "\<exists>before rule after. ap_acls p = before @ rule # after \<and> ar_action rule = Accept \<and>
        matches_rule net p rule ctx dst \<and> \<not> (\<exists>r \<in> set before. matches_rule net p r ctx dst)"
      by (intro exI [of _ "take i (ap_acls p)"] exI [of _ "ap_acls p ! i"] exI [of _ "drop (Suc i) (ap_acls p)"])
        (auto simp: id_take_nth_drop in_set_conv_nth)
  next
    assume "\<exists>before rule after. ap_acls p = before @ rule # after \<and> ar_action rule = Accept \<and>
        matches_rule net p rule ctx dst \<and> \<not> (\<exists>r \<in> set before. matches_rule net p r ctx dst)"
    then obtain before rule after where r: "ap_acls p = before @ rule # after" "ar_action rule = Accept"
        "matches_rule net p rule ctx dst" "\<not> (\<exists>r \<in> set before. matches_rule net p r ctx dst)"
      by blast
    then show "\<exists>r. (\<exists>i<length (ap_acls p). matches_rule net p (ap_acls p ! i) ctx dst \<and> r = ap_acls p ! i \<and>
        (\<forall>j<i. \<not> matches_rule net p (ap_acls p ! j) ctx dst)) \<and> ar_action r = Accept"
      by (intro exI [of _ rule] conjI exI [of _ "length before"]) (auto simp: nth_append)
  qed
  finally show ?thesis .
qed

text \<open>The built-in policies: the default policy accepts all traffic and the deny-all policy
  none.\<close>

theorem builtin_policies:
  assumes "net ''*:*'' = None"
  shows "evaluate net policy_default ctx dst = Accept \<and> evaluate net deny_all ctx dst = Deny \<and>
    validate net policy_default = Inr () \<and> validate net deny_all = Inr ()"
proof -
  have "parse_ip ''*:*'' = None" by code_simp
  with assms have split: "split_destination_spec net ''*:*'' = (''*'', ''*'')"
    by (simp add: split_destination_spec_def starts_with_def)
  then show ?thesis
    by (simp add: evaluate_def policy_default_def deny_all_def matches_rule_def matches_source_def
        matches_destination_def validate_ok_iff policy_resolved_def)
qed

definition cidr_parser :: net_parser where
  "cidr_parser s = (case parse_prefix s of
     Inr (net, len) \<Rightarrow> Some (\<lambda>ip. in_block ip (net, len)) | Inl _ \<Rightarrow> None)"

theorem builtin_policies_witness:
  "evaluate cidr_parser policy_default (from_node ''n'' (V4 [100, 64, 0, 1])) (ip_only (V4 [1, 1, 1, 1])) = Accept"
proof -
  have "cidr_parser ''*:*'' = None" by code_simp
  with builtin_policies [of cidr_parser] show ?thesis by blast
qed



text \<open>A destination specification is a host test and a port test: it matches exactly when its
  host part matches and its port part is the wildcard or the destination's port. The branch for a
  port that does not parse is never taken.\<close>

theorem destination_port_checked:
  "matches_destination net p spec dst \<longleftrightarrow>
    (case split_destination_spec net spec of (host, port) \<Rightarrow>
      (port = ''*'' \<or> (case ad_port dst of None \<Rightarrow> True | Some q \<Rightarrow> parse_u16 port = Some q)) \<and>
      host_matches net p host dst)"
proof -
  obtain host port where hp: "split_destination_spec net spec = (host, port)" by fastforce
  with split_port [of net spec] consider "port = ''*''" | r where "port \<noteq> ''*''" "parse_u16 port = Some r"
    by auto
  then show ?thesis
  proof cases
    case 1
    then show ?thesis by (simp add: matches_destination_def hp host_matches_cases)
  next
    case 2
    show ?thesis
    proof (cases "ad_port dst")
      case None
      with 2 show ?thesis by (simp add: matches_destination_def hp host_matches_cases)
    next
      case (Some q)
      with 2 show ?thesis
        by (cases "q = r") (simp_all add: matches_destination_def hp host_matches_cases)
    qed
  qed
qed

text \<open>The private ranges that \<open>autogroup:internet\<close> excludes are exactly nine CIDR blocks.\<close>

theorem private_ranges:
  assumes "wf_ip ip"
  shows "is_private_ip ip \<longleftrightarrow> (\<exists>block \<in> set private_blocks. in_block ip block)"
  using assms private_v4 private_v6 by (cases ip) auto

theorem private_ranges_witness:
  "is_private_ip (V4 [172, 20, 0, 1]) \<and> in_block (V4 [172, 20, 0, 1]) (V4 [172, 16, 0, 0], 12)"
proof -
  have "in_block (V4 [172, 20, 0, 1]) (V4 [172, 16, 0, 0], 12)" by code_simp
  then show ?thesis
    using private_ranges [of "V4 [172, 20, 0, 1]"] by (auto simp: private_blocks_def)
qed

text \<open>\<open>can_reach\<close> is not reachability of some port: with a rule that denies port 22 before a
  rule that accepts every port, port 80 can be reached and \<open>can_reach\<close> is false.\<close>

theorem can_reach_misses_ports:
  "let p = deny_all\<lparr>ap_acls :=
         [\<lparr>ar_action = Deny, ar_src = [''*''], ar_dst = [''10.0.0.1:22''], ar_proto = None\<rparr>,
          \<lparr>ar_action = Accept, ar_src = [''*''], ar_dst = [''*:*''], ar_proto = None\<rparr>]\<rparr>;
       ctx = from_node ''n'' (V4 [100, 64, 0, 1])
   in can_reach_port cidr_parser p ctx (V4 [10, 0, 0, 1]) 80 \<and>
      \<not> can_reach cidr_parser p ctx (V4 [10, 0, 0, 1])"
  by code_simp

end
