(* ===== verification/Escrow.thy ===== *)
theory Escrow
  imports Ledger
begin

text \<open>
  The escrow manager of \<open>headscale-payments/src/escrow.rs\<close> on top of the ledger. The state is
  the ledger with the map of escrow records. A release changes the record before it pays, and keeps
  the change when a payment fails, so the releasing methods return the state in every case. Sums of
  percentages are sums of bytes, as in the code. The readings of the clock in one call are one
  argument.
  The theorems: an escrow whose percentages add up to 100 is solvent until it closes, so releasing a
  milestone never fails and pays every recipient its share; and three ways in which money is lost.
\<close>

section \<open>State\<close>

datatype escrow_state = Funded | Active | PendingVerification | Released | Disputed | Refunded

record milestone =
  mi_description :: string
  mi_percentage :: u8
  mi_completed :: bool
  mi_verified_by :: "string option"

record escrow_record =
  es_id :: string
  es_work_id :: string
  es_funder :: string
  es_recipients :: "(string \<times> u8) list"
  es_total :: u64
  es_released :: u64
  es_state :: escrow_state
  es_created_at :: u64
  es_milestones :: "milestone list"

record escrow =
  ec_ledger :: ledger
  ec_escrows :: "string \<rightharpoonup> escrow_record"

datatype escrow_error =
  NotFound | AlreadyClosed | InsufficientFunds | InvalidShares | InvalidMilestones
| InvalidMilestone | MilestoneAlreadyReleased | TransferFailed

definition escrow_new :: "ledger \<Rightarrow> escrow" where
  "escrow_new l = \<lparr>ec_ledger = l, ec_escrows = Map.empty\<rparr>"

definition generate_escrow_id :: "u64 \<Rightarrow> string" where
  "generate_escrow_id now = ''escrow_'' @ dec (unat now)"

definition escrow_account :: "string \<Rightarrow> string" where
  "escrow_account eid = ''escrow:'' @ eid"

section \<open>Operations\<close>

definition create ::
  "u64 \<Rightarrow> string \<Rightarrow> string \<Rightarrow> (string \<times> u8) list \<Rightarrow> u64 \<Rightarrow> milestone list \<Rightarrow> escrow \<Rightarrow>
   (escrow_error, escrow \<times> string) result" where
  "create now work_id funder recipients amount milestones s =
     (if sum_list (map snd recipients) \<noteq> 100 then Inl InvalidShares
      else if sum_list (map mi_percentage milestones) \<noteq> 100 then Inl InvalidMilestones
      else let eid = generate_escrow_id now in
        case transfer now funder (escrow_account eid) amount (''Escrow for work '' @ work_id) (ec_ledger s) of
          Inl _ \<Rightarrow> Inl InsufficientFunds
        | Inr (l, _) \<Rightarrow>
            Inr (s\<lparr>ec_ledger := l, ec_escrows := (ec_escrows s)(eid \<mapsto>
              \<lparr>es_id = eid, es_work_id = work_id, es_funder = funder, es_recipients = recipients,
               es_total = amount, es_released = 0, es_state = Funded, es_created_at = now,
               es_milestones = milestones\<rparr>)\<rparr>, eid))"

text \<open>The loop over the recipients, which stops at the first transfer that fails.\<close>

fun distribute ::
  "u64 \<Rightarrow> string \<Rightarrow> u64 \<Rightarrow> string \<Rightarrow> (string \<times> u8) list \<Rightarrow> ledger \<Rightarrow> ledger \<times> (escrow_error, unit) result" where
  "distribute now account amount description [] l = (l, Inr ())"
| "distribute now account amount description ((recipient, share) # rs) l =
     (case transfer now account recipient (amount * ucast share div 100) description l of
        Inl _ \<Rightarrow> (l, Inl TransferFailed)
      | Inr (l', _) \<Rightarrow> distribute now account amount description rs l')"

definition release_milestone ::
  "u64 \<Rightarrow> string \<Rightarrow> nat \<Rightarrow> string \<Rightarrow> escrow \<Rightarrow> escrow \<times> (escrow_error, u64) result" where
  "release_milestone now eid i verifier s =
     (case ec_escrows s eid of
        None \<Rightarrow> (s, Inl NotFound)
      | Some r \<Rightarrow>
          if es_state r = Released \<or> es_state r = Refunded then (s, Inl AlreadyClosed)
          else if \<not> i < length (es_milestones r) then (s, Inl InvalidMilestone)
          else let m = es_milestones r ! i in
            if mi_completed m then (s, Inl MilestoneAlreadyReleased)
            else
              let amount = es_total r * ucast (mi_percentage m) div 100;
                  r1 = r\<lparr>es_milestones := (es_milestones r)[i := m\<lparr>mi_completed := True,
                             mi_verified_by := Some verifier\<rparr>],
                         es_released := es_released r + amount, es_state := Active\<rparr>;
                  (l, res) = distribute now (escrow_account eid) amount
                    (''Milestone '' @ dec i @ '' release for work '' @ es_work_id r)
                    (es_recipients r) (ec_ledger s)
              in (case res of
                    Inl e \<Rightarrow> (s\<lparr>ec_ledger := l, ec_escrows := (ec_escrows s)(eid \<mapsto> r1)\<rparr>, Inl e)
                  | Inr _ \<Rightarrow>
                      let r2 = (if es_released r1 \<ge> es_total r1 then r1\<lparr>es_state := Released\<rparr> else r1)
                      in (s\<lparr>ec_ledger := l, ec_escrows := (ec_escrows s)(eid \<mapsto> r2)\<rparr>, Inr amount)))"

definition release_all ::
  "u64 \<Rightarrow> string \<Rightarrow> string \<Rightarrow> escrow \<Rightarrow> escrow \<times> (escrow_error, u64) result" where
  "release_all now eid verifier s =
     (case ec_escrows s eid of
        None \<Rightarrow> (s, Inl NotFound)
      | Some r \<Rightarrow>
          if es_state r = Released \<or> es_state r = Refunded then (s, Inl AlreadyClosed)
          else
            let remaining = es_total r - es_released r;
                r1 = r\<lparr>es_released := es_total r, es_state := Released,
                       es_milestones := map (\<lambda>m. if mi_completed m then m
                          else m\<lparr>mi_completed := True, mi_verified_by := Some verifier\<rparr>)
                         (es_milestones r)\<rparr>;
                (l, res) = distribute now (escrow_account eid) remaining
                    (''Final release for work '' @ es_work_id r) (es_recipients r) (ec_ledger s)
            in (s\<lparr>ec_ledger := l, ec_escrows := (ec_escrows s)(eid \<mapsto> r1)\<rparr>,
                case res of Inl e \<Rightarrow> Inl e | Inr _ \<Rightarrow> Inr remaining))"

definition refund :: "u64 \<Rightarrow> string \<Rightarrow> escrow \<Rightarrow> escrow \<times> (escrow_error, u64) result" where
  "refund now eid s =
     (case ec_escrows s eid of
        None \<Rightarrow> (s, Inl NotFound)
      | Some r \<Rightarrow>
          if es_state r = Released then (s, Inl AlreadyClosed)
          else
            let remaining = es_total r - es_released r;
                records = (ec_escrows s)(eid \<mapsto> r\<lparr>es_state := Refunded\<rparr>)
            in (case transfer now (escrow_account eid) (es_funder r) remaining
                    (''Refund for work '' @ es_work_id r) (ec_ledger s) of
                  Inl _ \<Rightarrow> (s\<lparr>ec_escrows := records\<rparr>, Inl TransferFailed)
                | Inr (l, _) \<Rightarrow> (s\<lparr>ec_ledger := l, ec_escrows := records\<rparr>, Inr remaining)))"

definition status :: "escrow \<Rightarrow> string \<Rightarrow> escrow_record option" where
  "status s eid = ec_escrows s eid"

section \<open>Paying recipients\<close>

text \<open>The share of an amount, and what an account gets of a distribution.\<close>

definition share_of :: "nat \<Rightarrow> u8 \<Rightarrow> nat" where
  "share_of amount share = amount * unat share div 100"

definition payout :: "nat \<Rightarrow> (string \<times> u8) list \<Rightarrow> nat" where
  "payout amount rs = sum_list (map (\<lambda>(r, share). share_of amount share) rs)"

definition payout_to :: "string \<Rightarrow> nat \<Rightarrow> (string \<times> u8) list \<Rightarrow> nat" where
  "payout_to a amount rs = payout amount (filter (\<lambda>(r, share). r = a) rs)"

lemma payout_simps [simp]:
  "payout amount [] = 0"
  "payout amount ((r, share) # rs) = share_of amount share + payout amount rs"
  "payout_to a amount [] = 0"
  "payout_to a amount ((r, share) # rs) = (if r = a then share_of amount share else 0) + payout_to a amount rs"
  by (simp_all add: payout_def payout_to_def)

lemma sum_div_le:
  fixes f :: "'a \<Rightarrow> nat"
  shows "sum_list (map (\<lambda>x. f x div k) xs) \<le> sum_list (map f xs) div k"
proof (induction xs)
  case (Cons x xs)
  have "f x div k + sum_list (map f xs) div k \<le> (f x + sum_list (map f xs)) div k"
    using div_add1_eq [of "f x" "sum_list (map f xs)" k] by linarith
  with Cons show ?case by simp
qed simp

lemma payout_le:
  assumes "sum_list (map (\<lambda>x. unat (snd x)) rs) \<le> 100"
  shows "payout amount rs \<le> amount"
proof -
  have "payout amount rs \<le> sum_list (map (\<lambda>(r, share). amount * unat share) rs) div 100"
    using sum_div_le [of "\<lambda>(r, share). amount * unat share" 100 rs]
    by (simp add: payout_def share_of_def case_prod_unfold)
  also have "sum_list (map (\<lambda>(r, share). amount * unat share) rs) = amount * sum_list (map (\<lambda>x. unat (snd x)) rs)"
    by (induction rs) (auto simp: algebra_simps)
  also have "\<dots> div 100 \<le> amount * 100 div 100"
    by (rule div_le_mono) (use assms in simp)
  finally show ?thesis by simp
qed

lemma unat_share:
  fixes amount :: u64 and share :: u8
  assumes "unat amount * 100 < 2 ^ 64" "unat share \<le> 100"
  shows "unat (amount * ucast share div 100) = share_of (unat amount) share"
proof -
  have u: "unat (ucast share :: u64) = unat share"
    using assms(2) by (simp add: unsigned_ucast_eq take_bit_nat_eq_self_iff)
  have "unat amount * unat share \<le> unat amount * 100" using assms(2) by (rule mult_le_mono2)
  also note assms(1)
  finally have "unat amount * unat (ucast share :: u64) < 2 ^ LENGTH(64)" by (simp only: u len_num1 len_bit0 mult.commute) simp
  then have "unat (amount * ucast share) = unat amount * unat share"
    using unat_mult_lem [of amount "ucast share"] u by simp
  then show ?thesis by (simp add: share_of_def unat_div)
qed

lemma distribute_pays:
  assumes "solvent l" "unat amount * 100 < 2 ^ 64" "sum_list (map (\<lambda>x. unat (snd x)) rs) \<le> 100"
    and "payout (unat amount) rs \<le> money l account" "account \<notin> fst ` set rs"
  shows "\<exists>l'. distribute now account amount d rs l = (l', Inr ()) \<and> solvent l' \<and>
    total_money l' = total_money l \<and> money l' account = money l account - payout (unat amount) rs \<and>
    (\<forall>a. a \<noteq> account \<longrightarrow> money l' a = money l a + payout_to a (unat amount) rs)"
  using assms
proof (induction rs arbitrary: l)
  case (Cons x rs)
  obtain r share where x: "x = (r, share)" by (cases x)
  have share: "unat share \<le> 100" using Cons.prems(3) x by simp
  note u = unat_share [OF Cons.prems(2) share]
  have "share_of (unat amount) share \<le> unat amount"
    using div_le_mono [of "unat amount * unat share" "unat amount * 100" 100] share
    by (simp add: share_of_def)
  then have small: "unat (amount * ucast share div 100) < 2 ^ 63"
    unfolding u using Cons.prems(2) by simp
  from transfer_solvent [OF Cons.prems(1) small, where now = now and a = account and b = r and d = d]
  obtain l1 tx where t: "transfer now account r (amount * ucast share div 100) d l = Inr (l1, tx)"
    and l1: "solvent l1" "total_money l1 = total_money l"
      "money l1 = spec_transfer account r (share_of (unat amount) share) (money l)"
    using Cons.prems(4) unfolding x u
    by (cases "transfer now account r (amount * ucast share div 100) d l") auto
  have ne: "r \<noteq> account" using Cons.prems(5) x by auto
  then have m: "money l1 account = money l account - share_of (unat amount) share"
    "\<And>a. a \<noteq> account \<Longrightarrow> money l1 a = money l a + (if a = r then share_of (unat amount) share else 0)"
    by (simp_all add: l1(3) spec_transfer_def Let_def)
  have "sum_list (map (\<lambda>x. unat (snd x)) rs) \<le> 100" using Cons.prems(3) by simp
  moreover have "payout (unat amount) rs \<le> money l1 account" using Cons.prems(4) by (simp add: x m(1))
  moreover have "account \<notin> fst ` set rs" using Cons.prems(5) by simp
  ultimately
  obtain l2 where l2: "distribute now account amount d rs l1 = (l2, Inr ())" "solvent l2"
      "total_money l2 = total_money l1" "money l2 account = money l1 account - payout (unat amount) rs"
      "\<And>a. a \<noteq> account \<Longrightarrow> money l2 a = money l1 a + payout_to a (unat amount) rs"
    using Cons.IH [OF l1(1) Cons.prems(2)] by blast
  show ?case
    by (rule exI [of _ l2]) (simp add: x t l2 l1(2) m)
qed simp

section \<open>The solvency invariant\<close>

text \<open>The records the manager keeps sound: percentages that add up to 100, an amount whose
  percentages fit the machine word, released amounts that leave enough for the open milestones, and
  parties that are not escrow accounts themselves.\<close>

definition is_open :: "escrow_record \<Rightarrow> bool" where
  "is_open r \<longleftrightarrow> es_state r \<noteq> Released \<and> es_state r \<noteq> Refunded"

definition pending :: "nat \<Rightarrow> milestone list \<Rightarrow> nat" where
  "pending n ms = sum_list (map (\<lambda>m. if mi_completed m then 0 else share_of n (mi_percentage m)) ms)"

definition outside :: "string \<Rightarrow> bool" where
  "outside a \<longleftrightarrow> \<not> starts_with a ''escrow:''"

definition terms_ok :: "string \<Rightarrow> (string \<times> u8) list \<Rightarrow> u64 \<Rightarrow> milestone list \<Rightarrow> bool" where
  "terms_ok funder recipients amount milestones \<longleftrightarrow>
     unat amount * 100 < 2 ^ 64 \<and> sum_list (map (\<lambda>x. unat (snd x)) recipients) = 100 \<and>
     sum_list (map (\<lambda>m. unat (mi_percentage m)) milestones) = 100 \<and>
     outside funder \<and> list_all (\<lambda>x. outside (fst x)) recipients"

definition record_ok :: "escrow_record \<Rightarrow> bool" where
  "record_ok r \<longleftrightarrow>
     terms_ok (es_funder r) (es_recipients r) (es_total r) (es_milestones r) \<and>
     unat (es_released r) + pending (unat (es_total r)) (es_milestones r) \<le> unat (es_total r)"

definition funded :: "ledger \<Rightarrow> string \<Rightarrow> escrow_record \<Rightarrow> bool" where
  "funded l eid r \<longleftrightarrow>
     (is_open r \<longrightarrow> unat (es_total r) - unat (es_released r) \<le> money l (escrow_account eid))"

definition escrows_ok :: "escrow \<Rightarrow> bool" where
  "escrows_ok s \<longleftrightarrow> solvent (ec_ledger s) \<and>
     (\<forall>eid r. ec_escrows s eid = Some r \<longrightarrow> record_ok r \<and> funded (ec_ledger s) eid r)"

lemma outside_escrow_account [simp]: "\<not> outside (escrow_account eid)"
  by (simp add: outside_def escrow_account_def starts_with_def)

lemma escrow_account_inject [simp]: "escrow_account a = escrow_account b \<longleftrightarrow> a = b"
  by (simp add: escrow_account_def)

lemma outside_not_account: "outside a \<Longrightarrow> a \<noteq> escrow_account eid"
  by auto

lemma pending_le:
  assumes "sum_list (map (\<lambda>m. unat (mi_percentage m)) ms) \<le> 100"
  shows "pending n ms \<le> n"
proof -
  have "pending n ms \<le> payout n (map (\<lambda>m. ([], mi_percentage m)) ms)"
    by (induction ms) (auto simp: pending_def)
  also have "\<dots> \<le> n" by (rule payout_le) (use assms in \<open>simp add: comp_def\<close>)
  finally show ?thesis .
qed

lemma pending_complete:
  assumes "i < length ms" "\<not> mi_completed (ms ! i)"
  shows "pending n (ms[i := (ms ! i)\<lparr>mi_completed := True, mi_verified_by := v\<rparr>]) + share_of n (mi_percentage (ms ! i))
    = pending n ms"
  using assms
proof (induction ms arbitrary: i)
  case (Cons m ms)
  then show ?case by (cases i) (auto simp: pending_def)
qed simp

lemma pending_none:
  assumes "list_all mi_completed ms"
  shows "pending n ms = 0"
  using assms by (induction ms) (simp_all add: pending_def)

lemma pending_completed [simp]:
  "pending n (map (\<lambda>m. if mi_completed m then m else m\<lparr>mi_completed := True, mi_verified_by := v\<rparr>) ms) = 0"
  by (rule pending_none) (auto simp: list_all_iff)

lemma percentages_update [simp]:
  assumes "i < length ms"
  shows "map (\<lambda>m. unat (mi_percentage m)) (ms[i := (ms ! i)\<lparr>mi_completed := c, mi_verified_by := v\<rparr>])
     = map (\<lambda>m. unat (mi_percentage m)) ms"
  using assms by (simp add: map_update list_update_same_conv)

lemma percentages_completed [simp]:
  "map ((\<lambda>m. unat (mi_percentage m)) \<circ> (\<lambda>m. if mi_completed m then m else m\<lparr>mi_completed := c, mi_verified_by := v\<rparr>)) ms
     = map (\<lambda>m. unat (mi_percentage m)) ms"
  by simp

lemma percentage_le:
  assumes "terms_ok f rs t ms" "i < length ms"
  shows "unat (mi_percentage (ms ! i)) \<le> 100"
proof -
  have "unat (mi_percentage (ms ! i)) \<in> set (map (\<lambda>m. unat (mi_percentage m)) ms)"
    using assms(2) by simp
  from member_le_sum_list [OF this] assms(1) show ?thesis by (simp add: terms_ok_def)
qed

text \<open>Replacing one record keeps the others funded when their accounts do not shrink.\<close>

lemma funded_mono:
  "funded l eid r \<Longrightarrow> money l (escrow_account eid) \<le> money l' (escrow_account eid) \<Longrightarrow> funded l' eid r"
  unfolding funded_def using le_trans by blast

lemma escrows_okD:
  assumes "escrows_ok s"
  shows "solvent (ec_ledger s)"
    and "ec_escrows s eid = Some r \<Longrightarrow> record_ok r"
    and "ec_escrows s eid = Some r \<Longrightarrow> funded (ec_ledger s) eid r"
  using assms by (simp_all add: escrows_ok_def)

lemma escrows_ok_update:
  assumes "escrows_ok s" "solvent l" "record_ok r" "funded l eid r"
    and "\<And>e. e \<noteq> eid \<Longrightarrow> money (ec_ledger s) (escrow_account e) \<le> money l (escrow_account e)"
  shows "escrows_ok (s\<lparr>ec_ledger := l, ec_escrows := (ec_escrows s)(eid \<mapsto> r)\<rparr>)"
  unfolding escrows_ok_def
proof (intro conjI allI impI)
  fix e r'
  assume "ec_escrows (s\<lparr>ec_ledger := l, ec_escrows := (ec_escrows s)(eid \<mapsto> r)\<rparr>) e = Some r'"
  then have "e = eid \<and> r' = r \<or> e \<noteq> eid \<and> ec_escrows s e = Some r'" by (simp split: if_splits)
  with assms(3,4) escrows_okD [OF assms(1)] funded_mono [OF _ assms(5)]
  show "record_ok r'" "funded (ec_ledger (s\<lparr>ec_ledger := l, ec_escrows := (ec_escrows s)(eid \<mapsto> r)\<rparr>)) e r'"
    by auto
qed (use assms(2) in simp)

lemma escrows_ok_ledger:
  assumes "escrows_ok s" "solvent l"
    and "\<And>e. money (ec_ledger s) (escrow_account e) \<le> money l (escrow_account e)"
  shows "escrows_ok (s\<lparr>ec_ledger := l\<rparr>)"
  using assms(2) escrows_okD [OF assms(1)] funded_mono [OF _ assms(3)]
  by (simp add: escrows_ok_def)

text \<open>Paying the recipients of a sound record out of its account.\<close>

lemma distribute_record:
  assumes "escrows_ok s" "ec_escrows s eid = Some r" "is_open r"
    and "unat amount \<le> unat (es_total r) - unat (es_released r)"
  shows "\<exists>l. distribute now (escrow_account eid) amount d (es_recipients r) (ec_ledger s) = (l, Inr ()) \<and>
    solvent l \<and> total_money l = total_money (ec_ledger s) \<and>
    money l (escrow_account eid) = money (ec_ledger s) (escrow_account eid) - payout (unat amount) (es_recipients r) \<and>
    payout (unat amount) (es_recipients r) \<le> unat amount \<and>
    (\<forall>a. a \<noteq> escrow_account eid \<longrightarrow> money l a = money (ec_ledger s) a + payout_to a (unat amount) (es_recipients r))"
proof -
  have ok: "solvent (ec_ledger s)" "record_ok r" "funded (ec_ledger s) eid r"
    using escrows_okD [OF assms(1)] assms(2) by blast+
  have shares: "sum_list (map (\<lambda>x. unat (snd x)) (es_recipients r)) \<le> 100"
    and "unat (es_total r) * 100 < 2 ^ 64"
    using ok(2) by (simp_all add: record_ok_def terms_ok_def)
  with assms(4) have big: "unat amount * 100 < 2 ^ 64" by linarith
  have "\<forall>x \<in> set (es_recipients r). outside (fst x)"
    using ok(2) by (simp add: record_ok_def terms_ok_def list_all_iff)
  then have out: "escrow_account eid \<notin> fst ` set (es_recipients r)"
    using outside_escrow_account by fastforce
  note le = payout_le [OF shares, of "unat amount"]
  have "payout (unat amount) (es_recipients r) \<le> money (ec_ledger s) (escrow_account eid)"
    using le assms(3,4) ok(3) by (simp add: funded_def)
  from distribute_pays [OF ok(1) big shares this out, of now d] le show ?thesis by blast
qed


section \<open>The operations keep the invariant\<close>

lemma create_sound:
  assumes "escrows_ok s" "terms_ok funder recipients amount milestones"
    and "ec_escrows s (generate_escrow_id now) = None"
    and "create now work_id funder recipients amount milestones s = Inr (s', eid)"
  shows "escrows_ok s'" "total_money (ec_ledger s') = total_money (ec_ledger s)"
proof -
  note terms = assms(2) [unfolded terms_ok_def]
  have small: "unat amount < 2 ^ 63" using terms by simp
  let ?d = "''Escrow for work '' @ work_id"
  obtain l tx where t: "transfer now funder (escrow_account eid) amount ?d (ec_ledger s) = Inr (l, tx)"
    and eid: "eid = generate_escrow_id now"
    and s': "s' = s\<lparr>ec_ledger := l, ec_escrows := (ec_escrows s)(eid \<mapsto>
              \<lparr>es_id = eid, es_work_id = work_id, es_funder = funder, es_recipients = recipients,
               es_total = amount, es_released = 0, es_state = Funded, es_created_at = now,
               es_milestones = milestones\<rparr>)\<rparr>" (is "s' = s\<lparr>ec_ledger := l, ec_escrows := _(eid \<mapsto> ?r)\<rparr>")
    using assms(4) by (auto simp: create_def Let_def split: if_splits sum.splits)
  have ne: "funder \<noteq> escrow_account e" for e using terms outside_not_account by blast
  from transfer_solvent [OF escrows_okD(1) [OF assms(1)] small, where now = now and a = funder and b = "escrow_account eid" and d = ?d] t
  have l: "solvent l" "total_money l = total_money (ec_ledger s)"
      "money l = spec_transfer funder (escrow_account eid) (unat amount) (money (ec_ledger s))"
    by auto
  have held: "money l (escrow_account e) = money (ec_ledger s) (escrow_account e) + (if e = eid then unat amount else 0)" for e
    using ne [of e] ne [of eid] by (simp add: l(3) spec_transfer_def Let_def)
  have "pending (unat amount) milestones \<le> unat amount"
    by (rule pending_le) (use terms in simp)
  then have "record_ok ?r" using assms(2) by (simp add: record_ok_def)
  then show "escrows_ok s'"
    unfolding s' using held
    by (intro escrows_ok_update [OF assms(1) l(1)]) (simp_all add: funded_def)
  show "total_money (ec_ledger s') = total_money (ec_ledger s)" by (simp add: s' l(2))
qed

text \<open>A milestone of an open escrow.\<close>

lemma release_milestone_sound:
  assumes "escrows_ok s" "ec_escrows s eid = Some r" "is_open r"
    and "i < length (es_milestones r)" "\<not> mi_completed (es_milestones r ! i)"
  shows "\<exists>s' amount. release_milestone now eid i v s = (s', Inr amount) \<and> escrows_ok s' \<and>
    unat amount = share_of (unat (es_total r)) (mi_percentage (es_milestones r ! i)) \<and>
    total_money (ec_ledger s') = total_money (ec_ledger s) \<and>
    (\<forall>a. a \<noteq> escrow_account eid \<longrightarrow>
       money (ec_ledger s') a = money (ec_ledger s) a + payout_to a (unat amount) (es_recipients r))"
proof -
  let ?m = "es_milestones r ! i" and ?T = "unat (es_total r)"
  let ?ms = "(es_milestones r)[i := ?m\<lparr>mi_completed := True, mi_verified_by := Some v\<rparr>]"
  define amount where "amount = es_total r * ucast (mi_percentage ?m) div 100"
  have ok: "record_ok r" "funded (ec_ledger s) eid r" using escrows_okD [OF assms(1)] assms(2) by blast+
  then have terms: "terms_ok (es_funder r) (es_recipients r) (es_total r) (es_milestones r)"
    by (simp add: record_ok_def)
  have amount: "unat amount = share_of ?T (mi_percentage ?m)"
    unfolding amount_def
    by (rule unat_share) (use terms percentage_le [OF terms assms(4)] in \<open>simp_all add: terms_ok_def\<close>)
  have pend: "unat (es_released r) + unat amount + pending ?T ?ms \<le> ?T"
    using ok(1) pending_complete [OF assms(4,5), of ?T "Some v"] by (simp add: record_ok_def amount)
  then have le: "unat amount \<le> ?T - unat (es_released r)" by simp
  have sum: "unat (es_released r + amount) = unat (es_released r) + unat amount"
    using pend unsigned_less [of "es_total r", where ?'a = nat] unat_add_lem [of "es_released r" amount] by simp
  define r1 where "r1 = r\<lparr>es_milestones := ?ms, es_released := es_released r + amount, es_state := Active\<rparr>"
  define r2 where "r2 = (if es_released r1 \<ge> es_total r1 then r1\<lparr>es_state := Released\<rparr> else r1)"
  have r2: "es_total r2 = es_total r" "es_released r2 = es_released r + amount" "es_milestones r2 = ?ms"
      "es_recipients r2 = es_recipients r" "es_funder r2 = es_funder r"
    by (simp_all add: r1_def r2_def)
  have "record_ok r2"
    using pend terms assms(4) unfolding record_ok_def r2 by (simp add: terms_ok_def sum)
  obtain l where l: "distribute now (escrow_account eid) amount
        (''Milestone '' @ dec i @ '' release for work '' @ es_work_id r) (es_recipients r) (ec_ledger s) = (l, Inr ())"
      "solvent l" "total_money l = total_money (ec_ledger s)"
      "money l (escrow_account eid) = money (ec_ledger s) (escrow_account eid) - payout (unat amount) (es_recipients r)"
      "payout (unat amount) (es_recipients r) \<le> unat amount"
      "\<And>a. a \<noteq> escrow_account eid \<Longrightarrow> money l a = money (ec_ledger s) a + payout_to a (unat amount) (es_recipients r)"
    using distribute_record [OF assms(1-3) le, where now = now
        and d = "''Milestone '' @ dec i @ '' release for work '' @ es_work_id r"] by blast
  have "funded l eid r2"
    using ok(2) assms(3) l(4,5) unfolding funded_def r2 sum by linarith
  then have "escrows_ok (s\<lparr>ec_ledger := l, ec_escrows := (ec_escrows s)(eid \<mapsto> r2)\<rparr>)"
    by (intro escrows_ok_update [OF assms(1) l(2) \<open>record_ok r2\<close>]) (simp_all add: l(6))
  moreover have "release_milestone now eid i v s = (s\<lparr>ec_ledger := l, ec_escrows := (ec_escrows s)(eid \<mapsto> r2)\<rparr>, Inr amount)"
    using assms(2-5) l(1) unfolding r2_def r1_def amount_def
    by (simp add: release_milestone_def is_open_def Let_def)
  ultimately show ?thesis using amount l(3,6) by simp
qed


lemma unat_remaining:
  assumes "record_ok r"
  shows "unat (es_total r - es_released r) = unat (es_total r) - unat (es_released r)"
  using assms by (simp add: record_ok_def unat_sub word_le_nat_alt)

lemma release_all_sound:
  assumes "escrows_ok s" "ec_escrows s eid = Some r" "is_open r"
  shows "\<exists>s'. release_all now eid v s = (s', Inr (es_total r - es_released r)) \<and> escrows_ok s' \<and>
    total_money (ec_ledger s') = total_money (ec_ledger s)"
proof -
  let ?rest = "es_total r - es_released r"
  have ok: "record_ok r" using escrows_okD [OF assms(1)] assms(2) by blast
  then have le: "unat ?rest \<le> unat (es_total r) - unat (es_released r)" by (simp add: unat_remaining)
  define r1 where "r1 = r\<lparr>es_released := es_total r, es_state := Released,
      es_milestones := map (\<lambda>m. if mi_completed m then m
         else m\<lparr>mi_completed := True, mi_verified_by := Some v\<rparr>) (es_milestones r)\<rparr>"
  obtain l where l: "distribute now (escrow_account eid) ?rest (''Final release for work '' @ es_work_id r)
        (es_recipients r) (ec_ledger s) = (l, Inr ())"
      "solvent l" "total_money l = total_money (ec_ledger s)"
      "\<And>a. a \<noteq> escrow_account eid \<Longrightarrow> money l a = money (ec_ledger s) a + payout_to a (unat ?rest) (es_recipients r)"
    using distribute_record [OF assms le, where now = now and d = "''Final release for work '' @ es_work_id r"]
    by blast
  have "record_ok r1" using ok unfolding record_ok_def r1_def terms_ok_def by simp
  then have "escrows_ok (s\<lparr>ec_ledger := l, ec_escrows := (ec_escrows s)(eid \<mapsto> r1)\<rparr>)"
    by (intro escrows_ok_update [OF assms(1) l(2)]) (simp_all add: l(4) funded_def is_open_def r1_def)
  moreover have "release_all now eid v s =
      (s\<lparr>ec_ledger := l, ec_escrows := (ec_escrows s)(eid \<mapsto> r1)\<rparr>, Inr ?rest)"
    using assms(2,3) l(1) unfolding r1_def by (simp add: release_all_def is_open_def Let_def)
  ultimately show ?thesis using l(3) by simp
qed

text \<open>A refund, whether or not the escrow is open: the account only pays the funder.\<close>

lemma refund_sound:
  assumes "escrows_ok s" "ec_escrows s eid = Some r" "es_state r \<noteq> Released"
  shows "escrows_ok (fst (refund now eid s))"
    "total_money (ec_ledger (fst (refund now eid s))) = total_money (ec_ledger s)"
    "is_open r \<Longrightarrow> snd (refund now eid s) = Inr (es_total r - es_released r)"
proof -
  let ?rest = "es_total r - es_released r" and ?d = "''Refund for work '' @ es_work_id r"
  let ?a = "escrow_account eid"
  define r1 where "r1 = r\<lparr>es_state := Refunded\<rparr>"
  have ok: "solvent (ec_ledger s)" "record_ok r" "funded (ec_ledger s) eid r"
    using escrows_okD [OF assms(1)] assms(2) by blast+
  note rest = unat_remaining [OF ok(2)]
  have big: "unat (es_total r) * 100 < 2 ^ 64" and out: "outside (es_funder r)"
    using ok(2) by (simp_all add: record_ok_def terms_ok_def)
  have small: "unat ?rest < 2 ^ 63" unfolding rest using big by simp
  have "record_ok r1" using ok(2) by (simp add: record_ok_def r1_def)
  then have upd: "escrows_ok (s\<lparr>ec_ledger := l, ec_escrows := (ec_escrows s)(eid \<mapsto> r1)\<rparr>)"
    if "solvent l" "\<And>e. e \<noteq> eid \<Longrightarrow> money (ec_ledger s) (escrow_account e) \<le> money l (escrow_account e)" for l
    by (intro escrows_ok_update [OF assms(1) that(1)]) (simp_all add: that(2) funded_def is_open_def r1_def)
  note t = transfer_solvent [OF ok(1) small, where now = now and a = ?a and b = "es_funder r" and d = ?d]
  show "escrows_ok (fst (refund now eid s))"
  proof (cases "transfer now ?a (es_funder r) ?rest ?d (ec_ledger s)")
    case (Inl e)
    then show ?thesis
      using assms(2,3) upd [OF ok(1) order_refl] by (simp add: refund_def Let_def r1_def)
  next
    case (Inr p)
    obtain l tx where p: "p = (l, tx)" by (cases p)
    from t Inr p have l: "solvent l" "money l = spec_transfer ?a (es_funder r) (unat ?rest) (money (ec_ledger s))"
      by auto
    have "money l (escrow_account e) = money (ec_ledger s) (escrow_account e)" if "e \<noteq> eid" for e
      using that outside_not_account [OF out, of e] by (simp add: l(2) spec_transfer_def Let_def)
    then show ?thesis
      using assms(2,3) upd [OF l(1)] Inr p by (simp add: refund_def Let_def r1_def)
  qed
  show "total_money (ec_ledger (fst (refund now eid s))) = total_money (ec_ledger s)"
    using t assms(2,3) by (auto simp: refund_def Let_def split: sum.splits)
  show "snd (refund now eid s) = Inr ?rest" if "is_open r"
    using t assms(2,3) ok(3) that
    by (auto simp: refund_def Let_def funded_def rest split: sum.splits)
qed

section \<open>Histories\<close>

text \<open>A step of the manager and its ledger: deposits and payments between outside accounts within
  the ledger's range, a creation with sound terms and a fresh identifier, and any release or refund.\<close>

inductive escrow_step :: "escrow \<Rightarrow> escrow \<Rightarrow> bool" where
  step_deposit: "total_money (ec_ledger s) + unat amount < 2 ^ 63 \<Longrightarrow>
    escrow_step s (s\<lparr>ec_ledger := fst (deposit now a amount d (ec_ledger s))\<rparr>)"
| step_transfer: "outside a \<Longrightarrow> unat amount < 2 ^ 63 \<Longrightarrow>
    transfer now a b amount d (ec_ledger s) = Inr (l, tx) \<Longrightarrow> escrow_step s (s\<lparr>ec_ledger := l\<rparr>)"
| step_create: "terms_ok funder recipients amount milestones \<Longrightarrow>
    ec_escrows s (generate_escrow_id now) = None \<Longrightarrow>
    create now work_id funder recipients amount milestones s = Inr (s', eid) \<Longrightarrow> escrow_step s s'"
| step_milestone: "escrow_step s (fst (release_milestone now eid i v s))"
| step_all: "escrow_step s (fst (release_all now eid v s))"
| step_refund: "escrow_step s (fst (refund now eid s))"

lemma release_milestone_error:
  "ec_escrows s eid = None \<Longrightarrow> release_milestone now eid i v s = (s, Inl NotFound)"
  "ec_escrows s eid = Some r \<Longrightarrow> \<not> is_open r \<Longrightarrow> release_milestone now eid i v s = (s, Inl AlreadyClosed)"
  "ec_escrows s eid = Some r \<Longrightarrow> is_open r \<Longrightarrow> \<not> i < length (es_milestones r) \<Longrightarrow>
    release_milestone now eid i v s = (s, Inl InvalidMilestone)"
  "ec_escrows s eid = Some r \<Longrightarrow> is_open r \<Longrightarrow> i < length (es_milestones r) \<Longrightarrow>
    mi_completed (es_milestones r ! i) \<Longrightarrow> release_milestone now eid i v s = (s, Inl MilestoneAlreadyReleased)"
  by (auto simp: release_milestone_def is_open_def Let_def)

lemma release_all_error:
  "ec_escrows s eid = None \<Longrightarrow> release_all now eid v s = (s, Inl NotFound)"
  "ec_escrows s eid = Some r \<Longrightarrow> \<not> is_open r \<Longrightarrow> release_all now eid v s = (s, Inl AlreadyClosed)"
  by (auto simp: release_all_def is_open_def)

lemma refund_error:
  "ec_escrows s eid = None \<Longrightarrow> refund now eid s = (s, Inl NotFound)"
  "ec_escrows s eid = Some r \<Longrightarrow> es_state r = Released \<Longrightarrow> refund now eid s = (s, Inl AlreadyClosed)"
  by (auto simp: refund_def)

lemma release_milestone_keeps:
  assumes "escrows_ok s"
  shows "escrows_ok (fst (release_milestone now eid i v s)) \<and>
    snd (release_milestone now eid i v s) \<noteq> Inl TransferFailed"
proof (cases "ec_escrows s eid")
  case (Some r)
  consider "\<not> is_open r" | "is_open r" "\<not> i < length (es_milestones r)"
    | "is_open r" "i < length (es_milestones r)" "mi_completed (es_milestones r ! i)"
    | "is_open r" "i < length (es_milestones r)" "\<not> mi_completed (es_milestones r ! i)"
    by blast
  then show ?thesis
  proof cases
    case 4
    obtain s' amount where "release_milestone now eid i v s = (s', Inr amount)" "escrows_ok s'"
      using release_milestone_sound [OF assms Some 4, of now v] by blast
    then show ?thesis by simp
  qed (simp_all add: assms release_milestone_error(2-4) [OF Some])
qed (use assms release_milestone_error(1) in simp)

lemma release_all_keeps:
  assumes "escrows_ok s"
  shows "escrows_ok (fst (release_all now eid v s))"
proof (cases "ec_escrows s eid")
  case (Some r)
  show ?thesis
  proof (cases "is_open r")
    case True
    obtain s' where "release_all now eid v s = (s', Inr (es_total r - es_released r))" "escrows_ok s'"
      using release_all_sound [OF assms Some True, of now v] by blast
    then show ?thesis by simp
  qed (simp add: assms release_all_error(2) [OF Some])
qed (use assms release_all_error(1) in simp)

lemma refund_keeps:
  assumes "escrows_ok s"
  shows "escrows_ok (fst (refund now eid s))"
proof (cases "ec_escrows s eid")
  case (Some r)
  show ?thesis
    by (cases "es_state r = Released") (simp_all add: assms refund_sound(1) [OF assms Some] refund_error(2) [OF Some])
qed (use assms refund_error(1) in simp)

lemma escrow_step_keeps:
  assumes "escrow_step s t" "escrows_ok s"
  shows "escrows_ok t"
  using assms
proof cases
  case (step_deposit amount now a d)
  note c = add_balance_credit [OF escrows_okD(1) [OF assms(2)] step_deposit(2), of a]
  from c show ?thesis
    unfolding step_deposit(1)
    by (intro escrows_ok_ledger [OF assms(2)]) (simp_all add: deposit_def Let_def)
next
  case (step_transfer a amount now b d l tx)
  from transfer_solvent [OF escrows_okD(1) [OF assms(2)] step_transfer(3), where now = now and a = a and b = b and d = d] step_transfer(4)
  have "solvent l" "money l = spec_transfer a b (unat amount) (money (ec_ledger s))" by simp_all
  then show ?thesis
    unfolding step_transfer(1) using outside_not_account [OF step_transfer(2)]
    by (intro escrows_ok_ledger [OF assms(2)]) (auto simp: spec_transfer_def Let_def)
next
  case step_create
  then show ?thesis using create_sound(1) [OF assms(2)] by blast
qed (use assms(2) release_milestone_keeps release_all_keeps refund_keeps in auto)

interpretation escrows: machine "escrow_new ledger_new" escrow_step escrows_ok
proof
  show "escrows_ok (escrow_new ledger_new)"
    using ledger_new_solvent by (simp add: escrows_ok_def escrow_new_def)
qed (rule escrow_step_keeps)


section \<open>Properties of the escrow manager\<close>

definition example_milestone :: "u8 \<Rightarrow> milestone" where
  "example_milestone p = \<lparr>mi_description = [], mi_percentage = p, mi_completed = False, mi_verified_by = None\<rparr>"

definition example_create :: "u64 \<Rightarrow> u64 \<Rightarrow> escrow \<Rightarrow> escrow" where
  "example_create now amount s =
     (case create now ''w'' ''alice'' [(''bob'', 60), (''carol'', 40)] amount
         [example_milestone 30, example_milestone 70] s of Inl _ \<Rightarrow> s | Inr (s', _) \<Rightarrow> s')"

definition example_escrow :: escrow where
  "example_escrow = example_create 7 50 (escrow_new example_ledger)"

lemma example_escrow_reachable: "rtranclp escrow_step (escrow_new ledger_new) example_escrow"
proof -
  have "escrow_step (escrow_new ledger_new) (escrow_new example_ledger)"
    using step_deposit [of "escrow_new ledger_new" 100 0 "''alice''" "''funding''"] ledger_new_solvent
    by (simp add: escrow_new_def example_ledger_def)
  moreover have "escrow_step (escrow_new example_ledger) example_escrow"
  proof (rule step_create)
    show "terms_ok ''alice'' [(''bob'', 60), (''carol'', 40)] 50 [example_milestone 30, example_milestone 70]"
      by code_simp
    show "ec_escrows (escrow_new example_ledger) (generate_escrow_id 7) = None"
      by (simp add: escrow_new_def)
    have "isl (create 7 ''w'' ''alice'' [(''bob'', 60), (''carol'', 40)] 50
        [example_milestone 30, example_milestone 70] (escrow_new example_ledger)) = False"
      by code_simp
    then show "create 7 ''w'' ''alice'' [(''bob'', 60), (''carol'', 40)] 50
        [example_milestone 30, example_milestone 70] (escrow_new example_ledger) =
      Inr (example_escrow, snd (projr (create 7 ''w'' ''alice'' [(''bob'', 60), (''carol'', 40)] 50
        [example_milestone 30, example_milestone 70] (escrow_new example_ledger))))"
      by (auto simp: example_escrow_def example_create_def split: sum.splits)
  qed
  ultimately show ?thesis by (meson converse_rtranclp_into_rtranclp rtranclp.rtrancl_refl)
qed

text \<open>Releasing an open milestone of a sound escrow succeeds, returns the milestone's
  percentage of the amount rounded down, pays every account exactly the shares it has in it, creates
  and destroys no money, and leaves all escrows sound.\<close>

theorem release_milestone_pays:
  assumes "escrows_ok s" "ec_escrows s eid = Some r" "is_open r"
    and "i < length (es_milestones r)" "\<not> mi_completed (es_milestones r ! i)"
  shows "\<exists>s' amount. release_milestone now eid i v s = (s', Inr amount) \<and> escrows_ok s' \<and>
    unat amount = share_of (unat (es_total r)) (mi_percentage (es_milestones r ! i)) \<and>
    total_money (ec_ledger s') = total_money (ec_ledger s) \<and>
    (\<forall>a. a \<noteq> escrow_account eid \<longrightarrow>
       money (ec_ledger s') a = money (ec_ledger s) a + payout_to a (unat amount) (es_recipients r))"
  using assms by (rule release_milestone_sound)

theorem release_milestone_pays_witness:
  "\<exists>s'. release_milestone 8 ''escrow_7'' 0 ''dave'' example_escrow = (s', Inr 15) \<and>
    money (ec_ledger s') ''bob'' = 9"
proof -
  define r where "r = the (ec_escrows example_escrow ''escrow_7'')"
  have r: "ec_escrows example_escrow ''escrow_7'' = Some r" unfolding r_def by code_simp
  have "is_open r" "0 < length (es_milestones r)" "\<not> mi_completed (es_milestones r ! 0)"
    unfolding r_def by code_simp+
  from release_milestone_pays [OF escrows.inv_reachable [OF example_escrow_reachable] r this, of 8 "''dave''"]
  obtain s' amount where s': "release_milestone 8 ''escrow_7'' 0 ''dave'' example_escrow = (s', Inr amount)"
      "unat amount = share_of (unat (es_total r)) (mi_percentage (es_milestones r ! 0))"
      "\<forall>a. a \<noteq> escrow_account ''escrow_7'' \<longrightarrow>
        money (ec_ledger s') a = money (ec_ledger example_escrow) a + payout_to a (unat amount) (es_recipients r)"
    by blast
  have "share_of (unat (es_total r)) (mi_percentage (es_milestones r ! 0)) = 15" unfolding r_def by code_simp
  then have amount: "unat amount = 15" using s'(2) by simp
  then have "amount = 15" using word_unat_eq_iff [of amount 15] by simp
  moreover have "money (ec_ledger example_escrow) ''bob'' + payout_to ''bob'' 15 (es_recipients r) = 9"
    "''bob'' \<noteq> escrow_account ''escrow_7''"
    unfolding r_def by code_simp+
  ultimately show ?thesis using s'(1,3) amount by simp
qed



text \<open>Two escrows created in the same second have the same identifier: the second record
  replaces the first, and what the first funder paid stays in the escrow account for good, since
  only the second amount can be released or refunded.\<close>

theorem same_second_escrow_lost:
  "let s1 = example_create 7 60 (escrow_new example_ledger);
       s2 = example_create 7 40 s1;
       s3 = fst (refund 8 ''escrow_7'' s2)
   in snd (refund 8 ''escrow_7'' s2) = Inr 40 \<and>
      money (ec_ledger s3) (escrow_account ''escrow_7'') = 60 \<and> money (ec_ledger s3) ''alice'' = 40 \<and>
      snd (release_all 9 ''escrow_7'' ''dave'' s3) = Inl AlreadyClosed \<and>
      snd (release_milestone 9 ''escrow_7'' 0 ''dave'' s3) = Inl AlreadyClosed"
  by code_simp

text \<open>Rounding strands money: an escrow of 1 with shares of 60 and 40 percent is released in
  full, no recipient is paid, and the closed escrow's account keeps the 1.\<close>

theorem release_all_strands_rounding:
  "let s1 = example_create 7 1 (escrow_new example_ledger);
       s2 = fst (release_all 8 ''escrow_7'' ''dave'' s1)
   in snd (release_all 8 ''escrow_7'' ''dave'' s1) = Inr 1 \<and>
      money (ec_ledger s2) ''bob'' = 0 \<and> money (ec_ledger s2) ''carol'' = 0 \<and>
      money (ec_ledger s2) (escrow_account ''escrow_7'') = 1 \<and>
      snd (refund 9 ''escrow_7'' s2) = Inl AlreadyClosed"
  by code_simp

text \<open>The percentages are added as bytes: shares of 200 and 156 percent are accepted, and
  the first release already fails in the middle of its payments with the milestone marked done.\<close>

theorem shares_wrap:
  "\<exists>s1. create 7 ''w'' ''alice'' [(''bob'', 200), (''carol'', 156)] 50 [example_milestone 100]
      (escrow_new example_ledger) = Inr (s1, ''escrow_7'') \<and>
    snd (release_milestone 8 ''escrow_7'' 0 ''dave'' s1) = Inl TransferFailed"
proof -
  let ?c = "create 7 ''w'' ''alice'' [(''bob'', 200), (''carol'', 156)] 50 [example_milestone 100]
      (escrow_new example_ledger)"
  have "\<not> isl ?c" "snd (projr ?c) = ''escrow_7''"
    "snd (release_milestone 8 ''escrow_7'' 0 ''dave'' (fst (projr ?c))) = Inl TransferFailed"
    by code_simp+
  then show ?thesis by (cases ?c) auto
qed


end
