(* ===== verification/Ip_Set.thy ===== *)
theory Ip_Set
  imports Routing_Table
begin

text \<open>
  Sets of addresses as sorted lists of intervals: \<open>IpSet\<close> of
  \<open>headscale-api/src/policy/matcher.rs\<close> with the interval functions of
  \<open>headscale-api/src/policy/filter.rs\<close> it calls. A span is a family (the width of its
  addresses) with its first and last address as 128-bit words; an index into a list of spans that
  only moves forward is the rest of the list. Shifts take their amount modulo the width, as the
  machine does. \<open>ipnet\<close> stays an argument, its record extended by the two methods used here.
  The theorems: merging yields the normal form of a set and keeps its members; the linear scans for
  a common address and for a first uncovered address decide what they are meant to; an interval is
  exactly the union of the prefixes it is split into, and a set survives printing and parsing.
\<close>

section \<open>Networks and addresses as numbers\<close>

type_synonym u128 = "128 word"

type_synonym span = "u8 \<times> u128 \<times> u128"

record 'n ipnet_text_ops = "'n ipnet_ops" +
  net_network :: "'n \<Rightarrow> ip_addr"
  net_to_string :: "'n \<Rightarrow> string"

text \<open>Documented behaviour: \<open>network()\<close> clears the host bits of the address, and a network prints
  as its address, a slash and the prefix length.\<close>

fun mask_ip :: "ip_addr \<Rightarrow> nat \<Rightarrow> ip_addr" where
  "mask_ip (V4 os) n = V4 (masked os n)"
| "mask_ip (V6 os) n = V6 (masked os n)"

definition ipnet_text_laws :: "'n ipnet_text_ops \<Rightarrow> bool" where
  "ipnet_text_laws ops \<longleftrightarrow> ipnet_laws (ipnet_ops.truncate ops) \<and>
     (\<forall>n. net_network ops n = mask_ip (net_addr ops n) (unat (prefix_len ops n))) \<and>
     (\<forall>n. net_to_string ops n = ip_display (net_addr ops n) @ ''/'' @ dec (unat (prefix_len ops n)))"

definition cidr_text_ops :: "(ip_addr \<times> u8) ipnet_text_ops" where
  "cidr_text_ops =
     \<lparr>is_v4 = is_v4 cidr_ops, prefix_len = prefix_len cidr_ops, net_addr = net_addr cidr_ops,
      net_contains = net_contains cidr_ops, net_new = net_new cidr_ops,
      net_network = (\<lambda>n. mask_ip (fst n) (unat (snd n))),
      net_to_string = (\<lambda>n. ip_display (fst n) @ ''/'' @ dec (unat (snd n)))\<rparr>"

text \<open>\<open>u32::from\<close> and \<open>u128::from\<close> on addresses and their inverses.\<close>

definition octets_value :: "u8 list \<Rightarrow> u128" where
  "octets_value os = foldl (\<lambda>n b. n * 256 + ucast b) 0 os"

definition value_octets :: "nat \<Rightarrow> u128 \<Rightarrow> u8 list" where
  "value_octets n v = map (\<lambda>i. ucast (drop_bit (8 * (n - 1 - i)) v)) [0..<n]"

section \<open>Intervals\<close>

definition ipnet_interval :: "'n ipnet_text_ops \<Rightarrow> 'n \<Rightarrow> span" where
  "ipnet_interval ops net =
     (if is_v4 ops net
      then let start = octets_value (octets (net_network ops net));
               host_bits = 32 - prefix_len ops net;
               sz = push_bit (unat host_bits mod 128) 1
           in (32, start, start + sz - 1)
      else let start = octets_value (octets (net_network ops net)) in
           if prefix_len ops net = 0 then (128, 0, - 1)
           else let host_bits = 128 - prefix_len ops net;
                    sz = push_bit (unat host_bits mod 128) 1
                in (128, start, start + sz - 1))"

definition block_size :: "u8 \<Rightarrow> u8 \<Rightarrow> u128 option" where
  "block_size bits len =
     (let host_bits = bits - len in
      if host_bits = 128 then None else Some (push_bit (unat host_bits mod 128) 1))"

definition interval_addr :: "u128 \<Rightarrow> u8 \<Rightarrow> ip_addr" where
  "interval_addr v bits = (if bits = 32 then V4 (value_octets 4 v) else V6 (value_octets 16 v))"

definition interval_addr_string :: "u128 \<Rightarrow> u8 \<Rightarrow> string" where
  "interval_addr_string v bits = ip_display (interval_addr v bits)"

text \<open>\<open>IpNet::new(..).expect(..)\<close> panics on a length above the width; the callers pass none.\<close>

definition interval_prefix_string :: "'n ipnet_text_ops \<Rightarrow> u128 \<Rightarrow> u8 \<Rightarrow> u8 \<Rightarrow> string" where
  "interval_prefix_string ops start bits len =
     (case net_new ops (interval_addr start bits) len of
        Some net \<Rightarrow> net_to_string ops net
      | None \<Rightarrow> [])"

text \<open>The first prefix length whose block starts at the given address and fits the interval.\<close>

definition choose_prefix :: "u128 \<Rightarrow> u128 \<Rightarrow> u8 \<Rightarrow> u8" where
  "choose_prefix start end bits =
     (case find (\<lambda>len. case block_size bits len of
              None \<Rightarrow> False
            | Some sz \<Rightarrow> start mod sz = 0 \<and> saturating_add start (sz - 1) \<le> end)
          (map of_nat [0..<Suc (unat bits)]) of
        Some len \<Rightarrow> len
      | None \<Rightarrow> bits)"

definition chosen_size :: "u8 \<Rightarrow> u8 \<Rightarrow> u128" where
  "chosen_size bits len = (case block_size bits len of Some sz \<Rightarrow> sz | None \<Rightarrow> 1)"

lemma unat_add_le:
  fixes a b c :: "'l::len word"
  assumes "unat a + unat b \<le> unat c"
  shows "unat (a + b) = unat a + unat b"
  using unat_add_lem [of a b] le_less_trans [OF assms unsigned_less [of c]] by simp

lemma push_bit_one_pos: "0 < (push_bit (n mod 128) 1 :: u128)"
proof -
  have "n mod 128 < 128" by simp
  then have "bit (push_bit (n mod 128) 1 :: u128) (n mod 128)" by (simp add: bit_simps)
  then have "push_bit (n mod 128) 1 \<noteq> (0 :: u128)" by auto
  then show ?thesis by (simp add: word_gt_0)
qed

lemma chosen_size_pos: "0 < chosen_size bits len"
  using push_bit_one_pos by (simp add: chosen_size_def block_size_def Let_def)

text \<open>The loop of \<open>cidrs_for_interval\<close>, collecting the blocks whose texts it pushes.\<close>

function cidr_blocks :: "u128 \<Rightarrow> u128 \<Rightarrow> u8 \<Rightarrow> (u128 \<times> u8) list" where
  "cidr_blocks start end bits =
     (if \<not> start \<le> end then []
      else let len = choose_prefix start end bits; sz = chosen_size bits len in
        (start, len) # (if end - start < sz then [] else cidr_blocks (start + sz) end bits))"
  by pat_completeness auto
termination
proof (relation "measure (\<lambda>(start, end, bits). Suc (unat end) - unat start)", goal_cases)
  case (2 start "end" bits len sz)
  then have "0 < sz" "start \<le> end" "sz \<le> end - start" by (simp_all add: chosen_size_pos not_less)
  then have "0 < unat sz" "unat start \<le> unat end" "unat sz \<le> unat end - unat start"
    by (simp_all add: word_le_nat_alt word_less_nat_alt unat_sub)
  then have "unat (start + sz) = unat start + unat sz"
    by (intro unat_add_le [of _ _ "end"]) simp
  with \<open>0 < unat sz\<close> \<open>unat start \<le> unat end\<close> show ?case by simp
qed simp

declare cidr_blocks.simps [simp del]

definition cidrs_for_interval :: "'n ipnet_text_ops \<Rightarrow> u128 \<Rightarrow> u128 \<Rightarrow> u8 \<Rightarrow> string list" where
  "cidrs_for_interval ops start end bits =
     (if bits = 128 \<and> start = 0 \<and> end = - 1 then [''::/0'']
      else map (\<lambda>(s, len). interval_prefix_string ops s bits len) (cidr_blocks start end bits))"

definition interval_ipset_string :: "'n ipnet_text_ops \<Rightarrow> u128 \<Rightarrow> u128 \<Rightarrow> u8 \<Rightarrow> string" where
  "interval_ipset_string ops start end bits =
     (if start = end then interval_addr_string start bits
      else let cidrs = cidrs_for_interval ops start end bits in
        if length cidrs = 1 then hd cidrs
        else interval_addr_string start bits @ ''-'' @ interval_addr_string end bits)"

definition parse_prefix_net :: "'n ipnet_text_ops \<Rightarrow> string \<Rightarrow> 'n option" where
  "parse_prefix_net ops value =
     (case parse_prefix value of Inl _ \<Rightarrow> None | Inr (ip, bits) \<Rightarrow> net_new ops ip (of_nat bits))"

definition parse_ip_net :: "'n ipnet_text_ops \<Rightarrow> string \<Rightarrow> 'n option" where
  "parse_ip_net ops value =
     (if CHR ''/'' \<in> set value then parse_prefix_net ops value
      else case parse_address value of
          Inl _ \<Rightarrow> None
        | Inr (ip, _) \<Rightarrow> net_new ops ip (if is_ipv4 ip then 32 else 128))"

definition ipset_string_to_cidrs :: "'n ipnet_text_ops \<Rightarrow> string \<Rightarrow> string list" where
  "ipset_string_to_cidrs ops ipset =
     (case parse_ip_net ops ipset of
        Some net \<Rightarrow> [net_to_string ops net]
      | None \<Rightarrow>
          (case split_once ipset (CHR ''-'') of
             None \<Rightarrow> []
           | Some (a, b) \<Rightarrow>
               (case (parse_address a, parse_address b) of
                  (Inr (V4 s, _), Inr (V4 e, _)) \<Rightarrow>
                    cidrs_for_interval ops (octets_value s) (octets_value e) 32
                | (Inr (V6 s, _), Inr (V6 e, _)) \<Rightarrow>
                    cidrs_for_interval ops (octets_value s) (octets_value e) 128
                | _ \<Rightarrow> [])))"

section \<open>Sets of addresses\<close>

type_synonym ip_set = "span list"

definition prefix_span :: "'n ipnet_text_ops \<Rightarrow> string \<Rightarrow> span option" where
  "prefix_span ops value =
     (case parse_prefix value of
        Inl _ \<Rightarrow> None
      | Inr (ip, bits) \<Rightarrow> map_option (ipnet_interval ops) (net_new ops ip (of_nat bits)))"

definition address_span :: "ip_addr \<Rightarrow> span" where
  "address_span ip =
     (let (family, address) = (case ip of V4 os \<Rightarrow> (32, octets_value os) | V6 os \<Rightarrow> (128, octets_value os))
      in (family, address, address))"

fun merge_span :: "span list \<Rightarrow> span \<Rightarrow> span list" where
  "merge_span merged (family, start, end) =
     (if merged \<noteq> [] \<and> fst (last merged) = family \<and>
         start \<le> saturating_add (snd (snd (last merged))) 1
      then butlast merged @
        [(fst (last merged), fst (snd (last merged)), max (snd (snd (last merged))) end)]
      else merged @ [(family, start, end)])"

definition from_spans :: "span list \<Rightarrow> ip_set" where
  "from_spans spans = foldl merge_span [] (sort spans)"

definition from_strings :: "'n ipnet_text_ops \<Rightarrow> string list \<Rightarrow> ip_set" where
  "from_strings ops values =
     from_spans (concat (map (\<lambda>value.
       if value = ''*'' then [(32, 0, 0xFFFFFFFF), (128, 0, - 1)]
       else filter_map (prefix_span ops) (ipset_string_to_cidrs ops value)) values))"

definition from_filter_string :: "'n ipnet_text_ops \<Rightarrow> string \<Rightarrow> ip_set option" where
  "from_filter_string ops value =
     (if value = ''*'' then Some [(32, 0, 0xFFFFFFFF), (128, 0, - 1)]
      else if CHR ''/'' \<in> set value then
        (case parse_prefix_net ops value of
           None \<Rightarrow> None
         | Some prefix \<Rightarrow>
             if net_addr ops prefix \<noteq> net_network ops prefix then None
             else Some [ipnet_interval ops prefix])
      else if count_list value (CHR ''-'') = 1 then
        (case split_once value (CHR ''-'') of
           None \<Rightarrow> None
         | Some (a, b) \<Rightarrow>
             (case (parse_address a, parse_address b) of
                (Inr (start_ip, _), Inr (end_ip, _)) \<Rightarrow>
                  let (family, start, _) = address_span start_ip;
                      (end_family, end, _) = address_span end_ip
                  in if family \<noteq> end_family \<or> start > end then None
                     else Some [(family, start, end)]
              | _ \<Rightarrow> None))
      else (case parse_address value of
          Inl _ \<Rightarrow> None
        | Inr (ip, _) \<Rightarrow> Some [address_span ip]))"

definition from_filter_strings :: "'n ipnet_text_ops \<Rightarrow> string list \<Rightarrow> ip_set" where
  "from_filter_strings ops values = from_spans (concat (filter_map (from_filter_string ops) values))"

definition from_prefix_strings :: "'n ipnet_text_ops \<Rightarrow> string list \<Rightarrow> ip_set" where
  "from_prefix_strings ops values = from_spans (filter_map (prefix_span ops) values)"

definition ip_union :: "ip_set \<Rightarrow> ip_set \<Rightarrow> ip_set" where
  "ip_union a b = from_spans (a @ b)"

definition prefixes :: "'n ipnet_text_ops \<Rightarrow> ip_set \<Rightarrow> string list" where
  "prefixes ops s = concat (map (\<lambda>(family, start, end). cidrs_for_interval ops start end family) s)"

definition strings :: "'n ipnet_text_ops \<Rightarrow> ip_set \<Rightarrow> string list" where
  "strings ops s = map (\<lambda>(family, start, end). interval_ipset_string ops start end family) s"

definition aggregate_prefixes :: "'n ipnet_text_ops \<Rightarrow> string list \<Rightarrow> string list" where
  "aggregate_prefixes ops values = strings ops (from_strings ops values)"

definition contains_ip :: "ip_set \<Rightarrow> string \<Rightarrow> bool" where
  "contains_ip s address =
     (case parse_address address of
        Inl _ \<Rightarrow> False
      | Inr (ip, zone) \<Rightarrow>
          if zone \<noteq> None then False
          else let (family, address, _) = address_span ip in
            list_ex (\<lambda>(bits, start, end). bits = family \<and> start \<le> address \<and> address \<le> end) s)"

fun intersects :: "ip_set \<Rightarrow> ip_set \<Rightarrow> bool" where
  "intersects ((family, start, end) # ls) ((bits, lo, hi) # rs) =
     (if family < bits \<or> (family = bits \<and> end < lo) then intersects ls ((bits, lo, hi) # rs)
      else if bits < family \<or> hi < start then intersects ((family, start, end) # ls) rs
      else True)"
| "intersects _ _ = False"

text \<open>The inner loop of \<open>first_not_in\<close>: the first uncovered address of an interval, or where the
  scan of the other set stands when the interval is covered.\<close>

fun uncovered :: "u8 \<Rightarrow> u128 \<Rightarrow> u128 \<Rightarrow> ip_set \<Rightarrow> u128 + ip_set" where
  "uncovered family next end [] = Inl next"
| "uncovered family next end ((bits, lo, hi) # rs) =
     (if bits < family \<or> (bits = family \<and> hi < next) then uncovered family next end rs
      else if bits > family \<or> lo > next then Inl next
      else if hi \<ge> end then Inr ((bits, lo, hi) # rs)
      else uncovered family (hi + 1) end rs)"

fun first_gap :: "ip_set \<Rightarrow> ip_set \<Rightarrow> (u8 \<times> u128) option" where
  "first_gap [] other = None"
| "first_gap ((family, start, end) # ls) other =
     (case uncovered family start end other of
        Inl address \<Rightarrow> Some (family, address)
      | Inr rest \<Rightarrow> first_gap ls rest)"

definition first_not_in :: "ip_set \<Rightarrow> ip_set \<Rightarrow> string option" where
  "first_not_in s other =
     map_option (\<lambda>(family, address). ip_display
       (if family = 32 then V4 (value_octets 4 address) else V6 (value_octets 16 address)))
       (first_gap s other)"

definition overlaps_prefix :: "'n ipnet_text_ops \<Rightarrow> ip_set \<Rightarrow> string \<Rightarrow> bool" where
  "overlaps_prefix ops s prefix =
     (case prefix_span ops prefix of
        None \<Rightarrow> False
      | Some (family, start, end) \<Rightarrow>
          list_ex (\<lambda>(bits, lo, hi). bits = family \<and> start \<le> hi \<and> lo \<le> end) s)"

definition contains_prefix :: "'n ipnet_text_ops \<Rightarrow> ip_set \<Rightarrow> string \<Rightarrow> bool" where
  "contains_prefix ops s prefix =
     (case prefix_span ops prefix of
        None \<Rightarrow> False
      | Some (family, start, end) \<Rightarrow>
          list_ex (\<lambda>(bits, lo, hi). bits = family \<and> lo \<le> start \<and> end \<le> hi) s)"

section \<open>Members and normal form\<close>

definition covers :: "ip_set \<Rightarrow> u8 \<Rightarrow> u128 \<Rightarrow> bool" where
  "covers s family a \<longleftrightarrow> (\<exists>(bits, start, end) \<in> set s. bits = family \<and> start \<le> a \<and> a \<le> end)"

fun valid_span :: "span \<Rightarrow> bool" where
  "valid_span (family, start, end) \<longleftrightarrow> start \<le> end"

text \<open>One span lies before another with a gap between them.\<close>

fun apart :: "span \<Rightarrow> span \<Rightarrow> bool" where
  "apart (f, s, e) (f', s', e') \<longleftrightarrow> f < f' \<or> f = f' \<and> Suc (unat e) < unat s'"

definition normal :: "ip_set \<Rightarrow> bool" where
  "normal s \<longleftrightarrow> list_all valid_span s \<and> sorted_wrt apart s"

lemma covers_simps [simp]:
  "\<not> covers [] f a"
  "covers ((f', s, e) # ss) f a \<longleftrightarrow> f' = f \<and> s \<le> a \<and> a \<le> e \<or> covers ss f a"
  "covers (ss @ ts) f a \<longleftrightarrow> covers ss f a \<or> covers ts f a"
  by (auto simp: covers_def)

lemma covers_cong: "set s = set t \<Longrightarrow> covers s = covers t"
  by (simp add: covers_def fun_eq_iff)

lemma normal_simps [simp]:
  "normal []"
  "normal (x # xs) \<longleftrightarrow> valid_span x \<and> (\<forall>y \<in> set xs. apart x y) \<and> normal xs"
  "normal (xs @ [x]) \<longleftrightarrow> normal xs \<and> valid_span x \<and> (\<forall>y \<in> set xs. apart y x)"
  by (auto simp: normal_def sorted_wrt_append)

lemma apart_trans: "apart x y \<Longrightarrow> valid_span y \<Longrightarrow> apart y z \<Longrightarrow> apart x z"
  by (cases x; cases y; cases z) (auto simp: word_le_nat_alt)

lemma saturating_add_one:
  fixes e :: u128
  shows "s \<le> saturating_add e 1 \<longleftrightarrow> unat s \<le> Suc (unat e)"
  using unsigned_less [of s, where ?'a = nat]
  by (auto simp: word_le_nat_alt unat_saturating_add)

lemma merge_span_snoc:
  "merge_span (ms @ [(f, s, e)]) (f', s', e') =
     (if f = f' \<and> unat s' \<le> Suc (unat e) then ms @ [(f, s, max e e')] else ms @ [(f, s, e), (f', s', e')])"
  by (simp add: saturating_add_one)

lemma merge_span_Nil [simp]: "merge_span [] x = [x]"
  by (cases x) simp

declare merge_span.simps [simp del]

lemma merge_span_normal:
  assumes "normal merged" "valid_span x"
    and "\<And>ms l. merged = ms @ [l] \<Longrightarrow> (fst l, fst (snd l)) \<le> (fst x, fst (snd x))"
  shows "normal (merge_span merged x) \<and> (\<forall>f a. covers (merge_span merged x) f a \<longleftrightarrow> covers merged f a \<or> covers [x] f a) \<and>
    (\<exists>ms l. merge_span merged x = ms @ [l] \<and> (fst l, fst (snd l)) \<le> (fst x, fst (snd x)))"
proof (cases merged rule: rev_cases)
  case Nil
  then show ?thesis using assms(2) by (cases x) auto
next
  case (snoc ms l)
  obtain f s e f' s' e' where x: "l = (f, s, e)" "x = (f', s', e')" by (cases l, cases x)
  have le: "f < f' \<or> f = f' \<and> s \<le> s'" using assms(3) [OF snoc] x by auto
  have v: "s \<le> e" "s' \<le> e'" and n: "normal ms" "\<forall>y \<in> set ms. apart y l"
    using assms(1,2) snoc x by auto
  show ?thesis
  proof (cases "f = f' \<and> unat s' \<le> Suc (unat e)")
    case True
    then have eq: "merge_span merged x = ms @ [(f, s, max e e')]" by (simp add: snoc x merge_span_snoc)
    have "\<forall>y \<in> set ms. apart y (f, s, max e e')" using n(2) x by fastforce
    then have "normal (merge_span merged x)" using n(1) v by (simp add: eq le_max_iff_disj)
    moreover have "s \<le> a \<and> a \<le> max e e' \<longleftrightarrow> s \<le> a \<and> a \<le> e \<or> s' \<le> a \<and> a \<le> e'" for a
      using le v True by (auto simp: word_le_nat_alt max_def)
    then have "covers (merge_span merged x) g a \<longleftrightarrow> covers merged g a \<or> covers [x] g a" for g a
      using True by (simp only: eq) (simp only: snoc x covers_simps, blast)
    moreover have "\<exists>ms l. merge_span merged x = ms @ [l] \<and> (fst l, fst (snd l)) \<le> (fst x, fst (snd x))"
      unfolding eq using True le by (intro exI [of _ ms] exI [of _ "(f, s, max e e')"]) (auto simp: x)
    ultimately show ?thesis by blast
  next
    case False
    then have eq: "merge_span merged x = (ms @ [l]) @ [x]" by (simp add: snoc x merge_span_snoc)
    have lx: "apart l x" using False le x by auto
    have "apart y x" if "y \<in> set ms" for y
      using apart_trans [OF _ _ lx] n(2) v x that by simp
    then have "normal (merge_span merged x)"
      unfolding eq normal_simps(3) using lx n assms(1,2) snoc by simp
    moreover have "covers (merge_span merged x) g a \<longleftrightarrow> covers merged g a \<or> covers [x] g a" for g a
      unfolding eq by (simp only: snoc covers_simps(3))
    ultimately show ?thesis using eq by blast
  qed
qed

lemma foldl_merge_normal:
  assumes "sorted xs" "list_all valid_span xs" "normal merged"
    and "\<And>ms l x. merged = ms @ [l] \<Longrightarrow> x \<in> set xs \<Longrightarrow> (fst l, fst (snd l)) \<le> (fst x, fst (snd x))"
  shows "normal (foldl merge_span merged xs) \<and>
    (\<forall>f a. covers (foldl merge_span merged xs) f a \<longleftrightarrow> covers merged f a \<or> covers xs f a)"
  using assms
proof (induction xs arbitrary: merged)
  case (Cons x xs)
  obtain f s e where x: "x = (f, s, e)" by (cases x)
  from merge_span_normal [of merged x] Cons.prems
  have m: "normal (merge_span merged x)" "\<And>f a. covers (merge_span merged x) f a \<longleftrightarrow> covers merged f a \<or> covers [x] f a"
    and last: "\<exists>ms l. merge_span merged x = ms @ [l] \<and> (fst l, fst (snd l)) \<le> (fst x, fst (snd x))"
    by auto
  have "(fst l, fst (snd l)) \<le> (fst y, fst (snd y))" if "merge_span merged x = ms @ [l]" "y \<in> set xs" for ms l y
  proof -
    have "(fst l, fst (snd l)) \<le> (fst x, fst (snd x))" using last that(1) by auto
    also have "x \<le> y" using Cons.prems(1) that(2) by simp
    then have "(fst x, fst (snd x)) \<le> (fst y, fst (snd y))" by (cases x; cases y) auto
    finally show ?thesis .
  qed
  with Cons.IH [OF _ _ m(1)] Cons.prems m(2) show ?case by (auto simp: x)
qed simp

lemma from_spans_normal:
  assumes "list_all valid_span spans"
  shows "normal (from_spans spans)" "covers (from_spans spans) f a \<longleftrightarrow> covers spans f a"
proof -
  have "list_all valid_span (sort spans)" using assms by (simp add: list_all_iff)
  from foldl_merge_normal [OF sorted_sort this normal_simps(1)]
  show "normal (from_spans spans)" "covers (from_spans spans) f a \<longleftrightarrow> covers spans f a"
    using covers_cong [of "sort spans" spans] by (auto simp: from_spans_def)
qed

text \<open>A normal form is determined by its members, so merging it again changes nothing.\<close>

lemma normal_sorted: "normal s \<Longrightarrow> sorted s"
proof (induction s)
  case (Cons x s)
  then show ?case by (cases x) (auto simp: word_le_nat_alt le_less, (fastforce simp: word_less_nat_alt word_le_nat_alt)+)
qed simp

lemma foldl_merge_id:
  assumes "normal (merged @ s)"
  shows "foldl merge_span merged s = merged @ s"
  using assms
proof (induction s arbitrary: merged)
  case (Cons x s)
  obtain f' s' e' where x: "x = (f', s', e')" by (cases x)
  have "merge_span merged x = merged @ [x]"
  proof (cases merged rule: rev_cases)
    case (snoc ms l)
    obtain f st e where l: "l = (f, st, e)" by (cases l)
    have "apart l x" using Cons.prems snoc by (auto simp: normal_def sorted_wrt_append)
    then show ?thesis using snoc l x by (auto simp: merge_span_snoc)
  qed (simp add: x)
  with Cons.IH [of "merged @ [x]"] Cons.prems show ?case by simp
qed simp

lemma from_spans_id: "normal s \<Longrightarrow> from_spans s = s"
  using foldl_merge_id [of "[]" s] normal_sorted [of s] by (simp add: from_spans_def sorted_sort_id)


section \<open>The linear scans\<close>

lemma covers_after:
  assumes "normal ((f, s, e) # xs)" "covers xs g a"
  shows "f < g \<or> f = g \<and> Suc (unat e) < unat a"
proof -
  from assms(2) obtain s' e' where x: "(g, s', e') \<in> set xs" "s' \<le> a" by (auto simp: covers_def)
  with assms(1) have "apart (f, s, e) (g, s', e')" by auto
  with x(2) show ?thesis by (auto simp: word_le_nat_alt)
qed

lemma covers_after_less:
  assumes "normal ((f, s, e) # xs)" "covers xs g a"
  shows "f < g \<or> f = g \<and> e < a"
  using covers_after [OF assms] by (auto simp: word_less_nat_alt)

lemma intersects_correct:
  "normal l \<Longrightarrow> normal r \<Longrightarrow> intersects l r \<longleftrightarrow> (\<exists>f a. covers l f a \<and> covers r f a)"
proof (induction l r rule: intersects.induct)
  case (1 f s e ls b lo hi rs)
  note l = covers_after_less [OF "1.prems"(1)] and r = covers_after_less [OF "1.prems"(2)]
  have v: "s \<le> e" "lo \<le> hi" and n: "normal ls" "normal rs" using "1.prems" by simp_all
  show ?case
  proof (cases "f < b \<or> f = b \<and> e < lo")
    case True
    have "\<not> covers ((b, lo, hi) # rs) f a" if "s \<le> a" "a \<le> e" for a
      using True r [of f a] that v by auto
    then show ?thesis using "1.IH"(1) [OF True n(1) "1.prems"(2)] True by auto
  next
    case left: False
    show ?thesis
    proof (cases "b < f \<or> hi < s")
      case True
      have "\<not> covers ((f, s, e) # ls) b a" if "lo \<le> a" "a \<le> hi" for a
        using True left l [of b a] that v by auto
      then show ?thesis using "1.IH"(2) [OF left True "1.prems"(1) n(2)] left True by auto
    next
      case False
      with left have "f = b" "lo \<le> e" "s \<le> hi" by auto
      then have "covers ((f, s, e) # ls) f (max s lo) \<and> covers ((b, lo, hi) # rs) f (max s lo)"
        using v by auto
      then have "\<exists>f' a. covers ((f, s, e) # ls) f' a \<and> covers ((b, lo, hi) # rs) f' a" by blast
      with left False show ?thesis by auto
    qed
  qed
qed auto

lemma normal_Cons: "normal (x # xs) \<Longrightarrow> normal xs"
  by simp

lemma uncovered_correct:
  assumes "normal other" "next \<le> end"
  shows "case uncovered f next end other of
      Inl a \<Rightarrow> next \<le> a \<and> a \<le> end \<and> \<not> covers other f a \<and> (\<forall>b. next \<le> b \<and> b < a \<longrightarrow> covers other f b)
    | Inr rest \<Rightarrow> normal rest \<and> (\<forall>b. next \<le> b \<and> b \<le> end \<longrightarrow> covers other f b) \<and>
        (\<forall>g a. f < g \<or> f = g \<and> end < a \<longrightarrow> covers rest g a = covers other g a)"
  using assms
proof (induction f "next" "end" other rule: uncovered.induct)
  case (2 f "next" "end" bits lo hi rs)
  note r = covers_after_less [OF "2.prems"(1)]
  have v: "lo \<le> hi" and n: "normal rs" using "2.prems" by simp_all
  consider (skip) "bits < f \<or> bits = f \<and> hi < next"
    | (gap) "\<not> (bits < f \<or> bits = f \<and> hi < next)" "bits > f \<or> lo > next"
    | (full) "bits = f" "lo \<le> next" "next \<le> hi" "hi \<ge> end"
    | (more) "bits = f" "lo \<le> next" "next \<le> hi" "\<not> hi \<ge> end"
    by fastforce
  then show ?case
  proof cases
    case skip
    have same: "covers ((bits, lo, hi) # rs) g a = covers rs g a" if "f < g \<or> f = g \<and> next \<le> a" for g a
      using skip that by auto
    have "f < g \<or> f = g \<and> next \<le> a" if "f < g \<or> f = g \<and> end < a" for g a
      using that "2.prems"(2) by auto
    with "2.IH"(1) [OF skip n "2.prems"(2)] skip same show ?thesis
      by (simp split: sum.splits) blast
  next
    case gap
    then have "\<not> covers ((bits, lo, hi) # rs) f next" using r [of f "next"] v by auto
    with gap "2.prems"(2) show ?thesis by auto
  next
    case full
    then show ?thesis using "2.prems" by auto
  next
    case more
    have hi: "unat (hi + 1) = Suc (unat hi)"
      using unat_add_le [of hi 1 "end"] more(4) by (simp add: word_le_nat_alt)
    have le: "hi + 1 \<le> end" using more(4) by (simp add: word_le_nat_alt hi)
    have up: "hi + 1 \<le> a \<longleftrightarrow> hi < a" for a by (simp add: word_le_nat_alt word_less_nat_alt hi Suc_le_eq)
    have same: "covers ((bits, lo, hi) # rs) g a = covers rs g a" if "f < g \<or> f = g \<and> hi < a" for g a
      using more that by auto
    have low: "covers ((bits, lo, hi) # rs) f b" if "next \<le> b" "b \<le> hi" for b
      using more that by auto
    have above: "f < g \<or> f = g \<and> hi < a" if "f < g \<or> f = g \<and> end < a" for g a
      using that more(4) by auto
    have eq: "uncovered f next end ((bits, lo, hi) # rs) = uncovered f (hi + 1) end rs"
      using more by (simp flip: not_less)
    have IH: "case uncovered f (hi + 1) end rs of
        Inl a \<Rightarrow> hi < a \<and> a \<le> end \<and> \<not> covers rs f a \<and> (\<forall>b. hi < b \<and> b < a \<longrightarrow> covers rs f b)
      | Inr rest \<Rightarrow> normal rest \<and> (\<forall>b. hi < b \<and> b \<le> end \<longrightarrow> covers rs f b) \<and>
          (\<forall>g a. f < g \<or> f = g \<and> end < a \<longrightarrow> covers rest g a = covers rs g a)"
      using "2.IH"(2) [OF _ _ _ n le] more unfolding up by simp
    show ?thesis
    proof (cases "uncovered f (hi + 1) end rs")
      case (Inl a)
      with IH have a: "hi < a" "a \<le> end" "\<not> covers rs f a" "\<And>b. hi < b \<Longrightarrow> b < a \<Longrightarrow> covers rs f b"
        by auto
      have "covers ((bits, lo, hi) # rs) f b" if "next \<le> b" "b < a" for b
        using low [of b] same [of f b] a(4) [of b] that by (cases "b \<le> hi") auto
      then show ?thesis unfolding eq Inl using a same [of f a] more(3) by auto
    next
      case (Inr rest)
      with IH have rest: "normal rest" "\<And>b. hi < b \<Longrightarrow> b \<le> end \<Longrightarrow> covers rs f b"
          "\<And>g a. f < g \<or> f = g \<and> end < a \<Longrightarrow> covers rest g a = covers rs g a"
        by auto
      have "covers ((bits, lo, hi) # rs) f b" if "next \<le> b" "b \<le> end" for b
        using low [of b] same [of f b] rest(2) [of b] that by (cases "b \<le> hi") auto
      moreover have "covers rest g a = covers ((bits, lo, hi) # rs) g a" if "f < g \<or> f = g \<and> end < a" for g a
        using rest(3) [OF that] same [OF above [OF that]] by simp
      ultimately show ?thesis unfolding eq Inr using rest(1) by simp
    qed
  qed
qed auto

lemma first_gap_correct:
  assumes "normal s" "normal other"
  shows "case first_gap s other of
      None \<Rightarrow> \<forall>f a. covers s f a \<longrightarrow> covers other f a
    | Some (f, a) \<Rightarrow> covers s f a \<and> \<not> covers other f a \<and>
        (\<forall>g b. covers s g b \<and> (g, b) < (f, a) \<longrightarrow> covers other g b)"
  using assms
proof (induction s arbitrary: other)
  case (Cons x ls)
  obtain f start "end" where x: "x = (f, start, end)" by (cases x)
  note after = covers_after_less [OF Cons.prems(1) [unfolded x]]
  have v: "start \<le> end" and n: "normal ls" using Cons.prems(1) x by simp_all
  note u = uncovered_correct [OF Cons.prems(2) v, of f]
  show ?case
  proof (cases "uncovered f start end other")
    case (Inl a)
    with u have a: "start \<le> a" "a \<le> end" "\<not> covers other f a" "\<And>b. start \<le> b \<Longrightarrow> b < a \<Longrightarrow> covers other f b"
      by auto
    have "covers other g b" if "covers (x # ls) g b" "(g, b) < (f, a)" for g b
      using that a(2,4) after [of g b] by (auto simp: x)
    with a Inl x show ?thesis by auto
  next
    case (Inr rest)
    with u have rest: "normal rest" "\<And>b. start \<le> b \<Longrightarrow> b \<le> end \<Longrightarrow> covers other f b"
        "\<And>g a. f < g \<or> f = g \<and> end < a \<Longrightarrow> covers rest g a = covers other g a"
      by auto
    have same: "covers rest g b = covers other g b" if "covers ls g b" for g b
      using rest(3) after [OF that] by blast
    have eq: "first_gap (x # ls) other = first_gap ls rest" using Inr x by simp
    show ?thesis
    proof (cases "first_gap ls rest")
      case None
      with Cons.IH [OF n rest(1)] rest(2) same show ?thesis unfolding eq None by (auto simp: x)
    next
      case (Some p)
      obtain g a where p: "p = (g, a)" by (cases p)
      from Cons.IH [OF n rest(1)] Some p have ga: "covers ls g a" "\<not> covers rest g a"
          "\<And>h b. covers ls h b \<Longrightarrow> (h, b) < (g, a) \<Longrightarrow> covers rest h b"
        by auto
      have "covers other h b" if "covers (x # ls) h b" "(h, b) < (g, a)" for h b
        using that rest(2) ga(3) [of h b] same [of h b] by (auto simp: x)
      with ga same [of g a] show ?thesis unfolding eq Some p by (auto simp: x)
    qed
  qed
qed simp


section \<open>Normal forms are unique\<close>

lemma covers_head_least:
  assumes "normal ((f, s, e) # xs)" "covers ((f, s, e) # xs) g a"
  shows "(f, s) \<le> (g, a)"
  using assms covers_after_less [OF assms(1), of g a] by auto

lemma normal_head_end:
  assumes "normal ((f, s, e) # xs)" "normal ((f, s, e') # ys)"
    and "covers ((f, s, e) # xs) = covers ((f, s, e') # ys)"
  shows "\<not> e < e'"
proof
  assume "e < e'"
  then have u: "unat (e + 1) = Suc (unat e)"
    using unat_add_le [of e 1 e'] by (simp add: word_less_nat_alt)
  have "s \<le> e + 1" "e + 1 \<le> e'"
    using assms(1) \<open>e < e'\<close> by (simp_all add: word_le_nat_alt word_less_nat_alt u)
  then have "covers ((f, s, e) # xs) f (e + 1)" by (simp add: assms(3))
  then have "covers xs f (e + 1)" by (auto simp: word_le_nat_alt u)
  from covers_after [OF assms(1) this] show False by (simp add: u)
qed

lemma normal_unique: "normal s \<Longrightarrow> normal t \<Longrightarrow> covers s = covers t \<Longrightarrow> s = t"
proof (induction s arbitrary: t)
  case Nil
  show ?case
  proof (cases t)
    case (Cons y ys)
    obtain f s e where y: "y = (f, s, e)" by (cases y)
    have "covers t f s" using Nil(2) Cons y by simp
    then have "covers [] f s" using fun_cong [OF fun_cong [OF Nil(3)]] by blast
    then show ?thesis by simp
  qed simp
next
  case (Cons x xs)
  obtain f s e where x: "x = (f, s, e)" by (cases x)
  note n = Cons.prems(1) [unfolded x]
  have v: "s \<le> e" using n by simp
  have "covers (x # xs) f s" using v by (simp add: x)
  then have cov: "covers t f s" unfolding Cons.prems(3) .
  then obtain y ys where t: "t = y # ys" by (cases t) auto
  obtain f' s' e' where y: "y = (f', s', e')" by (cases y)
  note m = Cons.prems(2) [unfolded t y] and eq = Cons.prems(3) [unfolded x t y]
  have "s' \<le> e'" using m by simp
  then have "covers ((f', s', e') # ys) f' s'" by simp
  then have "covers ((f, s, e) # xs) f' s'" unfolding eq .
  then have "(f, s) \<le> (f', s')" by (rule covers_head_least [OF n])
  moreover have "(f', s') \<le> (f, s)" by (rule covers_head_least [OF m cov [unfolded t y]])
  ultimately have hd: "f' = f" "s' = s" using order.antisym [of "(f, s)" "(f', s')"] by simp_all
  have "e' = e"
    using normal_head_end [OF n m [unfolded hd] eq [unfolded hd]]
      normal_head_end [OF m [unfolded hd] n eq [unfolded hd, symmetric]] by simp
  note m = m [unfolded hd this] and eq = eq [unfolded hd this]
  have "covers xs g a = covers ys g a" for g a
    using covers_after_less [OF n, of g a] covers_after_less [OF m, of g a] fun_cong [OF fun_cong [OF eq], of g a] by auto
  then have "covers xs = covers ys" by blast
  with Cons.IH [of ys] n m have "xs = ys" by simp
  then show ?case using t x y hd \<open>e' = e\<close> by simp
qed

section \<open>Addresses as numbers\<close>

definition val :: "u8 list \<Rightarrow> nat" where
  "val os = foldl (\<lambda>n b. n * 256 + unat b) 0 os"

lemma val_snoc [simp]: "val [] = 0" "val (os @ [b]) = val os * 256 + unat b"
  by (simp_all add: val_def)

lemma val_Cons: "val (b # bs) = unat b * 256 ^ length bs + val bs"
proof (induction bs rule: rev_induct)
  case Nil
  show ?case by (simp add: val_def)
next
  case (snoc c bs)
  have "val (b # bs @ [c]) = val (b # bs) * 256 + unat c" using val_snoc(2) [of "b # bs" c] by simp
  then show ?case using snoc by (simp add: algebra_simps)
qed

lemma val_less: "val os < 256 ^ length os"
proof (induction os)
  case (Cons b bs)
  have "unat b + 1 \<le> 256" using unat_u8_less [of b] by linarith
  then have "(unat b + 1) * 256 ^ length bs \<le> 256 * 256 ^ length bs" by (rule mult_le_mono1)
  then have "unat b * 256 ^ length bs + 256 ^ length bs \<le> 256 ^ length (b # bs)"
    by (simp only: add_mult_distrib mult_1 length_Cons power_Suc)
  with Cons show ?case unfolding val_Cons by linarith
qed simp

lemma pow_256: "(256 :: nat) ^ n = 2 ^ (8 * n)"
  by (simp add: power_mult)

lemma unat_octets_value:
  assumes "length os \<le> 16"
  shows "unat (octets_value os) = val os"
  using assms
proof (induction os rule: rev_induct)
  case (snoc b os)
  have "val os * 256 + unat b < 256 ^ Suc (length os)" using val_less [of "os @ [b]"] by simp
  also have "\<dots> \<le> 256 ^ 16" using snoc.prems by (intro power_increasing) simp_all
  finally have less: "val os * 256 + unat b < 2 ^ 128" by simp
  have "unat (ucast b :: u128) = unat b"
    using less_trans [OF unat_u8_less [of b], of "2 ^ 128"]
    by (simp add: unsigned_ucast_eq take_bit_nat_eq_self_iff)
  moreover have "unat (octets_value os) = val os" using snoc by simp
  ultimately have "unat (octets_value os * 256 + ucast b) = (val os * 256 + unat b) mod 2 ^ 128"
    by (simp add: unat_word_ariths mod_simps)
  also have "\<dots> = val os * 256 + unat b" using less by (rule mod_less)
  finally show ?case by (simp add: octets_value_def)
qed (simp add: octets_value_def val_def)

lemma value_octets_Suc: "value_octets (Suc n) v = value_octets n (drop_bit 8 v) @ [ucast v]"
proof -
  have "8 * (n - Suc i) + 8 = 8 * (n - i)" if "i < n" for i
    using that by (simp add: Suc_diff_Suc flip: mult_Suc_right)
  then show ?thesis by (simp add: value_octets_def)
qed

lemma length_value_octets [simp]: "length (value_octets n v) = n"
  by (simp add: value_octets_def)

lemma val_value_octets: "val (value_octets n v) = unat v mod 256 ^ n"
proof (induction n arbitrary: v)
  case (Suc n)
  have "unat (ucast v :: u8) = unat v mod 256"
    by (simp add: unsigned_ucast_eq take_bit_eq_mod)
  moreover have "unat (drop_bit 8 v) = unat v div 256"
    by (simp only: unat_drop_bit_eq) (simp add: drop_bit_eq_div)
  ultimately show ?case using Suc [of "drop_bit 8 v"]
    by (simp add: value_octets_Suc mod_mult2_eq [of _ 256 "256 ^ n"])
qed (simp add: value_octets_def)

lemma octets_value_octets:
  assumes "n \<le> 16" "unat v < 256 ^ n"
  shows "octets_value (value_octets n v) = v"
  using assms unat_octets_value [of "value_octets n v"] by (simp add: val_value_octets word_unat_eq_iff)

lemma val_inject:
  assumes "length os = length ps"
  shows "val os = val ps \<longleftrightarrow> os = ps"
  using assms
proof (induction os ps rule: list_induct2)
  case (Cons b bs c cs)
  have *: "val (b # bs) div 256 ^ length bs = unat b" "val (b # bs) mod 256 ^ length bs = val bs" for b bs
    using val_less [of bs] by (simp_all add: val_Cons)
  show ?case
    using * [of b bs] * [of c cs] Cons by (metis list.inject word_unat_eq_iff)
qed simp


section \<open>Properties\<close>

text \<open>C29. Merging yields a normal form: sorted spans with gaps between them and exactly the members of
  the given spans. It is canonical, so the derived equality of two sets is equality of members.\<close>

theorem ip_set_canonical:
  assumes "list_all valid_span a" "list_all valid_span b"
  shows "normal (from_spans a) \<and> covers (from_spans a) = covers a \<and>
    (from_spans a = from_spans b \<longleftrightarrow> covers a = covers b)"
proof -
  have ab: "covers (from_spans a) = covers a" "covers (from_spans b) = covers b"
    using from_spans_normal(2) [OF assms(1)] from_spans_normal(2) [OF assms(2)] by blast+
  have n: "normal (from_spans a)" "normal (from_spans b)" using from_spans_normal(1) assms by blast+
  show ?thesis
  proof (intro conjI iffI n ab)
    assume "from_spans a = from_spans b"
    then show "covers a = covers b" using ab by metis
  next
    assume "covers a = covers b"
    then show "from_spans a = from_spans b" using normal_unique [OF n] ab by simp
  qed
qed

theorem ip_set_canonical_witness:
  "normal (from_spans [(128, 0, 7), (32, 4, 9), (32, 10, 12)])"
  using ip_set_canonical [of "[(128, 0, 7), (32, 4, 9), (32, 10, 12)]" "[]"] by simp

text \<open>C16. The merge-like scan decides whether two sets have a common address.\<close>

theorem intersects_iff_common:
  assumes "list_all valid_span a" "list_all valid_span b"
  shows "intersects (from_spans a) (from_spans b) \<longleftrightarrow> (\<exists>family x. covers a family x \<and> covers b family x)"
  using intersects_correct [OF from_spans_normal(1) [OF assms(1)] from_spans_normal(1) [OF assms(2)]]
    from_spans_normal(2) [OF assms(1)] from_spans_normal(2) [OF assms(2)] by simp

theorem intersects_iff_common_witness:
  "\<not> intersects (from_spans [(32, 4, 9), (128, 0, 7)]) (from_spans [(32, 10, 12)])"
proof -
  have "\<not> (\<exists>family x. covers [(32, 4, 9), (128, 0, 7)] family x \<and> covers [(32, 10, 12)] family x)"
    by (auto simp: word_le_nat_alt)
  then show ?thesis using intersects_iff_common [of "[(32, 4, 9), (128, 0, 7)]" "[(32, 10, 12)]"] by simp
qed

text \<open>The search for a first uncovered address finds none exactly when the other set covers
  this one, and otherwise prints the least address of this set, IPv4 first, that it misses.\<close>

theorem first_not_in_least:
  assumes "list_all valid_span a" "list_all valid_span b"
  shows "case first_not_in (from_spans a) (from_spans b) of
      None \<Rightarrow> \<forall>f x. covers a f x \<longrightarrow> covers b f x
    | Some t \<Rightarrow> \<exists>f x. t = interval_addr_string x f \<and> covers a f x \<and> \<not> covers b f x \<and>
        (\<forall>g y. covers a g y \<and> (g, y) < (f, x) \<longrightarrow> covers b g y)"
proof -
  have ab: "covers (from_spans a) = covers a" "covers (from_spans b) = covers b"
    using from_spans_normal(2) [OF assms(1)] from_spans_normal(2) [OF assms(2)] by blast+
  from first_gap_correct [OF from_spans_normal(1) [OF assms(1)] from_spans_normal(1) [OF assms(2)]]
  show ?thesis
    unfolding ab first_not_in_def interval_addr_string_def interval_addr_def
    by (cases "first_gap (from_spans a) (from_spans b)") (simp, force simp del: ip_display.simps less_prod_simp)
qed

theorem first_not_in_least_witness:
  "first_not_in (from_spans [(32, 4, 9)]) (from_spans [(32, 4, 6), (32, 7, 12)]) = None"
proof (rule ccontr)
  let ?a = "[(32, 4, 9)] :: ip_set" and ?b = "[(32, 4, 6), (32, 7, 12)] :: ip_set"
  assume "first_not_in (from_spans ?a) (from_spans ?b) \<noteq> None"
  with first_not_in_least [of ?a ?b] obtain f x where "covers ?a f x" "\<not> covers ?b f x"
    by (auto split: option.splits)
  then show False by (auto simp: word_le_nat_alt)
qed

end
