(* ===== verification/Ip_Prefix.thy ===== *)
theory Ip_Prefix
  imports Ip_Set
begin

text \<open>
  The texts of the address sets of \<open>Ip_Set\<close>: the interval of a prefix is the set of addresses that
  agree with it up to its length, an interval is tiled by the blocks it is split into, and the texts
  of a normal set parse back to it.
\<close>

section \<open>The interval of a prefix\<close>

lemma and_push_bit_mask:
  fixes b :: u8
  assumes "n \<le> 8"
  shows "unat (and b (push_bit n (- 1))) = unat b div 2 ^ n * 2 ^ n"
proof -
  have "and b (push_bit n (- 1)) = push_bit n (drop_bit n b)"
    by (rule bit_eqI) (auto simp: bit_simps)
  then have "unat (and b (push_bit n (- 1))) = take_bit 8 (push_bit n (drop_bit n (unat b)))"
    by (simp add: unsigned_push_bit_eq unat_drop_bit_eq)
  also have "push_bit n (drop_bit n (unat b)) = unat b div 2 ^ n * 2 ^ n"
    by (simp add: push_bit_eq_mult drop_bit_eq_div)
  also have "take_bit 8 (unat b div 2 ^ n * 2 ^ n) = unat b div 2 ^ n * 2 ^ n"
    using le_less_trans [OF div_times_less_eq_dividend unat_u8_less, of b "2 ^ n"]
    by (simp add: take_bit_nat_eq_self_iff)
  finally show ?thesis .
qed

lemma div_eq_iff_between:
  fixes m x q :: nat
  assumes "0 < m"
  shows "x div m = q \<longleftrightarrow> q * m \<le> x \<and> x < q * m + m"
  using assms div_times_less_eq_dividend [of x m] dividend_less_div_times [of m x]
  by (auto intro!: div_nat_eqI simp: algebra_simps)

lemma val_masked_loop_0: "val (masked_loop 0 os) = 0"
  by (induction os) (simp_all add: val_Cons)

lemma val_masked_loop:
  assumes "r \<le> 8 * length os"
  shows "val (masked_loop r os) = val os div 2 ^ (8 * length os - r) * 2 ^ (8 * length os - r)"
  using assms
proof (induction os arbitrary: r)
  case (Cons b bs)
  let ?n = "length bs"
  show ?case
  proof (cases "8 \<le> r")
    case True
    let ?k = "8 * ?n - (r - 8)"
    have k: "8 * length (b # bs) - r = ?k" using True Cons.prems by simp
    have "(256 :: nat) ^ ?n = 2 ^ (8 * ?n - ?k) * 2 ^ ?k"
      by (simp add: pow_256 flip: power_add)
    then have "val (b # bs) = val bs + unat b * 2 ^ (8 * ?n - ?k) * 2 ^ ?k" by (simp add: val_Cons)
    then have "val (b # bs) div 2 ^ ?k = unat b * 2 ^ (8 * ?n - ?k) + val bs div 2 ^ ?k" by simp
    then have "val (b # bs) div 2 ^ ?k * 2 ^ ?k = unat b * 256 ^ ?n + val bs div 2 ^ ?k * 2 ^ ?k"
      using \<open>256 ^ ?n = _\<close> by (simp add: add_mult_distrib mult.assoc)
    moreover have "r - 8 \<le> 8 * ?n" using True Cons.prems by simp
    ultimately show ?thesis using True Cons.IH [of "r - 8"] unfolding k by (simp add: val_Cons)
  next
    case False
    have k: "8 * length (b # bs) - r = 8 * ?n + (8 - r)" using False by simp
    have p: "(2 :: nat) ^ (8 * ?n + (8 - r)) = 256 ^ ?n * 2 ^ (8 - r)" by (simp only: power_add pow_256)
    have d: "val (b # bs) div (256 ^ ?n * 2 ^ (8 - r)) = unat b div 2 ^ (8 - r)"
      using val_less [of bs] by (simp add: val_Cons div_mult2_eq)
    have m: "unat (and b (if r = 0 then 0 else push_bit (8 - r) (- 1))) = unat b div 2 ^ (8 - r) * 2 ^ (8 - r)"
      using and_push_bit_mask [of "8 - r" b] unat_u8_less [of b] by (simp add: div_less)
    have "val (masked_loop r (b # bs)) =
        unat (and b (if r = 0 then 0 else push_bit (8 - r) (- 1))) * 256 ^ ?n"
      using False by (simp add: val_Cons val_masked_loop_0)
    then show ?thesis unfolding k p d m by (simp only: ac_simps)
  qed
qed (simp add: val_def)

lemma val_masked:
  "n \<le> 8 * length os \<Longrightarrow> val (masked os n) = val os div 2 ^ (8 * length os - n) * 2 ^ (8 * length os - n)"
  by (simp add: masked_def val_masked_loop)

lemma length_masked [simp]: "length (masked os n) = length os"
  by (simp add: masked_def)

text \<open>The addresses between the first and the last of a block are those with the same prefix.\<close>

lemma block_members:
  assumes "length os = length ps" "n \<le> 8 * length os"
  shows "val (masked os n) \<le> val ps \<and> val ps < val (masked os n) + 2 ^ (8 * length os - n) \<longleftrightarrow>
    masked ps n = masked os n"
proof -
  let ?k = "8 * length os - n"
  have "val (masked os n) \<le> val ps \<and> val ps < val (masked os n) + 2 ^ ?k \<longleftrightarrow> val ps div 2 ^ ?k = val os div 2 ^ ?k"
    using assms by (simp add: val_masked div_eq_iff_between)
  also have "\<dots> \<longleftrightarrow> val (masked ps n) = val (masked os n)"
    using assms by (simp add: val_masked)
  also have "\<dots> \<longleftrightarrow> masked ps n = masked os n"
    by (rule val_inject) (simp add: assms)
  finally show ?thesis .
qed

text \<open>Machine arithmetic of a block.\<close>

lemma unat_block:
  assumes "h < 128"
  shows "unat (push_bit h 1 :: u128) = 2 ^ h"
proof -
  have "take_bit 128 (push_bit h (1 :: nat)) = 2 ^ h"
    using assms by (simp add: take_bit_nat_eq_self_iff push_bit_eq_mult)
  then show ?thesis by (simp only: unsigned_push_bit_eq len_num1 len_bit0) simp
qed

lemma unat_block_end:
  fixes start :: u128
  assumes "h < 128" "unat start + 2 ^ h \<le> 2 ^ 128"
  shows "unat (start + push_bit h 1 - 1) = unat start + 2 ^ h - 1"
proof -
  have "1 \<le> (push_bit h 1 :: u128)" using unat_block [OF assms(1)] by (simp add: word_le_nat_alt)
  then have s: "unat (push_bit h 1 - 1 :: u128) = 2 ^ h - 1" using unat_block [OF assms(1)] by (simp add: unat_sub)
  have "unat start + unat (push_bit h 1 - 1 :: u128) < 2 ^ LENGTH(128)"
    using assms(2) one_le_power [of "2 :: nat" h] unfolding s len_num1 len_bit0 by simp
  then have "unat (start + (push_bit h 1 - 1)) = unat start + (2 ^ h - 1)"
    using unat_add_lem [of start "push_bit h 1 - 1"] s by simp
  then show ?thesis by (simp add: add_diff_eq)
qed

fun family :: "ip_addr \<Rightarrow> u8" where
  "family (V4 _) = 32"
| "family (V6 _) = 128"

lemma wf_octets: "wf_ip ip \<Longrightarrow> 8 * length (octets ip) = unat (family ip) \<and> length (octets ip) \<le> 16"
  by (cases ip) auto

lemma address_span_family: "address_span ip = (family ip, octets_value (octets ip), octets_value (octets ip))"
  by (cases ip) (simp_all add: address_span_def)

lemma octets_mask_ip [simp]: "octets (mask_ip ip n) = masked (octets ip) n"
  by (cases ip) simp_all

lemma family_cases: "family ip = (if is_ipv4 ip then 32 else 128)"
  by (cases ip) simp_all

lemma unat_family_minus:
  assumes "unat len \<le> unat (family ip)"
  shows "unat (family ip - len) = unat (family ip) - unat len"
  using assms by (simp add: unat_sub word_le_nat_alt)

lemma laws_unfold:
  assumes "ipnet_text_laws ops"
  shows "is_v4 ops n = is_ipv4 (net_addr ops n)"
    and "net_network ops n = mask_ip (net_addr ops n) (unat (prefix_len ops n))"
    and "net_to_string ops n = ip_display (net_addr ops n) @ ''/'' @ dec (unat (prefix_len ops n))"
    and "unat len \<le> unat (family ip) \<Longrightarrow>
      \<exists>n. net_new ops ip len = Some n \<and> net_addr ops n = ip \<and> prefix_len ops n = len"
  using assms by (auto simp: ipnet_text_laws_def ipnet_laws_def ipnet_ops.defs family_cases split: if_splits)

lemma interval_of_net:
  assumes "ipnet_text_laws ops" and wf: "wf_ip (net_addr ops n)"
    and len: "unat (prefix_len ops n) \<le> unat (family (net_addr ops n))"
  shows "\<exists>start end. ipnet_interval ops n = (family (net_addr ops n), start, end) \<and>
    unat start = val (masked (octets (net_addr ops n)) (unat (prefix_len ops n))) \<and>
    unat end = unat start + 2 ^ (unat (family (net_addr ops n)) - unat (prefix_len ops n)) - 1"
proof -
  let ?ip = "net_addr ops n" and ?len = "unat (prefix_len ops n)"
  let ?w = "unat (family ?ip)" and ?start = "octets_value (masked (octets ?ip) ?len)"
  note w = wf_octets [OF wf]
  have start: "unat ?start = val (masked (octets ?ip) ?len)" using w by (intro unat_octets_value) simp
  have "val (masked (octets ?ip) ?len) = val (octets ?ip) div 2 ^ (?w - ?len) * 2 ^ (?w - ?len)"
    using val_masked [of ?len "octets ?ip"] w len by simp
  moreover have "val (octets ?ip) < 2 ^ ?len * 2 ^ (?w - ?len)"
    using val_less [of "octets ?ip"] w len by (simp add: pow_256 flip: power_add)
  then have "val (octets ?ip) div 2 ^ (?w - ?len) < 2 ^ ?len"
    by (simp add: less_mult_imp_div_less)
  then have "Suc (val (octets ?ip) div 2 ^ (?w - ?len)) * 2 ^ (?w - ?len) \<le> 2 ^ ?len * 2 ^ (?w - ?len)"
    by (intro mult_le_mono1) simp
  ultimately have top: "unat ?start + 2 ^ (?w - ?len) \<le> 2 ^ ?w"
    using len by (simp add: start flip: power_add)
  have "?w \<le> 128" by (cases ?ip) simp_all
  then have top128: "unat ?start + 2 ^ (?w - ?len) \<le> 2 ^ 128"
    using top power_increasing [of ?w 128 "2 :: nat"] by linarith
  show ?thesis
  proof (cases "is_ipv4 ?ip \<or> prefix_len ops n \<noteq> 0")
    case True
    then have h: "?w - ?len < 128" using \<open>?w \<le> 128\<close> by (cases ?ip) (auto simp: unat_gt_0)
    have "ipnet_interval ops n = (family ?ip, ?start, ?start + push_bit (?w - ?len) 1 - 1)"
      using True h unat_family_minus [OF len]
      by (cases ?ip) (auto simp: ipnet_interval_def laws_unfold [OF assms(1)] Let_def)
    then show ?thesis using unat_block_end [OF h top128] start by blast
  next
    case False
    then have "family ?ip = 128" "?len = 0" by (simp_all add: family_cases)
    moreover have "ipnet_interval ops n = (128, 0, - 1)"
      using False by (simp add: ipnet_interval_def laws_unfold [OF assms(1)] Let_def)
    moreover have "unat (- 1 :: u128) = 2 ^ 128 - 1" by (simp add: unsigned_minus_1_eq_mask mask_eq_exp_minus_1)
    ultimately show ?thesis using top start by (intro exI [of _ 0] exI [of _ "- 1"]) simp
  qed
qed


lemma unat_u8_of_nat: "n \<le> 128 \<Longrightarrow> unat (of_nat n :: u8) = n"
  by (simp add: unat_of_nat)

lemma parse_prefix_net_wf:
  assumes "ipnet_text_laws ops" "parse_prefix t = Inr (ip, bits)"
  shows "\<exists>n. net_new ops ip (of_nat bits) = Some n \<and> net_addr ops n = ip \<and> unat (prefix_len ops n) = bits \<and>
    wf_ip ip \<and> bits \<le> unat (family ip)"
proof -
  have wf: "wf_ip ip" "bits \<le> unat (family ip)"
    using parse_prefix_wf [OF assms(2)] by (auto simp: wf_prefix_def family_cases split: if_splits)
  moreover have "unat (family ip) \<le> 128" by (simp add: family_cases)
  then have "unat (of_nat bits :: u8) = bits" using wf(2) by (intro unat_u8_of_nat) simp
  ultimately show ?thesis using laws_unfold(4) [OF assms(1), of "of_nat bits" ip] by force
qed

lemma prefix_span_members:
  assumes "ipnet_text_laws ops" "parse_prefix t = Inr (ip, bits)"
  shows "\<exists>start end. prefix_span ops t = Some (family ip, start, end) \<and> start \<le> end \<and>
    (\<forall>ps. length ps = length (octets ip) \<longrightarrow>
      (start \<le> octets_value ps \<and> octets_value ps \<le> end \<longleftrightarrow> masked ps bits = masked (octets ip) bits))"
proof -
  obtain n where n: "net_new ops ip (of_nat bits) = Some n" "net_addr ops n = ip"
      "unat (prefix_len ops n) = bits" "wf_ip ip" "bits \<le> unat (family ip)"
    using parse_prefix_net_wf [OF assms] by blast
  note w = wf_octets [OF n(4)]
  obtain start "end" where i: "ipnet_interval ops n = (family ip, start, end)"
      "unat start = val (masked (octets ip) bits)"
      "unat end = unat start + 2 ^ (unat (family ip) - bits) - 1"
    using interval_of_net [OF assms(1), of n] n by auto
  have pos: "(0 :: nat) < 2 ^ (unat (family ip) - bits)" by simp
  have "start \<le> end" using i(3) pos unfolding word_le_nat_alt by linarith
  moreover have "start \<le> octets_value ps \<and> octets_value ps \<le> end \<longleftrightarrow> masked ps bits = masked (octets ip) bits"
    if "length ps = length (octets ip)" for ps
  proof -
    have "unat (octets_value ps) = val ps" using w that by (intro unat_octets_value) simp
    then have "start \<le> octets_value ps \<and> octets_value ps \<le> end \<longleftrightarrow>
        val (masked (octets ip) bits) \<le> val ps \<and> val ps < val (masked (octets ip) bits) + 2 ^ (unat (family ip) - bits)"
      using i(2,3) pos unfolding word_le_nat_alt by linarith
    also have "\<dots> \<longleftrightarrow> masked ps bits = masked (octets ip) bits"
      using block_members [of "octets ip" ps bits] that n(5) w by simp
    finally show ?thesis .
  qed
  moreover have "prefix_span ops t = Some (family ip, start, end)"
    using assms(2) n(1) i(1) by (simp add: prefix_span_def)
  ultimately show ?thesis by blast
qed

lemma prefix_span_valid:
  assumes "ipnet_text_laws ops" "prefix_span ops t = Some x"
  shows "valid_span x"
proof -
  obtain ip bits where p: "parse_prefix t = Inr (ip, bits)"
    using assms(2) by (auto simp: prefix_span_def split: sum.splits)
  from prefix_span_members [OF assms(1) p] assms(2) show ?thesis by auto
qed

section \<open>Splitting an interval into prefixes\<close>

text \<open>A block of the given length at an address: aligned, inside the family and up to a bound.\<close>

definition fitting :: "u8 \<Rightarrow> nat \<Rightarrow> u128 \<Rightarrow> u8 \<Rightarrow> bool" where
  "fitting bits bound s len \<longleftrightarrow> unat len \<le> unat bits \<and> unat bits - unat len < 128 \<and>
     2 ^ (unat bits - unat len) dvd unat s \<and> unat s + 2 ^ (unat bits - unat len) \<le> Suc bound"

lemma block_size_Some:
  assumes "bits = 32 \<or> bits = 128" "unat len \<le> unat bits" "block_size bits len = Some sz"
  shows "unat bits - unat len < 128" "unat sz = 2 ^ (unat bits - unat len)"
    "sz = push_bit (unat bits - unat len) 1"
proof -
  have u: "unat (bits - len) = unat bits - unat len" using assms(2) by (simp add: unat_sub word_le_nat_alt)
  have "bits - len \<noteq> 128" and sz: "sz = push_bit (unat (bits - len) mod 128) 1"
    using assms(3) by (auto simp: block_size_def Let_def split: if_splits)
  then have "unat (bits - len) \<noteq> 128" using word_unat_eq_iff [of "bits - len" 128] by simp
  moreover have "unat bits - unat len \<le> 128" using assms(1) by auto
  ultimately show less: "unat bits - unat len < 128" using u by simp
  then show "sz = push_bit (unat bits - unat len) 1" using sz u by simp
  then show "unat sz = 2 ^ (unat bits - unat len)" using unat_block [OF less] by simp
qed

lemma aligned_top:
  fixes x :: nat
  assumes "2 ^ h dvd x" "x < 2 ^ n" "h \<le> n"
  shows "x + 2 ^ h \<le> 2 ^ n"
proof -
  have p: "(2 :: nat) ^ n = 2 ^ (n - h) * 2 ^ h" using assms(3) by (simp flip: power_add)
  from assms(1) obtain q where q: "x = q * 2 ^ h" by (auto simp: dvd_def mult.commute)
  have "q < 2 ^ (n - h)" using assms(2) unfolding p q by simp
  then have "Suc q * 2 ^ h \<le> 2 ^ (n - h) * 2 ^ h" by (intro mult_le_mono1) simp
  then show ?thesis unfolding p q by simp
qed

lemma choose_prefix_fitting:
  assumes "bits = 32 \<or> bits = 128" "start \<le> end"
  shows "fitting bits (unat end) start (choose_prefix start end bits)"
    and "chosen_size bits (choose_prefix start end bits) =
      push_bit (unat bits - unat (choose_prefix start end bits)) 1"
proof -
  let ?P = "\<lambda>len. case block_size bits len of None \<Rightarrow> False
      | Some sz \<Rightarrow> start mod sz = 0 \<and> saturating_add start (sz - 1) \<le> end"
  let ?lens = "map of_nat [0..<Suc (unat bits)] :: u8 list"
  have "bits \<in> set ?lens" by (auto simp: image_iff intro!: bexI [of _ "unat bits"])
  moreover have "?P bits"
    using assms(2) unsigned_less [of start, where ?'a = nat] by (simp add: block_size_def Let_def saturating_add_def)
  ultimately have "find ?P ?lens \<noteq> None" by (simp only: find_None_iff) blast
  then obtain len where len: "find ?P ?lens = Some len" by auto
  then have "len \<in> set ?lens" "?P len" by (auto simp only: find_Some_iff nth_mem)
  then obtain sz where sz: "block_size bits len = Some sz" "start mod sz = 0" "saturating_add start (sz - 1) \<le> end"
    by (auto split: option.splits)
  have le: "unat len \<le> unat bits"
  proof -
    obtain k where k: "k \<le> unat bits" "len = of_nat k" using \<open>len \<in> set ?lens\<close>
      by (auto simp del: upt_Suc simp: less_Suc_eq_le)
    then have "k \<le> 128" using assms(1) by auto
    then show ?thesis using k by (simp add: unat_u8_of_nat)
  qed
  note b = block_size_Some [OF assms(1) le sz(1)]
  let ?h = "unat bits - unat len"
  have d: "2 ^ ?h dvd unat start"
    using sz(2) b(2) by (metis dvd_eq_mod_eq_0 unat_mod unsigned_0)
  have top: "unat start + 2 ^ ?h \<le> 2 ^ 128"
    using aligned_top [OF d, of 128] unsigned_less [of start, where ?'a = nat] b(1) by simp
  have "1 \<le> sz" using b(2) by (simp add: word_le_nat_alt)
  then have "unat (sz - 1) = 2 ^ ?h - 1" using b(2) by (simp add: unat_sub)
  then have "unat (saturating_add start (sz - 1)) = unat start + (2 ^ ?h - 1)"
    using top by (simp add: unat_saturating_add)
  then have "unat start + 2 ^ ?h \<le> Suc (unat end)" using sz(3) by (simp add: word_le_nat_alt)
  moreover have "choose_prefix start end bits = len" using len by (simp add: choose_prefix_def)
  ultimately show "fitting bits (unat end) start (choose_prefix start end bits)"
    "chosen_size bits (choose_prefix start end bits) = push_bit (unat bits - unat (choose_prefix start end bits)) 1"
    using le b(1,3) d sz(1) by (simp_all add: fitting_def chosen_size_def)
qed


text \<open>The blocks of the loop tile the interval.\<close>

fun block_span :: "u8 \<Rightarrow> u128 \<times> u8 \<Rightarrow> span" where
  "block_span bits (s, len) = (bits, s, s + chosen_size bits len - 1)"

lemma cidr_blocks_tile:
  assumes "bits = 32 \<or> bits = 128" "start \<le> end"
  shows "(\<forall>(s, len) \<in> set (cidr_blocks start end bits). fitting bits (unat end) s len \<and>
        chosen_size bits len = push_bit (unat bits - unat len) 1) \<and>
    (\<forall>f a. covers (map (block_span bits) (cidr_blocks start end bits)) f a \<longleftrightarrow> f = bits \<and> start \<le> a \<and> a \<le> end)"
  using assms
proof (induction start "end" bits rule: cidr_blocks.induct)
  case (1 start "end" bits)
  define len where "len = choose_prefix start end bits"
  define sz where "sz = chosen_size bits len"
  let ?h = "unat bits - unat len"
  have fit: "fitting bits (unat end) start len" and sz: "sz = push_bit ?h 1"
    using choose_prefix_fitting [OF "1.prems"] by (simp_all add: len_def sz_def)
  have h: "?h < 128" and le: "unat start + 2 ^ ?h \<le> Suc (unat end)" using fit by (simp_all add: fitting_def)
  have u: "unat sz = 2 ^ ?h" using unat_block [OF h] sz by simp
  have "Suc (unat end) \<le> 2 ^ 128" using unsigned_less [of "end", where ?'a = nat] by simp
  then have last: "unat (start + sz - 1) = unat start + 2 ^ ?h - 1"
    using unat_block_end [OF h, of start] le by (simp add: sz)
  have unfold: "cidr_blocks start end bits =
      (start, len) # (if end - start < sz then [] else cidr_blocks (start + sz) end bits)"
    using "1.prems"(2) by (subst cidr_blocks.simps) (simp add: len_def sz_def Let_def)
  have diff: "unat (end - start) = unat end - unat start" using "1.prems"(2) by (simp add: unat_sub)
  have pos: "(0 :: nat) < 2 ^ ?h" by simp
  show ?case
  proof (cases "end - start < sz")
    case True
    then have "unat end - unat start < 2 ^ ?h" by (simp add: word_less_nat_alt diff u)
    then have "unat (start + sz - 1) = unat end" using last le pos by linarith
    then have "start + sz - 1 = end" by (simp only: word_unat_eq_iff)
    then show ?thesis using True fit sz unfolding unfold by (auto simp: sz_def)
  next
    case False
    then have more: "2 ^ ?h \<le> unat end - unat start" by (simp add: word_less_nat_alt diff u)
    then have next': "unat (start + sz) = unat start + 2 ^ ?h"
      using unat_add_le [of start sz "end"] u pos by linarith
    then have rest: "start + sz \<le> end" using more pos unfolding word_le_nat_alt by linarith
    note IH = "1.IH" [of len sz, OF _ len_def sz_def False "1.prems"(1) rest]
    have split: "start \<le> a \<and> a \<le> start + sz - 1 \<or> start + sz \<le> a \<and> a \<le> end \<longleftrightarrow> start \<le> a \<and> a \<le> end" for a
      using last next' le more pos unfolding word_le_nat_alt by linarith
    show ?thesis
      using IH "1.prems"(2) False fit sz split unfolding unfold by (auto simp: sz_def)
  qed
qed

lemma ip_display_text: "ip_display ip = address_text ip None"
  by (cases ip) (simp_all add: address_text_V6, simp add: address_text_def)

lemma interval_addr_wf:
  assumes "bits = 32 \<or> bits = 128" "unat v < 2 ^ unat bits"
  shows "wf_ip (interval_addr v bits)" "family (interval_addr v bits) = bits"
    "octets_value (octets (interval_addr v bits)) = v"
proof -
  show "wf_ip (interval_addr v bits)" "family (interval_addr v bits) = bits"
    using assms(1) by (auto simp: interval_addr_def)
  show "octets_value (octets (interval_addr v bits)) = v"
    using assms(1)
  proof
    assume "bits = 32"
    then show ?thesis using assms(2) octets_value_octets [of 4 v] by (simp add: interval_addr_def)
  next
    assume "bits = 128"
    then show ?thesis using assms(2) octets_value_octets [of 16 v] by (simp add: interval_addr_def)
  qed
qed

lemma interval_prefix:
  assumes laws: "ipnet_text_laws ops" and bits: "bits = 32 \<or> bits = 128"
    and v: "unat v < 2 ^ unat bits" and fit: "fitting bits bound v len"
  shows "\<exists>n. interval_prefix_string ops v bits len = prefix_display (interval_addr v bits, unat len) \<and>
    parse_prefix (interval_prefix_string ops v bits len) = Inr (interval_addr v bits, unat len) \<and>
    net_new ops (interval_addr v bits) len = Some n \<and> net_addr ops n = net_network ops n \<and>
    ipnet_interval ops n = (bits, v, v + push_bit (unat bits - unat len) 1 - 1)"
proof -
  let ?ip = "interval_addr v bits" and ?h = "unat bits - unat len"
  note ip = interval_addr_wf [OF bits v]
  note w = wf_octets [OF ip(1), unfolded ip(2)]
  have len: "unat len \<le> unat bits" and h: "?h < 128" and d: "2 ^ ?h dvd unat v" using fit by (simp_all add: fitting_def)
  obtain n where n: "net_new ops ?ip len = Some n" "net_addr ops n = ?ip" "prefix_len ops n = len"
    using laws_unfold(4) [OF laws, of len ?ip] ip(2) len by auto
  have val: "val (octets ?ip) = unat v" using unat_octets_value [of "octets ?ip"] w ip(3) by simp
  have "val (masked (octets ?ip) (unat len)) = val (octets ?ip)"
    using val_masked [of "unat len" "octets ?ip"] w len d by (simp add: val)
  then have m: "masked (octets ?ip) (unat len) = octets ?ip" by (simp add: val_inject)
  then have net: "net_network ops n = ?ip" using n by (cases ?ip) (simp_all add: laws_unfold(2) [OF laws])
  have txt_eq: "interval_prefix_string ops v bits len = prefix_display (?ip, unat len)"
    by (simp add: interval_prefix_string_def n laws_unfold(3) [OF laws] ip_display_text prefix_display_def)
  have "is_ipv4 ?ip \<longleftrightarrow> bits = 32" using bits by (auto simp: interval_addr_def)
  then have "wf_prefix (?ip, unat len)" using ip(1) len bits by (auto simp: wf_prefix_def)
  then have parse: "parse_prefix (interval_prefix_string ops v bits len) = Inr (?ip, unat len)"
    unfolding txt_eq by (rule parse_prefix_display)
  obtain start "end" where i: "ipnet_interval ops n = (bits, start, end)" "unat start = unat v"
      "unat end = unat v + 2 ^ ?h - 1"
    using interval_of_net [OF laws, of n] n ip len m val by auto
  have "unat v + 2 ^ ?h \<le> 2 ^ 128"
  proof -
    have "unat v + 2 ^ ?h \<le> 2 ^ unat bits"
      by (rule aligned_top [OF d v]) simp
    also have "\<dots> \<le> (2 :: nat) ^ 128" using bits by (intro power_increasing) auto
    finally show ?thesis .
  qed
  then have "end = v + push_bit ?h 1 - 1"
    using unat_block_end [OF h, of v] i(3) by (simp only: word_unat_eq_iff)
  moreover have "start = v" using i(2) by (simp only: word_unat_eq_iff)
  ultimately show ?thesis using i(1) n net txt_eq parse by auto
qed


section \<open>Printing and parsing sets\<close>

lemma ip_display_chars:
  assumes "hex_value c = None" "c \<noteq> CHR '':''" "c \<noteq> CHR ''.''"
  shows "c \<notin> set (ip_display ip)"
proof -
  have "\<not> is_ascii_digit c" using assms(1) by (auto simp: hex_value_def split: if_splits)
  then have v4: "c \<notin> set (ipv4_display os)" for os using ipv4_display_no_special assms(3) by blast
  have "c \<noteq> CHR ''f''" using assms(1) by (auto simp: hex_value_def is_ascii_digit_def byte_def)
  then show ?thesis
    using v4 fmt_subslice_no_special [OF assms(1,2)] assms(2)
    by (cases ip) (auto simp: ipv6_display_def Let_def split: option.splits prod.splits if_splits)
qed

lemma ip_display_no_marks [simp]:
  "CHR ''/'' \<notin> set (ip_display ip)" "CHR ''-'' \<notin> set (ip_display ip)" "CHR ''*'' \<notin> set (ip_display ip)"
  by (rule ip_display_chars; simp add: hex_value_def is_ascii_digit_def byte_def)+

fun in_family :: "span \<Rightarrow> bool" where
  "in_family (f, s, e) \<longleftrightarrow> (f = 32 \<or> f = 128) \<and> s \<le> e \<and> unat e < 2 ^ unat f"

lemma filter_map_append [simp]: "filter_map f (xs @ ys) = filter_map f xs @ filter_map f ys"
  by (induction xs) (simp_all split: option.splits)

lemma split_once_append: "d \<notin> set a \<Longrightarrow> split_once (a @ d # b) d = Some (a, b)"
  by (induction a) auto

lemma parse_interval_addr:
  assumes "f = 32 \<or> f = 128" "unat v < 2 ^ unat f"
  shows "parse_address (interval_addr_string v f) = Inr (interval_addr v f, None)"
    "address_span (interval_addr v f) = (f, v, v)"
  using interval_addr_wf [OF assms]
  by (simp_all add: interval_addr_string_def ip_display_text parse_address_text address_span_family)

lemma fitting_below:
  assumes "in_family (f, s, e)" "fitting f (unat e) v len"
  shows "unat v < 2 ^ unat f"
proof -
  have "(0 :: nat) < 2 ^ (unat f - unat len)" by simp
  moreover have "unat v + 2 ^ (unat f - unat len) \<le> Suc (unat e)" "unat e < 2 ^ unat f"
    using assms by (simp_all add: fitting_def)
  ultimately show ?thesis by linarith
qed

text \<open>The IPv6 default route.\<close>

lemma default_route:
  assumes "ipnet_text_laws ops"
  shows "\<exists>n. parse_prefix_net ops ''::/0'' = Some n \<and> net_addr ops n = net_network ops n \<and>
    ipnet_interval ops n = (128, 0, - 1)"
proof -
  have p: "parse_prefix ''::/0'' = Inr (V6 (replicate 16 0), 0)" by code_simp
  obtain n where n: "net_new ops (V6 (replicate 16 0)) 0 = Some n" "net_addr ops n = V6 (replicate 16 0)"
      "prefix_len ops n = 0"
    using laws_unfold(4) [OF assms, of 0 "V6 (replicate 16 0)"] by auto
  have "masked (replicate 16 0) 0 = replicate 16 0" by code_simp
  with n p show ?thesis
    by (auto simp: parse_prefix_net_def ipnet_interval_def laws_unfold(1,2) [OF assms] Let_def)
qed

lemma prefix_span_net: "prefix_span ops t = map_option (ipnet_interval ops) (parse_prefix_net ops t)"
  by (auto simp: prefix_span_def parse_prefix_net_def split: sum.splits)

lemma cidr_spans:
  assumes "ipnet_text_laws ops" "in_family (f, s, e)"
  shows "list_all valid_span (filter_map (prefix_span ops) (cidrs_for_interval ops s e f)) \<and>
    (\<forall>g a. covers (filter_map (prefix_span ops) (cidrs_for_interval ops s e f)) g a \<longleftrightarrow> g = f \<and> s \<le> a \<and> a \<le> e)"
proof -
  have valid: "list_all valid_span (filter_map (prefix_span ops) ts)" for ts
    using prefix_span_valid [OF assms(1)] by (auto simp: list_all_iff set_filter_map)
  show ?thesis
  proof (cases "f = 128 \<and> s = 0 \<and> e = - 1")
    case True
    then show ?thesis
      using default_route [OF assms(1)] valid by (auto simp: cidrs_for_interval_def prefix_span_net)
  next
    case False
    have fam: "f = 32 \<or> f = 128" "s \<le> e" using assms(2) by simp_all
    note tile = cidr_blocks_tile [OF fam]
    have "prefix_span ops (interval_prefix_string ops v f len) = Some (block_span f (v, len))"
      if "(v, len) \<in> set (cidr_blocks s e f)" for v len
    proof -
      have fit: "fitting f (unat e) v len" "chosen_size f len = push_bit (unat f - unat len) 1"
        using tile that by auto
      from interval_prefix [OF assms(1) fam(1) fitting_below [OF assms(2) fit(1)] fit(1)]
      show ?thesis by (auto simp: prefix_span_def fit(2))
    qed
    then have "filter_map (prefix_span ops) (map (\<lambda>(v, len). interval_prefix_string ops v f len) bs) =
        map (block_span f) bs" if "set bs \<subseteq> set (cidr_blocks s e f)" for bs
      using that by (induction bs) auto
    then have "filter_map (prefix_span ops) (cidrs_for_interval ops s e f) = map (block_span f) (cidr_blocks s e f)"
      unfolding cidrs_for_interval_def if_not_P [OF False] by blast
    then show ?thesis using tile valid by metis
  qed
qed

lemma filter_string_prefix:
  assumes "parse_prefix_net ops t = Some n" "net_addr ops n = net_network ops n" "CHR ''/'' \<in> set t"
  shows "from_filter_string ops t = Some [ipnet_interval ops n]"
  using assms by (auto simp: from_filter_string_def)

lemma filter_string_interval:
  assumes "ipnet_text_laws ops" "in_family (f, s, e)"
  shows "from_filter_string ops (interval_ipset_string ops s e f) = Some [(f, s, e)]"
proof -
  have fam: "f = 32 \<or> f = 128" "s \<le> e" "unat e < 2 ^ unat f" using assms(2) by simp_all
  then have "unat s < 2 ^ unat f" by (simp add: word_le_nat_alt)
  note ps = parse_interval_addr [OF fam(1) this] and pe = parse_interval_addr [OF fam(1,3)]
  have star: "interval_addr_string v f \<noteq> ''*''" for v
  proof
    assume "interval_addr_string v f = ''*''"
    then have "CHR ''*'' \<in> set (ip_display (interval_addr v f))" by (simp add: interval_addr_string_def)
    then show False by simp
  qed
  have none: "CHR ''/'' \<notin> set (interval_addr_string v f)" "CHR ''-'' \<notin> set (interval_addr_string v f)" for v
    by (simp_all add: interval_addr_string_def)
  consider (single) "s = e" | (whole) "s \<noteq> e" "f = 128 \<and> s = 0 \<and> e = - 1"
    | (one) "s \<noteq> e" "\<not> (f = 128 \<and> s = 0 \<and> e = - 1)" "length (cidrs_for_interval ops s e f) = 1"
    | (range) "s \<noteq> e" "length (cidrs_for_interval ops s e f) \<noteq> 1"
    by blast
  then show ?thesis
  proof cases
    case single
    then show ?thesis
      using ps star none [of s]
      by (simp add: interval_ipset_string_def from_filter_string_def count_list_0_iff)
  next
    case whole
    obtain n where n: "parse_prefix_net ops ''::/0'' = Some n" "net_addr ops n = net_network ops n"
        "ipnet_interval ops n = (128, 0, - 1)"
      using default_route [OF assms(1)] by blast
    have "interval_ipset_string ops s e f = ''::/0''"
      using whole by (simp add: interval_ipset_string_def cidrs_for_interval_def)
    then show ?thesis using filter_string_prefix [OF n(1,2)] n(3) whole by simp
  next
    case one
    then obtain b where b: "cidr_blocks s e f = [b]"
      by (auto simp: cidrs_for_interval_def length_Suc_conv)
    then obtain len where len: "b = (s, len)"
      using cidr_blocks.simps [of s e f] fam(2) by (auto simp: Let_def)
    note tile = cidr_blocks_tile [OF fam(1,2), unfolded b len]
    have fit: "fitting f (unat e) s len" "chosen_size f len = push_bit (unat f - unat len) 1"
      using tile by auto
    have "s \<le> a \<and> a \<le> s + chosen_size f len - 1 \<longleftrightarrow> s \<le> a \<and> a \<le> e" for a
      using conjunct2 [OF tile, rule_format, of f a] by simp
    from this [of e] this [of "s + chosen_size f len - 1"] fam(2)
    have last: "s + chosen_size f len - 1 = e" by auto
    obtain n where n: "parse_prefix (interval_prefix_string ops s f len) = Inr (interval_addr s f, unat len)"
        "interval_prefix_string ops s f len = prefix_display (interval_addr s f, unat len)"
        "net_new ops (interval_addr s f) len = Some n" "net_addr ops n = net_network ops n"
        "ipnet_interval ops n = (f, s, s + push_bit (unat f - unat len) 1 - 1)"
      using interval_prefix [OF assms(1) fam(1) fitting_below [OF assms(2) fit(1)] fit(1)] by blast
    have "interval_ipset_string ops s e f = interval_prefix_string ops s f len"
      using one(1,2) b len by (auto simp: interval_ipset_string_def cidrs_for_interval_def)
    moreover have "parse_prefix_net ops (interval_prefix_string ops s f len) = Some n"
      using n(1,3) by (simp add: parse_prefix_net_def)
    moreover have "CHR ''/'' \<in> set (interval_prefix_string ops s f len)"
      unfolding n(2) by (simp add: prefix_display_def)
    ultimately show ?thesis using filter_string_prefix [of ops] n(4,5) last fit(2) by auto
  next
    case range
    let ?t = "interval_addr_string s f @ CHR ''-'' # interval_addr_string e f"
    have t: "interval_ipset_string ops s e f = ?t"
      using range by (simp add: interval_ipset_string_def Let_def)
    have "?t \<noteq> ''*''" by (cases "interval_addr_string s f") auto
    moreover have "split_once ?t (CHR ''-'') = Some (interval_addr_string s f, interval_addr_string e f)"
      using none(2) by (rule split_once_append)
    moreover have "count_list ?t (CHR ''-'') = 1" using none(2) by (simp add: count_list_0_iff)
    ultimately show ?thesis
      unfolding t using ps pe none(1) fam(2) by (simp add: from_filter_string_def Let_def)
  qed
qed


section \<open>Properties\<close>

lemma cidr_text_laws: "ipnet_text_laws cidr_text_ops"
  using cidr_ops_laws
  by (simp add: ipnet_text_laws_def cidr_text_ops_def ipnet_laws_def ipnet_ops.defs cidr_ops_def)

text \<open>A set made of one parsed prefix contains exactly the addresses of the prefix's family that
  agree with it up to its length, and none with a zone.\<close>

theorem prefix_members:
  assumes "ipnet_text_laws ops" "parse_prefix t = Inr (ip, bits)" "parse_address u = Inr (ip', zone)"
  shows "contains_ip (from_prefix_strings ops [t]) u \<longleftrightarrow>
    zone = None \<and> is_ipv4 ip' = is_ipv4 ip \<and> masked (octets ip') bits = masked (octets ip) bits"
proof -
  obtain start "end" where p: "prefix_span ops t = Some (family ip, start, end)" "start \<le> end"
      "\<And>ps. length ps = length (octets ip) \<Longrightarrow>
        start \<le> octets_value ps \<and> octets_value ps \<le> end \<longleftrightarrow> masked ps bits = masked (octets ip) bits"
    using prefix_span_members [OF assms(1,2)] by blast
  have set: "from_prefix_strings ops [t] = [(family ip, start, end)]"
    using p(1,2) from_spans_id [of "[(family ip, start, end)]"] by (simp add: from_prefix_strings_def)
  have "wf_ip ip" using parse_prefix_wf [OF assms(2)] by (simp add: wf_prefix_def)
  moreover have "wf_ip ip'" using assms(3) by (rule parse_address_wf)
  ultimately have "length (octets ip') = length (octets ip)" if "family ip = family ip'"
    using that wf_octets [of ip] wf_octets [of ip'] by simp
  moreover have "family ip = family ip' \<longleftrightarrow> is_ipv4 ip' = is_ipv4 ip" by (simp add: family_cases)
  ultimately show ?thesis
    using assms(3) p(3) [of "octets ip'"] unfolding set
    by (auto simp: contains_ip_def address_span_family)
qed

theorem prefix_members_witness:
  "contains_ip (from_prefix_strings cidr_text_ops [''10.1.0.0/16'']) ''10.1.2.3'' \<and>
   \<not> contains_ip (from_prefix_strings cidr_text_ops [''10.1.0.0/16'']) ''10.2.0.0''"
proof -
  have p: "parse_prefix ''10.1.0.0/16'' = Inr (V4 [10, 1, 0, 0], 16)" by code_simp
  have a: "parse_address ''10.1.2.3'' = Inr (V4 [10, 1, 2, 3], None)"
    "parse_address ''10.2.0.0'' = Inr (V4 [10, 2, 0, 0], None)"
    by code_simp+
  have m: "masked (octets (V4 [10, 1, 2, 3])) 16 = masked (octets (V4 [10, 1, 0, 0])) 16"
    "masked (octets (V4 [10, 2, 0, 0])) 16 \<noteq> masked (octets (V4 [10, 1, 0, 0])) 16"
    by code_simp+
  show ?thesis
    using prefix_members [OF cidr_text_laws p a(1)] prefix_members [OF cidr_text_laws p a(2)] m by simp
qed

text \<open>C11. The texts of a set determine it: parsing the strings of a normal set, or the prefixes it is
  split into, gives the set back.\<close>

theorem ip_set_round_trip:
  assumes "ipnet_text_laws ops" "normal s" "list_all in_family s"
  shows "from_filter_strings ops (strings ops s) = s \<and> from_prefix_strings ops (prefixes ops s) = s"
proof
  have "concat (filter_map (from_filter_string ops) (strings ops s)) = s"
    using assms(3)
  proof (induction s)
    case (Cons x s)
    obtain f a b where x: "x = (f, a, b)" by (cases x)
    with Cons filter_string_interval [OF assms(1), of f a b] show ?case by (simp add: strings_def)
  qed (simp add: strings_def)
  then show "from_filter_strings ops (strings ops s) = s"
    using from_spans_id [OF assms(2)] by (simp add: from_filter_strings_def)
  have "list_all valid_span (filter_map (prefix_span ops) (prefixes ops s)) \<and>
      (\<forall>g a. covers (filter_map (prefix_span ops) (prefixes ops s)) g a \<longleftrightarrow> covers s g a)"
    using assms(3)
  proof (induction s)
    case (Cons x s)
    obtain f a b where x: "x = (f, a, b)" by (cases x)
    have "filter_map (prefix_span ops) (prefixes ops (x # s)) =
        filter_map (prefix_span ops) (cidrs_for_interval ops a b f) @ filter_map (prefix_span ops) (prefixes ops s)"
      by (simp add: x prefixes_def filter_map_append)
    with Cons cidr_spans [OF assms(1), of f a b] x show ?case by auto
  qed (simp add: prefixes_def)
  then show "from_prefix_strings ops (prefixes ops s) = s"
    using from_spans_normal [of "filter_map (prefix_span ops) (prefixes ops s)"]
    by (intro normal_unique [OF _ assms(2)]) (auto simp: from_prefix_strings_def fun_eq_iff)
qed

theorem ip_set_round_trip_witness:
  "from_filter_strings cidr_text_ops (strings cidr_text_ops [(32, 5, 9), (128, 0, - 1)]) = [(32, 5, 9), (128, 0, - 1)]"
proof -
  have "unat (- 1 :: u128) = 2 ^ 128 - 1" by (simp add: unsigned_minus_1_eq_mask mask_eq_exp_minus_1)
  then have "normal [(32, 5, 9), (128, 0, - 1)]" "list_all in_family [(32, 5, 9), (128, 0, - 1)]"
    by simp_all
  then show ?thesis using ip_set_round_trip [OF cidr_text_laws] by blast
qed


end
