(* ===== verification/Packet_Filter.thy ===== *)
theory Packet_Filter
  imports Ip_Prefix
begin

text \<open>
  Packet-filter rules: the matchers of \<open>headscale-api/src/policy/matcher.rs\<close> that decide which
  nodes see each other, and the steps of \<open>headscale-api/src/policy/filter.rs\<close> that build, merge
  and reduce the rules sent to one node. The wire types are those of
  \<open>headscale-api/src/tailscale_wire/wire.rs\<close>; a capability map, which is only copied, is a type
  variable.
  The theorems: whoever the reduced filter of a node lets in sees that node; merging rules keeps
  every admitted flow and leaves at most one rule per sources and protocols; compiled port groups
  hold only proper port ranges and protocol numbers.
\<close>

section \<open>Wire types\<close>

record port_range =
  pr_first :: u16
  pr_last :: u16

record net_port_range =
  np_ip :: string
  np_bits :: "int option"
  np_ports :: port_range

record 'c cap_grant =
  cg_dsts :: "string list"
  cg_caps :: "string list"
  cg_cap_map :: 'c

record 'c filter_rule =
  fr_src_ips :: "string list"
  fr_src_bits :: "int list"
  fr_dst_ports :: "net_port_range list"
  fr_ip_proto :: "int list"
  fr_cap_grant :: "'c cap_grant list"

record packet_filter_node =
  pn_id :: u64
  pn_user_id :: "u64 option"
  pn_user :: "string option"
  pn_addrs :: "string list"
  pn_tags :: "string list"
  pn_routes :: "string list"

record node_view =
  nv_addr :: "string option"
  nv_addrs :: "string list"
  nv_user :: "string option"
  nv_user_id :: "u64 option"
  nv_tags :: "string list"

definition view :: "packet_filter_node \<Rightarrow> node_view" where
  "view node = \<lparr>nv_addr = (case pn_addrs node of a # _ \<Rightarrow> Some a | [] \<Rightarrow> None),
     nv_addrs = pn_addrs node, nv_user = pn_user node, nv_user_id = pn_user_id node,
     nv_tags = pn_tags node\<rparr>"

section \<open>Addresses and prefixes as texts\<close>

definition is_exit_route :: "string \<Rightarrow> bool" where
  "is_exit_route route \<longleftrightarrow> route = ''0.0.0.0/0'' \<or> route = ''::/0''"

definition addr_prefix_string :: "'n ipnet_text_ops \<Rightarrow> string \<Rightarrow> string option" where
  "addr_prefix_string ops addr =
     (case parse_address addr of
        Inl _ \<Rightarrow> None
      | Inr (ip, _) \<Rightarrow> map_option (net_to_string ops) (net_new ops ip (if is_ipv4 ip then 32 else 128)))"

definition is_single_ip :: "'n ipnet_text_ops \<Rightarrow> 'n \<Rightarrow> bool" where
  "is_single_ip ops net = (if is_v4 ops net then prefix_len ops net = 32 else prefix_len ops net = 128)"

definition dst_port_ip_string :: "'n ipnet_text_ops \<Rightarrow> string \<Rightarrow> string" where
  "dst_port_ip_string ops ip =
     (case parse_ip_net ops ip of
        None \<Rightarrow> ip
      | Some net \<Rightarrow> if is_single_ip ops net then ip_display (net_addr ops net) else net_to_string ops net)"

definition net_contains_addr :: "'n ipnet_text_ops \<Rightarrow> 'n \<Rightarrow> string \<Rightarrow> bool" where
  "net_contains_addr ops net addr =
     (case parse_address addr of
        Inl _ \<Rightarrow> False
      | Inr (ip, zone) \<Rightarrow>
          if zone \<noteq> None then False
          else if is_v4 ops net = is_ipv4 ip then net_contains ops net ip else False)"

definition prefix_contains_addr :: "'n ipnet_text_ops \<Rightarrow> string \<Rightarrow> string \<Rightarrow> bool" where
  "prefix_contains_addr ops prefix addr =
     (case parse_ip_net ops prefix of None \<Rightarrow> False | Some net \<Rightarrow> net_contains_addr ops net addr)"

definition ipset_string_contains_addr :: "'n ipnet_text_ops \<Rightarrow> string \<Rightarrow> string \<Rightarrow> bool" where
  "ipset_string_contains_addr ops ipset addr =
     (if prefix_contains_addr ops ipset addr then True
      else case split_once ipset (CHR ''-'') of
          None \<Rightarrow> False
        | Some (a, b) \<Rightarrow>
            (case parse_address addr of
               Inr (ip, None) \<Rightarrow>
                 (case (parse_address a, parse_address b, ip) of
                    (Inr (V4 s, _), Inr (V4 e, _), V4 x) \<Rightarrow>
                      octets_value s \<le> octets_value x \<and> octets_value x \<le> octets_value e
                  | (Inr (V6 s, _), Inr (V6 e, _), V6 x) \<Rightarrow>
                      octets_value s \<le> octets_value x \<and> octets_value x \<le> octets_value e
                  | _ \<Rightarrow> False)
             | _ \<Rightarrow> False))"

definition nets_overlap :: "'n ipnet_text_ops \<Rightarrow> 'n \<Rightarrow> 'n \<Rightarrow> bool" where
  "nets_overlap ops a b =
     (let (a_bits, a_start, a_end) = ipnet_interval ops a;
          (b_bits, b_start, b_end) = ipnet_interval ops b
      in a_bits = b_bits \<and> a_start \<le> b_end \<and> b_start \<le> a_end)"

definition prefixes_overlap :: "'n ipnet_text_ops \<Rightarrow> string \<Rightarrow> string \<Rightarrow> bool" where
  "prefixes_overlap ops a b =
     (case (parse_ip_net ops a, parse_ip_net ops b) of
        (Some a, Some b) \<Rightarrow> nets_overlap ops a b
      | _ \<Rightarrow> False)"

definition prefix_covers_route :: "'n ipnet_text_ops \<Rightarrow> string \<Rightarrow> string \<Rightarrow> bool" where
  "prefix_covers_route ops prefix route =
     (case (parse_ip_net ops prefix, parse_ip_net ops route) of
        (Some prefix, Some route) \<Rightarrow>
          prefix_len ops prefix \<le> prefix_len ops route \<and>
          net_contains_addr ops prefix (ip_display (net_addr ops route))
      | _ \<Rightarrow> False)"

definition any_ip_matches :: "'n ipnet_text_ops \<Rightarrow> string list \<Rightarrow> node_view \<Rightarrow> bool" where
  "any_ip_matches ops ps node =
     list_ex (\<lambda>addr. list_ex (\<lambda>prefix. ipset_string_contains_addr ops prefix addr) ps)
       (nv_addrs node @ (case nv_addr node of Some a \<Rightarrow> [a] | None \<Rightarrow> []))"

definition push_unique_string :: "string list \<Rightarrow> string \<Rightarrow> string list" where
  "push_unique_string out v = (if v \<in> set out then out else out @ [v])"

section \<open>Nodes\<close>

datatype node_owner_key = OwnerId u64 | OwnerUser string

fun owner_key :: "packet_filter_node \<Rightarrow> node_owner_key option" where
  "owner_key node =
     (case pn_user_id node of
        Some i \<Rightarrow> Some (OwnerId i)
      | None \<Rightarrow>
          (case pn_user node of
             Some user \<Rightarrow> if user = [] then None else Some (OwnerUser user)
           | None \<Rightarrow> None))"

definition is_untagged_user_owned :: "packet_filter_node \<Rightarrow> bool" where
  "is_untagged_user_owned node \<longleftrightarrow> pn_tags node = [] \<and> owner_key node \<noteq> None"

definition same_user_untagged_nodes :: "packet_filter_node list \<Rightarrow> packet_filter_node \<Rightarrow> packet_filter_node list" where
  "same_user_untagged_nodes nodes node =
     (case owner_key node of
        None \<Rightarrow> []
      | Some owner \<Rightarrow>
          filter (\<lambda>candidate. owner_key candidate = Some owner) (filter is_untagged_user_owned nodes))"

definition node_addr_prefixes :: "packet_filter_node \<Rightarrow> string list" where
  "node_addr_prefixes node =
     map (\<lambda>(addr, _). ip_display addr @ ''/'' @ dec (if is_ipv4 addr then 32 else 128))
       (filter_map (\<lambda>addr. ok (parse_address addr)) (pn_addrs node))"

definition node_ip_strings :: "packet_filter_node \<Rightarrow> string list" where
  "node_ip_strings node =
     map (\<lambda>address. case parse_address address of
         Inl _ \<Rightarrow> ''invalid IP''
       | Inr (ip, zone) \<Rightarrow>
           (case zone of None \<Rightarrow> ip_display ip | Some z \<Rightarrow> ip_display ip @ ''%'' @ z)) (pn_addrs node)"

text \<open>The loop of \<open>nodes_matching_prefixes\<close>; no result is its early return of the empty list.\<close>

fun matching_addresses ::
  "'n ipnet_text_ops \<Rightarrow> string list \<Rightarrow> packet_filter_node list \<Rightarrow> string list \<Rightarrow> string list option" where
  "matching_addresses ops ps [] out = Some out"
| "matching_addresses ops ps (node # nodes) out =
     (if list_ex (\<lambda>addr. list_ex (\<lambda>prefix. ipset_string_contains_addr ops prefix addr) ps) (pn_addrs node)
      then if list_ex (\<lambda>addr. \<not> is_ok (parse_address addr)) (pn_addrs node) then None
           else matching_addresses ops ps nodes (out @ node_addr_prefixes node)
      else matching_addresses ops ps nodes out)"

definition nodes_matching_prefixes ::
  "'n ipnet_text_ops \<Rightarrow> packet_filter_node list \<Rightarrow> string list \<Rightarrow> string list" where
  "nodes_matching_prefixes ops nodes ps =
     (case matching_addresses ops ps nodes [] of
        None \<Rightarrow> []
      | Some out \<Rightarrow> aggregate_prefixes ops out)"

definition approved_subnet_routes :: "packet_filter_node list \<Rightarrow> string list" where
  "approved_subnet_routes nodes =
     foldl (\<lambda>out node. foldl (\<lambda>out route. if is_exit_route route then out else push_unique_string out route)
       out (pn_routes node)) [] nodes"

section \<open>Matchers\<close>

definition contains_node :: "ip_set \<Rightarrow> packet_filter_node \<Rightarrow> bool" where
  "contains_node s node = list_ex (contains_ip s) (pn_addrs node)"

definition contains_view :: "ip_set \<Rightarrow> node_view \<Rightarrow> bool" where
  "contains_view s node =
     list_ex (contains_ip s) (nv_addrs node @ (case nv_addr node of Some a \<Rightarrow> [a] | None \<Rightarrow> []))"

definition overlaps_subnets :: "'n ipnet_text_ops \<Rightarrow> ip_set \<Rightarrow> packet_filter_node \<Rightarrow> bool" where
  "overlaps_subnets ops s node =
     list_ex (overlaps_prefix ops s) (filter (\<lambda>route. \<not> is_exit_route route) (pn_routes node))"

record rule_matcher =
  rm_sources :: ip_set
  rm_destinations :: ip_set
  rm_internet :: bool

definition internet_filter_cidrs :: "string list" where
  "internet_filter_cidrs =
     [''0.0.0.0/5'', ''8.0.0.0/7'', ''11.0.0.0/8'', ''12.0.0.0/6'', ''16.0.0.0/4'', ''32.0.0.0/3'',
      ''64.0.0.0/3'', ''96.0.0.0/6'', ''100.0.0.0/10'', ''100.128.0.0/9'', ''101.0.0.0/8'',
      ''102.0.0.0/7'', ''104.0.0.0/5'', ''112.0.0.0/4'', ''128.0.0.0/3'', ''160.0.0.0/5'',
      ''168.0.0.0/8'', ''169.0.0.0/9'', ''169.128.0.0/10'', ''169.192.0.0/11'', ''169.224.0.0/12'',
      ''169.240.0.0/13'', ''169.248.0.0/14'', ''169.252.0.0/15'', ''169.255.0.0/16'', ''170.0.0.0/7'',
      ''172.0.0.0/12'', ''172.32.0.0/11'', ''172.64.0.0/10'', ''172.128.0.0/9'', ''173.0.0.0/8'',
      ''174.0.0.0/7'', ''176.0.0.0/4'', ''192.0.0.0/9'', ''192.128.0.0/11'', ''192.160.0.0/13'',
      ''192.169.0.0/16'', ''192.170.0.0/15'', ''192.172.0.0/14'', ''192.176.0.0/12'',
      ''192.192.0.0/10'', ''193.0.0.0/8'', ''194.0.0.0/7'', ''196.0.0.0/6'', ''200.0.0.0/5'',
      ''208.0.0.0/4'', ''224.0.0.0/3'', ''2000::/3'']"

definition matcher_of_rule :: "'n ipnet_text_ops \<Rightarrow> 'c filter_rule \<Rightarrow> rule_matcher" where
  "matcher_of_rule ops rule =
     (let sources = from_filter_strings ops (fr_src_ips rule);
          destinations = ip_union (from_filter_strings ops (map np_ip (fr_dst_ports rule)))
            (from_prefix_strings ops (concat (map cg_dsts (fr_cap_grant rule))));
          internet = (contains_prefix ops destinations ''0.0.0.0/0'' \<or>
            contains_prefix ops destinations ''::/0'' \<or>
            list_all (contains_prefix ops destinations) internet_filter_cidrs)
      in \<lparr>rm_sources = sources, rm_destinations = destinations, rm_internet = internet\<rparr>)"

definition from_rules :: "'n ipnet_text_ops \<Rightarrow> 'c filter_rule list \<Rightarrow> rule_matcher list" where
  "from_rules ops rules = map (matcher_of_rule ops) rules"

definition can_access ::
  "'n ipnet_text_ops \<Rightarrow> rule_matcher list \<Rightarrow> packet_filter_node \<Rightarrow> packet_filter_node \<Rightarrow> bool" where
  "can_access ops matchers source target =
     list_ex (\<lambda>m. (contains_node (rm_sources m) source \<or> overlaps_subnets ops (rm_sources m) source) \<and>
       (contains_node (rm_destinations m) target \<or> overlaps_subnets ops (rm_destinations m) target \<or>
        rm_internet m \<and> list_ex is_exit_route (pn_routes target))) matchers"

definition can_access_route ::
  "'n ipnet_text_ops \<Rightarrow> rule_matcher list \<Rightarrow> packet_filter_node \<Rightarrow> string \<Rightarrow> bool" where
  "can_access_route ops matchers source route =
     list_ex (\<lambda>m.
       contains_node (rm_sources m) source \<and> overlaps_prefix ops (rm_destinations m) route \<or>
       overlaps_prefix ops (rm_sources m) route \<and> contains_node (rm_destinations m) source \<or>
       overlaps_subnets ops (rm_sources m) source \<and> overlaps_prefix ops (rm_destinations m) route \<or>
       overlaps_prefix ops (rm_sources m) route \<and> overlaps_subnets ops (rm_destinations m) source) matchers"

section \<open>Building, merging and reducing rules\<close>

definition default_rule :: "'c filter_rule" where
  "default_rule = \<lparr>fr_src_ips = [], fr_src_bits = [], fr_dst_ports = [], fr_ip_proto = [], fr_cap_grant = []\<rparr>"

definition allow_all_filter_rules :: "'c filter_rule list" where
  "allow_all_filter_rules =
     [default_rule\<lparr>fr_src_ips := [''*''],
        fr_dst_ports := [\<lparr>np_ip = ''*'', np_bits = None, np_ports = \<lparr>pr_first = 0, pr_last = 65535\<rparr>\<rparr>],
        fr_ip_proto := []\<rparr>]"

type_synonym port_group = "int list \<times> port_range list"

definition append_filter_rules ::
  "'n ipnet_text_ops \<Rightarrow> 'c filter_rule list \<Rightarrow> string list \<Rightarrow> string list \<Rightarrow> port_group list \<Rightarrow> bool \<Rightarrow>
   'c filter_rule list" where
  "append_filter_rules ops out src_ips dst_ips groups keep_prefixes =
     (if src_ips = [] \<or> dst_ips = [] then out
      else out @ map (\<lambda>(ip_proto, port_ranges).
        default_rule\<lparr>fr_src_ips := src_ips,
          fr_dst_ports := concat (map (\<lambda>ip. map (\<lambda>range.
            \<lparr>np_ip = (if keep_prefixes then ip else dst_port_ip_string ops ip), np_bits = None,
             np_ports = range\<rparr>) port_ranges) dst_ips),
          fr_ip_proto := ip_proto\<rparr>) groups)"

fun merge_into :: "'c filter_rule \<Rightarrow> 'c filter_rule list \<Rightarrow> 'c filter_rule list" where
  "merge_into rule [] = [rule]"
| "merge_into rule (existing # out) =
     (if fr_cap_grant existing = [] \<and> fr_src_ips existing = fr_src_ips rule \<and>
         fr_ip_proto existing = fr_ip_proto rule
      then existing\<lparr>fr_dst_ports := fr_dst_ports existing @ fr_dst_ports rule\<rparr> # out
      else existing # merge_into rule out)"

definition append_coalesced_filter_rule :: "'c filter_rule list \<Rightarrow> 'c filter_rule \<Rightarrow> 'c filter_rule list" where
  "append_coalesced_filter_rule out rule =
     (if fr_cap_grant rule \<noteq> [] then out @ [rule] else merge_into rule out)"

definition coalesce_filter_rules :: "'c filter_rule list \<Rightarrow> 'c filter_rule list" where
  "coalesce_filter_rules rules = foldl append_coalesced_filter_rule [] rules"

text \<open>The two passes over the destinations of a capability grant.\<close>

definition grant_addresses ::
  "'n ipnet_text_ops \<Rightarrow> packet_filter_node \<Rightarrow> string list \<Rightarrow> string \<Rightarrow> string list" where
  "grant_addresses ops node dsts dst =
     (case parse_prefix_net ops dst of
        None \<Rightarrow> dsts
      | Some dst_net \<Rightarrow>
          if is_single_ip ops dst_net then
            (if list_ex (net_contains_addr ops dst_net) (pn_addrs node)
             then push_unique_string dsts (net_to_string ops dst_net) else dsts)
          else foldl (\<lambda>dsts addr.
              if net_contains_addr ops dst_net addr
              then (case addr_prefix_string ops addr of
                  Some prefix \<Rightarrow> push_unique_string dsts prefix
                | None \<Rightarrow> dsts)
              else dsts) dsts (pn_addrs node))"

definition grant_routes ::
  "'n ipnet_text_ops \<Rightarrow> packet_filter_node \<Rightarrow> string list \<Rightarrow> string \<Rightarrow> string list" where
  "grant_routes ops node dsts dst =
     (case parse_prefix_net ops dst of
        None \<Rightarrow> dsts
      | Some prefix \<Rightarrow>
          if list_ex (\<lambda>route. case parse_prefix_net ops route of
                None \<Rightarrow> False
              | Some route \<Rightarrow> nets_overlap ops prefix route)
              (filter (\<lambda>route. \<not> is_exit_route route) (pn_routes node))
          then push_unique_string dsts (net_to_string ops prefix) else dsts)"

definition reduced_dsts :: "'n ipnet_text_ops \<Rightarrow> packet_filter_node \<Rightarrow> string list \<Rightarrow> string list" where
  "reduced_dsts ops node dsts =
     foldl (grant_routes ops node) (foldl (grant_addresses ops node) [] dsts) dsts"

definition reduce_grant :: "'n ipnet_text_ops \<Rightarrow> packet_filter_node \<Rightarrow> 'c cap_grant \<Rightarrow> 'c cap_grant option" where
  "reduce_grant ops node grant =
     (let dsts = reduced_dsts ops node (cg_dsts grant) in
      if dsts = [] then None
      else Some \<lparr>cg_dsts = sort_by (\<lambda>a b. case prefix_compare a b of Some c \<Rightarrow> c | None \<Rightarrow> cmp a b) dsts,
                 cg_caps = [], cg_cap_map = cg_cap_map grant\<rparr>)"

definition reduce_cap_grant_rule_for_node ::
  "'n ipnet_text_ops \<Rightarrow> 'c filter_rule \<Rightarrow> packet_filter_node \<Rightarrow> 'c filter_rule option" where
  "reduce_cap_grant_rule_for_node ops rule node =
     (let cap_grant = filter_map (reduce_grant ops node) (fr_cap_grant rule)
      in if cap_grant = [] then None
         else Some (default_rule\<lparr>fr_src_ips := fr_src_ips rule, fr_cap_grant := cap_grant\<rparr>))"

definition keeps_destination :: "'n ipnet_text_ops \<Rightarrow> packet_filter_node \<Rightarrow> net_port_range \<Rightarrow> bool" where
  "keeps_destination ops node destination =
     (case from_filter_string ops (np_ip destination) of
        None \<Rightarrow> False
      | Some expanded \<Rightarrow>
          contains_node expanded node \<or> list_ex (overlaps_prefix ops expanded) (pn_routes node))"

definition reduce_filter_rules_for_node ::
  "'n ipnet_text_ops \<Rightarrow> 'c filter_rule list \<Rightarrow> packet_filter_node \<Rightarrow> 'c filter_rule list" where
  "reduce_filter_rules_for_node ops rules node =
     filter_map (\<lambda>rule.
       if fr_cap_grant rule \<noteq> [] then reduce_cap_grant_rule_for_node ops rule node
       else let rule = rule\<lparr>fr_dst_ports := filter (keeps_destination ops node) (fr_dst_ports rule)\<rparr> in
         if fr_dst_ports rule = [] then None else Some rule) rules"

section \<open>Ports and protocols\<close>

definition strip_star :: "string \<Rightarrow> string" where
  "strip_star pat = (case strip_prefix pat ''*:'' of Some rest \<Rightarrow> rest | None \<Rightarrow> pat)"

definition split_pattern :: "string \<Rightarrow> string \<times> string" where
  "split_pattern pat = (case split_once pat (CHR ''/'') of Some p \<Rightarrow> p | None \<Rightarrow> (pat, ''*''))"

definition port_pattern_to_range :: "string \<Rightarrow> port_range option" where
  "port_pattern_to_range pat =
     (let (_, port_part) = split_pattern (strip_star pat) in
      if port_part = ''*'' then Some \<lparr>pr_first = 0, pr_last = 65535\<rparr>
      else case split_once port_part (CHR ''-'') of
          Some (lo, hi) \<Rightarrow>
            (case (parse_u16 lo, parse_u16 hi) of
               (Some lo, Some hi) \<Rightarrow> if hi < lo then None else Some \<lparr>pr_first = lo, pr_last = hi\<rparr>
             | _ \<Rightarrow> None)
        | None \<Rightarrow> map_option (\<lambda>p. \<lparr>pr_first = p, pr_last = p\<rparr>) (parse_u16 port_part))"

text \<open>\<open>str::parse::<i32>\<close> and \<open>to_ascii_lowercase\<close>.\<close>

definition parse_i32 :: "string \<Rightarrow> int option" where
  "parse_i32 s =
     (case parse_i64 s of Some n \<Rightarrow> if - (2 ^ 31) \<le> n \<and> n < 2 ^ 31 then Some n else None | None \<Rightarrow> None)"

definition to_ascii_lowercase :: "string \<Rightarrow> string" where
  "to_ascii_lowercase s = map (\<lambda>c. if 65 \<le> byte c \<and> byte c \<le> 90 then char_of (byte c + 32) else c) s"

definition push_unique :: "int list \<Rightarrow> int \<Rightarrow> int list" where
  "push_unique out n = (if n \<in> set out then out else out @ [n])"

definition append_protocol_numbers :: "string \<Rightarrow> int list \<Rightarrow> int list option" where
  "append_protocol_numbers proto out =
     (let lower = to_ascii_lowercase proto;
          push = (\<lambda>nums. Some (foldl push_unique out nums))
      in if lower = [] then push []
         else if lower = ''icmp'' then push [1]
         else if lower = ''igmp'' then push [2]
         else if lower = ''ipv4'' \<or> lower = ''ip-in-ip'' then push [4]
         else if lower = ''tcp'' then push [6]
         else if lower = ''egp'' then push [8]
         else if lower = ''igp'' then push [9]
         else if lower = ''udp'' then push [17]
         else if lower = ''gre'' then push [47]
         else if lower = ''esp'' then push [50]
         else if lower = ''ah'' then push [51]
         else if lower = ''ipv6-icmp'' then push [58]
         else if lower = ''sctp'' then push [132]
         else if lower = ''fc'' then push [133]
         else case parse_i32 lower of
             None \<Rightarrow> None
           | Some n \<Rightarrow> if \<not> (0 \<le> n \<and> n \<le> 255) then None else Some (push_unique out n))"

definition ip_proto_for_pattern :: "string \<Rightarrow> int list option" where
  "ip_proto_for_pattern pat =
     (let (proto_part, _) = split_pattern (strip_star pat) in
      if proto_part = ''*'' then Some [] else append_protocol_numbers proto_part [])"

fun add_to_group :: "int list \<Rightarrow> port_range \<Rightarrow> port_group list \<Rightarrow> port_group list" where
  "add_to_group protocol rg [] = [(protocol, [rg])]"
| "add_to_group protocol rg ((proto, ranges) # groups) =
     (if proto = protocol then (proto, ranges @ [rg]) # groups
      else (proto, ranges) # add_to_group protocol rg groups)"

definition compile_port_groups :: "string list \<Rightarrow> port_group list" where
  "compile_port_groups ports =
     (if ports = [] then [([], [\<lparr>pr_first = 0, pr_last = 65535\<rparr>])]
      else foldl (\<lambda>groups pattern.
          case (port_pattern_to_range pattern, ip_proto_for_pattern pattern) of
            (Some rg, Some protocol) \<Rightarrow> add_to_group protocol rg groups
          | _ \<Rightarrow> groups) [] ports)"

section \<open>Matchers by members\<close>

lemma contains_ip_iff:
  "contains_ip s u \<longleftrightarrow> (\<exists>ip. parse_address u = Inr (ip, None) \<and> covers s (family ip) (octets_value (octets ip)))"
  by (auto simp: contains_ip_def address_span_family covers_def list_ex_iff split: sum.splits option.splits)

lemma overlaps_prefix_iff:
  assumes "list_all valid_span s" "prefix_span ops t = Some (f, a, b)" "a \<le> b"
  shows "overlaps_prefix ops s t \<longleftrightarrow> (\<exists>x. covers s f x \<and> a \<le> x \<and> x \<le> b)"
proof
  assume "overlaps_prefix ops s t"
  then obtain lo hi where x: "(f, lo, hi) \<in> set s" "a \<le> hi" "lo \<le> b"
    using assms(2) by (auto simp: overlaps_prefix_def list_ex_iff)
  then have "lo \<le> hi" using assms(1) by (auto simp: list_all_iff)
  with x assms(3) show "\<exists>x. covers s f x \<and> a \<le> x \<and> x \<le> b"
    by (intro exI [of _ "max a lo"]) (auto simp: covers_def intro!: bexI [of _ "(f, lo, hi)"])
next
  assume "\<exists>x. covers s f x \<and> a \<le> x \<and> x \<le> b"
  then show "overlaps_prefix ops s t"
    using assms(2) by (auto simp: covers_def overlaps_prefix_def list_ex_iff intro: order_trans)
qed

text \<open>Every parser of sets yields proper intervals.\<close>

lemma ipnet_interval_valid:
  assumes "ipnet_text_laws ops" "parse_prefix_net ops t = Some n"
  shows "valid_span (ipnet_interval ops n)"
  using prefix_span_valid [OF assms(1), of t] assms(2) by (simp add: prefix_span_net)

lemma from_filter_string_valid:
  assumes "ipnet_text_laws ops" "from_filter_string ops t = Some s"
  shows "list_all valid_span s"
  using assms(2) ipnet_interval_valid [OF assms(1), of t]
  by (auto simp: from_filter_string_def Let_def address_span_family split: if_splits option.splits sum.splits prod.splits)

lemma from_filter_strings_members:
  assumes "ipnet_text_laws ops"
  shows "normal (from_filter_strings ops ts)"
    "covers (from_filter_strings ops ts) f a \<longleftrightarrow>
       (\<exists>t \<in> set ts. \<exists>s. from_filter_string ops t = Some s \<and> covers s f a)"
proof -
  have "list_all valid_span (concat (filter_map (from_filter_string ops) ts))"
    using from_filter_string_valid [OF assms] by (fastforce simp: list_all_iff set_filter_map)
  moreover have "covers (concat ss) f a \<longleftrightarrow> (\<exists>s \<in> set ss. covers s f a)" for ss
    by (induction ss) auto
  ultimately show "normal (from_filter_strings ops ts)"
    "covers (from_filter_strings ops ts) f a \<longleftrightarrow>
       (\<exists>t \<in> set ts. \<exists>s. from_filter_string ops t = Some s \<and> covers s f a)"
    using from_spans_normal by (auto simp: from_filter_strings_def set_filter_map)
qed

lemma from_prefix_strings_members:
  assumes "ipnet_text_laws ops"
  shows "normal (from_prefix_strings ops ts)"
    "covers (from_prefix_strings ops ts) f a \<longleftrightarrow>
       (\<exists>t \<in> set ts. \<exists>x. prefix_span ops t = Some x \<and> covers [x] f a)"
proof -
  have "list_all valid_span (filter_map (prefix_span ops) ts)"
    using prefix_span_valid [OF assms] by (auto simp: list_all_iff set_filter_map)
  from from_spans_normal [OF this] show "normal (from_prefix_strings ops ts)"
    "covers (from_prefix_strings ops ts) f a \<longleftrightarrow>
       (\<exists>t \<in> set ts. \<exists>x. prefix_span ops t = Some x \<and> covers [x] f a)"
    by (auto simp: from_prefix_strings_def set_filter_map covers_def)
qed

lemma normal_valid: "normal s \<Longrightarrow> list_all valid_span s"
  by (simp add: normal_def)

lemma ip_union_members:
  assumes "normal a" "normal b"
  shows "normal (ip_union a b)" "covers (ip_union a b) f x \<longleftrightarrow> covers a f x \<or> covers b f x"
  using from_spans_normal [of "a @ b"] normal_valid assms by (simp_all add: ip_union_def)

lemma matcher_members:
  assumes "ipnet_text_laws ops"
  shows "normal (rm_destinations (matcher_of_rule ops rule))"
    "d \<in> set (fr_dst_ports rule) \<Longrightarrow> from_filter_string ops (np_ip d) = Some s \<Longrightarrow> covers s f a \<Longrightarrow>
      covers (rm_destinations (matcher_of_rule ops rule)) f a"
    "g \<in> set (fr_cap_grant rule) \<Longrightarrow> t \<in> set (cg_dsts g) \<Longrightarrow> prefix_span ops t = Some x \<Longrightarrow> covers [x] f a \<Longrightarrow>
      covers (rm_destinations (matcher_of_rule ops rule)) f a"
proof -
  let ?d = "rm_destinations (matcher_of_rule ops rule)"
  note u = ip_union_members [OF from_filter_strings_members(1) [OF assms] from_prefix_strings_members(1) [OF assms],
      of "map np_ip (fr_dst_ports rule)" "concat (map cg_dsts (fr_cap_grant rule))"]
  have d: "?d = ip_union (from_filter_strings ops (map np_ip (fr_dst_ports rule)))
      (from_prefix_strings ops (concat (map cg_dsts (fr_cap_grant rule))))"
    by (simp add: matcher_of_rule_def Let_def)
  show "normal ?d" unfolding d by (rule u(1))
  show "covers ?d f a" if "d \<in> set (fr_dst_ports rule)" "from_filter_string ops (np_ip d) = Some s" "covers s f a"
    unfolding d u(2) from_filter_strings_members(2) [OF assms] using that by auto
  show "covers ?d f a" if "g \<in> set (fr_cap_grant rule)" "t \<in> set (cg_dsts g)" "prefix_span ops t = Some x" "covers [x] f a"
    unfolding d u(2) from_prefix_strings_members(2) [OF assms] using that(1,2)
    by (intro disjI2 bexI [of _ t] exI [of _ x] conjI that(3,4)) auto
qed

lemma overlaps_prefix_mono:
  assumes "ipnet_text_laws ops" "list_all valid_span s" "list_all valid_span s'"
    and "\<And>f a. covers s f a \<Longrightarrow> covers s' f a" "overlaps_prefix ops s t"
  shows "overlaps_prefix ops s' t"
proof -
  obtain f a b where p: "prefix_span ops t = Some (f, a, b)"
    using assms(5) by (auto simp: overlaps_prefix_def split: option.splits)
  have v: "a \<le> b" using prefix_span_valid [OF assms(1) p] by simp
  show ?thesis
    using assms(4,5) unfolding overlaps_prefix_iff [OF assms(2) p v] overlaps_prefix_iff [OF assms(3) p v] by blast
qed

lemma contains_node_mono:
  "(\<And>f a. covers s f a \<Longrightarrow> covers s' f a) \<Longrightarrow> contains_node s node \<Longrightarrow> contains_node s' node"
  by (auto simp: contains_node_def list_ex_iff contains_ip_iff)

text \<open>A kept destination of a capability grant is one of the node's addresses or meets one of its
  subnet routes.\<close>

lemma foldl_changes: "foldl f a xs \<noteq> a \<Longrightarrow> \<exists>x \<in> set xs. \<exists>b. f b x \<noteq> b"
  by (induction xs arbitrary: a) (auto, metis)

definition touches :: "'n ipnet_text_ops \<Rightarrow> packet_filter_node \<Rightarrow> string \<Rightarrow> bool" where
  "touches ops node dst \<longleftrightarrow> (\<exists>net. parse_prefix_net ops dst = Some net \<and>
     ((\<exists>addr \<in> set (pn_addrs node). net_contains_addr ops net addr) \<or>
      (\<exists>route \<in> set (pn_routes node). \<not> is_exit_route route \<and>
        (\<exists>r. parse_prefix_net ops route = Some r \<and> nets_overlap ops net r))))"

lemma grant_addresses_touches: "grant_addresses ops node ds dst \<noteq> ds \<Longrightarrow> touches ops node dst"
proof (cases "parse_prefix_net ops dst")
  case (Some net)
  assume changed: "grant_addresses ops node ds dst \<noteq> ds"
  have "\<exists>addr \<in> set (pn_addrs node). net_contains_addr ops net addr"
  proof (cases "is_single_ip ops net")
    case True
    with changed Some show ?thesis by (auto simp: grant_addresses_def list_ex_iff split: if_splits)
  next
    case False
    with changed Some have "foldl (\<lambda>dsts addr. if net_contains_addr ops net addr
        then (case addr_prefix_string ops addr of Some prefix \<Rightarrow> push_unique_string dsts prefix | None \<Rightarrow> dsts)
        else dsts) ds (pn_addrs node) \<noteq> ds"
      by (simp add: grant_addresses_def)
    from foldl_changes [OF this] show ?thesis by (auto split: if_splits)
  qed
  with Some show ?thesis by (auto simp: touches_def)
qed (simp add: grant_addresses_def)

lemma grant_routes_touches: "grant_routes ops node ds dst \<noteq> ds \<Longrightarrow> touches ops node dst"
  by (auto simp: grant_routes_def touches_def list_ex_iff split: option.splits if_splits)

lemma reduced_dsts_touches:
  assumes "reduced_dsts ops node dsts \<noteq> []"
  shows "\<exists>dst \<in> set dsts. touches ops node dst"
proof (cases "foldl (grant_addresses ops node) [] dsts = []")
  case True
  with assms have "foldl (grant_routes ops node) [] dsts \<noteq> []" by (simp add: reduced_dsts_def)
  from foldl_changes [OF this] show ?thesis using grant_routes_touches by blast
next
  case False
  from foldl_changes [OF this] show ?thesis using grant_addresses_touches by blast
qed

lemma reduce_cap_grant_Some:
  assumes "reduce_cap_grant_rule_for_node ops rule node = Some r"
  shows "fr_src_ips r = fr_src_ips rule \<and>
    (\<exists>g \<in> set (fr_cap_grant rule). reduced_dsts ops node (cg_dsts g) \<noteq> [])"
proof -
  have r: "filter_map (reduce_grant ops node) (fr_cap_grant rule) \<noteq> []" "fr_src_ips r = fr_src_ips rule"
    using assms by (auto simp: reduce_cap_grant_rule_for_node_def Let_def split: if_splits)
  then obtain y where "y \<in> set (filter_map (reduce_grant ops node) (fr_cap_grant rule))" by fastforce
  then obtain g where "g \<in> set (fr_cap_grant rule)" "reduce_grant ops node g = Some y"
    by (auto simp: set_filter_map)
  with r(2) show ?thesis by (auto simp: reduce_grant_def Let_def split: if_splits)
qed

lemma touches_covered:
  assumes laws: "ipnet_text_laws ops" and "touches ops node dst" and n: "normal s"
    and sub: "\<And>x f a. prefix_span ops dst = Some x \<Longrightarrow> covers [x] f a \<Longrightarrow> covers s f a"
  shows "contains_node s node \<or> overlaps_subnets ops s node"
proof -
  obtain net where net: "parse_prefix_net ops dst = Some net" using assms(2) by (auto simp: touches_def)
  then obtain ip bits where p: "parse_prefix dst = Inr (ip, bits)" "net_new ops ip (of_nat bits) = Some net"
    by (auto simp: parse_prefix_net_def split: sum.splits)
  obtain start "end" where span: "prefix_span ops dst = Some (family ip, start, end)" "start \<le> end"
      "\<And>ps. length ps = length (octets ip) \<Longrightarrow>
        start \<le> octets_value ps \<and> octets_value ps \<le> end \<longleftrightarrow> masked ps bits = masked (octets ip) bits"
    using prefix_span_members [OF laws p(1)] by blast
  have addr: "net_addr ops net = ip" "unat (prefix_len ops net) = bits" "wf_ip ip"
    using parse_prefix_net_wf [OF laws p(1)] p(2) by auto
  from assms(2) net consider
      (addr) a where "a \<in> set (pn_addrs node)" "net_contains_addr ops net a"
    | (route) route r where "route \<in> set (pn_routes node)" "\<not> is_exit_route route"
        "parse_prefix_net ops route = Some r" "nets_overlap ops net r"
    by (auto simp: touches_def)
  then show ?thesis
  proof cases
    case (addr a)
    then obtain ip' where a: "parse_address a = Inr (ip', None)" "is_v4 ops net = is_ipv4 ip'" "net_contains ops net ip'"
      by (auto simp: net_contains_addr_def split: sum.splits if_splits)
    have "masked (octets ip') bits = masked (octets ip) bits"
      using a(3) addr laws \<open>net_addr ops net = ip\<close> \<open>unat (prefix_len ops net) = bits\<close>
      by (auto simp: ipnet_text_laws_def ipnet_laws_def ipnet_ops.defs)
    moreover have fam: "family ip' = family ip"
      using a(2) laws_unfold(1) [OF laws] \<open>net_addr ops net = ip\<close> by (simp add: family_cases)
    then have "length (octets ip') = length (octets ip)"
      using wf_octets [OF parse_address_wf [OF a(1)]] wf_octets [OF \<open>wf_ip ip\<close>] by simp
    ultimately have "covers s (family ip') (octets_value (octets ip'))"
      using span fam sub by simp
    then show ?thesis using a(1) addr(1) by (auto simp: contains_node_def list_ex_iff contains_ip_iff)
  next
    case (route route r)
    have i: "ipnet_interval ops net = (family ip, start, end)" using span(1) net by (simp add: prefix_span_net)
    obtain f a b where j: "ipnet_interval ops r = (f, a, b)" by (cases "ipnet_interval ops r")
    then have q: "prefix_span ops route = Some (f, a, b)" using route(3) by (simp add: prefix_span_net)
    have v: "a \<le> b" using prefix_span_valid [OF laws q] by simp
    have "f = family ip" "start \<le> b" "a \<le> end" using route(4) i j by (auto simp: nets_overlap_def)
    then have "covers s f (max start a) \<and> a \<le> max start a \<and> max start a \<le> b"
      using span(1,2) v by (auto intro!: sub)
    then have "overlaps_prefix ops s route"
      using overlaps_prefix_iff [OF normal_valid [OF n] q v] by blast
    then show ?thesis using route(1,2) by (auto simp: overlaps_subnets_def list_ex_iff)
  qed
qed


section \<open>Merging\<close>

text \<open>What a rule without capability grants admits, and the key by which rules are merged.\<close>

fun rule_flows :: "'c filter_rule \<Rightarrow> (string list \<times> int list \<times> net_port_range) set" where
  "rule_flows r = (if fr_cap_grant r = [] then {(fr_src_ips r, fr_ip_proto r, d) | d. d \<in> set (fr_dst_ports r)} else {})"

definition flows :: "'c filter_rule list \<Rightarrow> (string list \<times> int list \<times> net_port_range) set" where
  "flows rules = (\<Union>r \<in> set rules. rule_flows r)"

definition merge_keys :: "'c filter_rule list \<Rightarrow> (string list \<times> int list) list" where
  "merge_keys rules = map (\<lambda>r. (fr_src_ips r, fr_ip_proto r)) (filter (\<lambda>r. fr_cap_grant r = []) rules)"

definition cap_rules :: "'c filter_rule list \<Rightarrow> 'c filter_rule list" where
  "cap_rules rules = filter (\<lambda>r. fr_cap_grant r \<noteq> []) rules"

lemma flows_simps [simp]: "flows [] = {}" "flows (r # rs) = rule_flows r \<union> flows rs"
  "flows (rs @ ts) = flows rs \<union> flows ts"
  by (auto simp: flows_def)

lemma rule_flows_merge:
  assumes "fr_cap_grant existing = []" "fr_src_ips existing = fr_src_ips rule"
    "fr_ip_proto existing = fr_ip_proto rule" "fr_cap_grant rule = []"
  shows "rule_flows (existing\<lparr>fr_dst_ports := fr_dst_ports existing @ fr_dst_ports rule\<rparr>) =
    rule_flows existing \<union> rule_flows rule"
  using assms by auto

declare rule_flows.simps [simp del]

lemma merge_keys_simps [simp]:
  "merge_keys [] = []"
  "merge_keys (r # rs) =
     (if fr_cap_grant r = [] then (fr_src_ips r, fr_ip_proto r) # merge_keys rs else merge_keys rs)"
  "merge_keys (rs @ ts) = merge_keys rs @ merge_keys ts"
  by (simp_all add: merge_keys_def)

lemma merge_into_keeps:
  assumes "fr_cap_grant rule = []"
  shows "flows (merge_into rule out) = flows out \<union> rule_flows rule"
    and "cap_rules (merge_into rule out) = cap_rules out"
    and "set (merge_keys (merge_into rule out)) = insert (fr_src_ips rule, fr_ip_proto rule) (set (merge_keys out))"
    and "distinct (merge_keys out) \<Longrightarrow> distinct (merge_keys (merge_into rule out))"
proof -
  show "flows (merge_into rule out) = flows out \<union> rule_flows rule"
    using assms by (induction out) (auto simp: rule_flows_merge)
  show "cap_rules (merge_into rule out) = cap_rules out"
    using assms by (induction out) (auto simp: cap_rules_def)
  show keys: "set (merge_keys (merge_into rule out)) = insert (fr_src_ips rule, fr_ip_proto rule) (set (merge_keys out))" for out
    using assms by (induction out) auto
  show "distinct (merge_keys out) \<Longrightarrow> distinct (merge_keys (merge_into rule out))"
    using keys assms by (induction out) auto
qed

lemma coalesce_step:
  "flows (append_coalesced_filter_rule out r) = flows out \<union> rule_flows r"
  "cap_rules (append_coalesced_filter_rule out r) = cap_rules out @ cap_rules [r]"
  "distinct (merge_keys out) \<Longrightarrow> distinct (merge_keys (append_coalesced_filter_rule out r))"
  using merge_into_keeps [of r out]
  by (auto simp: append_coalesced_filter_rule_def cap_rules_def rule_flows.simps)

lemma coalesce_foldl:
  "flows (foldl append_coalesced_filter_rule out rules) = flows out \<union> flows rules \<and>
   cap_rules (foldl append_coalesced_filter_rule out rules) = cap_rules out @ cap_rules rules \<and>
   (distinct (merge_keys out) \<longrightarrow> distinct (merge_keys (foldl append_coalesced_filter_rule out rules)))"
proof (induction rules arbitrary: out)
  case (Cons r rules)
  have "flows (r # rules) = rule_flows r \<union> flows rules" "cap_rules (r # rules) = cap_rules [r] @ cap_rules rules"
    by (auto simp: cap_rules_def)
  with Cons [of "append_coalesced_filter_rule out r"] coalesce_step [of out r] show ?case by auto
qed (simp add: cap_rules_def)

section \<open>Properties\<close>

text \<open>C4. A peer that the reduced packet filter of a node lets in sees that node: when a rule is left
  for a node without exit routes and a peer's address is among its sources, the access check of the
  unreduced rules holds for the peer and the node.\<close>

theorem reduced_filter_peers_visible:
  assumes "ipnet_text_laws ops" and "r \<in> set (reduce_filter_rules_for_node ops rules node)"
    and "contains_node (from_filter_strings ops (fr_src_ips r)) peer"
    and "\<not> list_ex is_exit_route (pn_routes node)"
  shows "can_access ops (from_rules ops rules) peer node"
proof -
  obtain rule where rule: "rule \<in> set rules" and red: "(if fr_cap_grant rule \<noteq> [] then reduce_cap_grant_rule_for_node ops rule node
       else let rule = rule\<lparr>fr_dst_ports := filter (keeps_destination ops node) (fr_dst_ports rule)\<rparr> in
         if fr_dst_ports rule = [] then None else Some rule) = Some r"
    using assms(2) by (auto simp: reduce_filter_rules_for_node_def set_filter_map)
  let ?m = "matcher_of_rule ops rule"
  note m = matcher_members [OF assms(1), where rule = rule]
  have dst: "fr_src_ips r = fr_src_ips rule \<and>
      (contains_node (rm_destinations ?m) node \<or> overlaps_subnets ops (rm_destinations ?m) node)"
  proof (cases "fr_cap_grant rule = []")
    case True
    with red have r: "r = rule\<lparr>fr_dst_ports := filter (keeps_destination ops node) (fr_dst_ports rule)\<rparr>"
      "filter (keeps_destination ops node) (fr_dst_ports rule) \<noteq> []"
      by (auto simp: Let_def split: if_splits)
    then obtain d where d: "d \<in> set (fr_dst_ports rule)" "keeps_destination ops node d"
      by (auto simp: filter_empty_conv)
    then obtain s where s: "from_filter_string ops (np_ip d) = Some s"
        "contains_node s node \<or> (\<exists>route \<in> set (pn_routes node). overlaps_prefix ops s route)"
      by (auto simp: keeps_destination_def list_ex_iff split: option.splits)
    have sub: "covers s f a \<Longrightarrow> covers (rm_destinations ?m) f a" for f a using m(2) [OF d(1) s(1)] .
    have "contains_node (rm_destinations ?m) node" if "contains_node s node"
      using sub that by (rule contains_node_mono)
    moreover have "overlaps_subnets ops (rm_destinations ?m) node"
      if "route \<in> set (pn_routes node)" "overlaps_prefix ops s route" for route
      using overlaps_prefix_mono [OF assms(1) from_filter_string_valid [OF assms(1) s(1)] normal_valid [OF m(1)] sub that(2)]
        that(1) assms(4) by (auto simp: overlaps_subnets_def list_ex_iff)
    ultimately show ?thesis using s(2) r(1) by auto
  next
    case False
    with red have "reduce_cap_grant_rule_for_node ops rule node = Some r" by simp
    from reduce_cap_grant_Some [OF this]
    obtain g where g: "g \<in> set (fr_cap_grant rule)" "reduced_dsts ops node (cg_dsts g) \<noteq> []"
        and r: "fr_src_ips r = fr_src_ips rule" by blast
    obtain t where t: "t \<in> set (cg_dsts g)" "touches ops node t" using reduced_dsts_touches [OF g(2)] by blast
    have "contains_node (rm_destinations ?m) node \<or> overlaps_subnets ops (rm_destinations ?m) node"
      by (rule touches_covered [OF assms(1) t(2) m(1)]) (rule m(3) [OF g(1) t(1)])
    with r show ?thesis by blast
  qed
  have "contains_node (rm_sources ?m) peer"
    using assms(3) dst by (simp add: matcher_of_rule_def Let_def)
  then show ?thesis
    using rule dst by (auto simp: can_access_def from_rules_def list_ex_iff)
qed

definition example_node :: "string \<Rightarrow> packet_filter_node" where
  "example_node addr = \<lparr>pn_id = 1, pn_user_id = None, pn_user = None, pn_addrs = [addr], pn_tags = [], pn_routes = []\<rparr>"

definition example_rule :: "unit filter_rule" where
  "example_rule = default_rule\<lparr>fr_src_ips := [''10.0.0.0/8''],
     fr_dst_ports := [\<lparr>np_ip = ''10.0.0.2'', np_bits = None, np_ports = \<lparr>pr_first = 22, pr_last = 22\<rparr>\<rparr>]\<rparr>"

theorem reduced_filter_peers_visible_witness:
  "can_access cidr_text_ops (from_rules cidr_text_ops [example_rule]) (example_node ''10.0.0.9'') (example_node ''10.0.0.2'')"
proof (rule reduced_filter_peers_visible [OF cidr_text_laws])
  have "parse_address ''10.0.0.2'' = Inr (V4 [10, 0, 0, 2], None)" by code_simp
  then have "keeps_destination cidr_text_ops (example_node ''10.0.0.2'')
      \<lparr>np_ip = ''10.0.0.2'', np_bits = None, np_ports = \<lparr>pr_first = 22, pr_last = 22\<rparr>\<rparr>"
    by (simp add: keeps_destination_def from_filter_string_def address_span_family contains_node_def
        example_node_def contains_ip_def)
  then show "example_rule \<in> set (reduce_filter_rules_for_node cidr_text_ops [example_rule] (example_node ''10.0.0.2''))"
    by (simp add: reduce_filter_rules_for_node_def example_rule_def default_rule_def)
  have a: "parse_address ''10.0.0.9'' = Inr (V4 [10, 0, 0, 9], None)" by code_simp
  have p: "parse_prefix ''10.0.0.0/8'' = Inr (V4 [10, 0, 0, 0], 8)" by code_simp
  have m: "masked [10, 0, 0, 0] 8 = [10, 0, 0, 0]" by code_simp
  have v: "octets_value [10, 0, 0, 0] = 0x0A000000" "octets_value [10, 0, 0, 9] = 0x0A000009"
    by (simp_all add: octets_value_def)
  have "from_filter_string cidr_text_ops ''10.0.0.0/8'' = Some [(32, 0x0A000000, 0x0AFFFFFF)]"
    using p m v by (simp add: from_filter_string_def parse_prefix_net_def cidr_text_ops_def cidr_ops_def ipnet_interval_def)
  then show "contains_node (from_filter_strings cidr_text_ops (fr_src_ips example_rule)) (example_node ''10.0.0.9'')"
    using a v from_filter_strings_members(2) [OF cidr_text_laws, of "[''10.0.0.0/8'']" 32 "0x0A000009"]
    by (simp add: example_rule_def contains_node_def example_node_def contains_ip_iff)
  show "\<not> list_ex is_exit_route (pn_routes (example_node ''10.0.0.2''))"
    by (simp add: example_node_def)
qed

text \<open>C20. Merging rules changes nothing a filter admits: the flows and the sequence of capability
  rules are kept, and no two of the other rules share their sources and protocols.\<close>

theorem coalesce_keeps_flows:
  "flows (coalesce_filter_rules rules) = flows rules \<and>
   cap_rules (coalesce_filter_rules rules) = cap_rules rules \<and>
   distinct (merge_keys (coalesce_filter_rules rules))"
  using coalesce_foldl [of "[]" rules]
  by (simp add: coalesce_filter_rules_def cap_rules_def)

definition group_ok :: "port_group \<Rightarrow> bool" where
  "group_ok g \<longleftrightarrow> snd g \<noteq> [] \<and> list_all (\<lambda>r. pr_first r \<le> pr_last r) (snd g) \<and>
     list_all (\<lambda>n. 0 \<le> n \<and> n \<le> 255) (fst g)"

lemma port_pattern_range: "port_pattern_to_range pat = Some r \<Longrightarrow> pr_first r \<le> pr_last r"
  by (auto simp: port_pattern_to_range_def Let_def split: prod.splits if_splits option.splits)

lemma push_unique_bound:
  "list_all (\<lambda>n. 0 \<le> n \<and> n \<le> 255) out \<Longrightarrow> 0 \<le> n \<Longrightarrow> n \<le> 255 \<Longrightarrow>
    list_all (\<lambda>n. 0 \<le> n \<and> n \<le> 255) (push_unique out n)"
  by (simp add: push_unique_def)

lemma append_protocol_numbers_bound:
  assumes "append_protocol_numbers p out = Some ns" "list_all (\<lambda>n. 0 \<le> n \<and> n \<le> 255) out"
  shows "list_all (\<lambda>n. 0 \<le> n \<and> n \<le> 255) ns"
  using assms push_unique_bound [OF assms(2)]
  by (auto simp: append_protocol_numbers_def Let_def split: if_splits option.splits)

lemma ip_proto_bound:
  "ip_proto_for_pattern pat = Some ns \<Longrightarrow> list_all (\<lambda>n. 0 \<le> n \<and> n \<le> 255) ns"
  by (auto simp: ip_proto_for_pattern_def Let_def split: prod.splits if_splits
      intro: append_protocol_numbers_bound [where out = "[]"])

lemma add_to_group_ok:
  assumes "list_all group_ok groups" "distinct (map fst groups)"
    and "pr_first rg \<le> pr_last rg" "list_all (\<lambda>n. 0 \<le> n \<and> n \<le> 255) p"
  shows "list_all group_ok (add_to_group p rg groups) \<and> distinct (map fst (add_to_group p rg groups)) \<and>
    set (map fst (add_to_group p rg groups)) = insert p (set (map fst groups))"
  using assms by (induction p rg groups rule: add_to_group.induct) (auto simp: group_ok_def)

text \<open>C35. Compiled port groups are well formed: every group has at least one port range, every range
  runs upwards, every protocol is a number of the IP header's protocol field, and no two groups have
  the same protocols.\<close>

theorem port_groups_well_formed:
  "list_all group_ok (compile_port_groups ports) \<and> distinct (map fst (compile_port_groups ports))"
proof -
  have "list_all group_ok groups \<and> distinct (map fst groups) \<Longrightarrow>
      list_all group_ok (foldl (\<lambda>groups pattern.
          case (port_pattern_to_range pattern, ip_proto_for_pattern pattern) of
            (Some rg, Some protocol) \<Rightarrow> add_to_group protocol rg groups | _ \<Rightarrow> groups) groups ports) \<and>
      distinct (map fst (foldl (\<lambda>groups pattern.
          case (port_pattern_to_range pattern, ip_proto_for_pattern pattern) of
            (Some rg, Some protocol) \<Rightarrow> add_to_group protocol rg groups | _ \<Rightarrow> groups) groups ports))" for groups
  proof (induction ports arbitrary: groups)
    case (Cons p ports)
    have "list_all group_ok g \<and> distinct (map fst g)"
      if "g = (case (port_pattern_to_range p, ip_proto_for_pattern p) of
            (Some rg, Some protocol) \<Rightarrow> add_to_group protocol rg groups | _ \<Rightarrow> groups)" for g
      using Cons.prems add_to_group_ok [of groups] port_pattern_range [of p] ip_proto_bound [of p] that
      by (auto split: option.splits)
    from Cons.IH [OF this [OF refl]] show ?case by simp
  qed simp
  from this [of "[]"] show ?thesis by (simp add: compile_port_groups_def group_ok_def)
qed


end
