(* ===== verification/Stun.thy ===== *)
theory Stun
  imports Std_Net "HOL-Library.Monad_Syntax"
begin

text \<open>
  The STUN codec, responder and client of \<open>headscale-core/src/stun.rs\<close>. Messages are lists of
  bytes. An index or byte_range out of range, where the code panics, is \<open>None\<close>; the result of a parser
  is therefore an optional result. Sockets are arguments: what a query receives, and what each
  server answers.
  The theorems: a client that asks a responder learns its own address; the parsers never panic; a
  response is believed only with the client's transaction id; the client returns the first answer.
\<close>

unbundle bit_operations_syntax

section \<open>Bytes\<close>

definition to_be16 :: "u16 \<Rightarrow> bytes" where
  "to_be16 w = [ucast (drop_bit 8 w), ucast w]"

definition to_be32 :: "u32 \<Rightarrow> bytes" where
  "to_be32 w = [ucast (drop_bit 24 w), ucast (drop_bit 16 w), ucast (drop_bit 8 w), ucast w]"

definition from_be16 :: "u8 \<Rightarrow> u8 \<Rightarrow> u16" where
  "from_be16 a b = push_bit 8 (ucast a) OR ucast b"

definition from_be32 :: "u8 \<Rightarrow> u8 \<Rightarrow> u8 \<Rightarrow> u8 \<Rightarrow> u32" where
  "from_be32 a b c d =
     push_bit 24 (ucast a) OR (push_bit 16 (ucast b) OR (push_bit 8 (ucast c) OR ucast d))"

definition read16 :: "bytes \<Rightarrow> nat \<Rightarrow> u16 option" where
  "read16 d i = do { a \<leftarrow> idx d i; b \<leftarrow> idx d (i + 1); Some (from_be16 a b) }"

definition read32 :: "bytes \<Rightarrow> nat \<Rightarrow> u32 option" where
  "read32 d i = do { a \<leftarrow> idx d i; b \<leftarrow> idx d (i + 1); c \<leftarrow> idx d (i + 2); e \<leftarrow> idx d (i + 3);
     Some (from_be32 a b c e) }"

section \<open>Messages\<close>

definition STUN_BINDING_REQUEST :: u16 where
  "STUN_BINDING_REQUEST = 0x0001"

definition STUN_BINDING_RESPONSE :: u16 where
  "STUN_BINDING_RESPONSE = 0x0101"

definition ATTR_MAPPED_ADDRESS :: u16 where
  "ATTR_MAPPED_ADDRESS = 0x0001"

definition ATTR_XOR_MAPPED_ADDRESS :: u16 where
  "ATTR_XOR_MAPPED_ADDRESS = 0x0020"

definition ATTR_XOR_MAPPED_ADDRESS_ALT :: u16 where
  "ATTR_XOR_MAPPED_ADDRESS_ALT = 0x8020"

definition STUN_FAMILY_IPV4 :: u8 where
  "STUN_FAMILY_IPV4 = 0x01"

definition STUN_FAMILY_IPV6 :: u8 where
  "STUN_FAMILY_IPV6 = 0x02"

definition MAGIC_COOKIE :: u32 where
  "MAGIC_COOKIE = 0x2112A442"

datatype stun_request_error = Truncated | BadMagic | UnsupportedType u16

datatype stun_error = NoServers | AllServersFailed | Timeout | InvalidResponse string | Io

definition hex4 :: "u16 \<Rightarrow> string" where
  "hex4 w = (let h = hex (unat w) in replicate (4 - length h) (CHR ''0'') @ h)"

definition build_binding_request :: "bytes \<Rightarrow> bytes" where
  "build_binding_request transaction_id =
     to_be16 STUN_BINDING_REQUEST @ to_be16 0 @ to_be32 MAGIC_COOKIE @ transaction_id"

definition decode_binding_request :: "bytes \<Rightarrow> (stun_request_error, bytes) result option" where
  "decode_binding_request data =
     (if length data < 20 then Some (Inl Truncated)
      else do {
        msg_type \<leftarrow> read16 data 0;
        if msg_type \<noteq> STUN_BINDING_REQUEST then Some (Inl (UnsupportedType msg_type))
        else do {
          msg_len \<leftarrow> read16 data 2;
          if length data < 20 + unat msg_len then Some (Inl Truncated)
          else do {
            cookie \<leftarrow> read32 data 4;
            if cookie \<noteq> MAGIC_COOKIE then Some (Inl BadMagic)
            else do {
              transaction_id \<leftarrow> byte_range data 8 20;
              Some (Inr transaction_id)
            }
          }
        }
      })"

definition xor_port :: "u16 \<Rightarrow> u16" where
  "xor_port port = port XOR ucast (drop_bit 16 MAGIC_COOKIE)"

definition xor_bytes :: "bytes \<Rightarrow> bytes \<Rightarrow> bytes" where
  "xor_bytes a b = map2 (XOR) a b"

text \<open>\<open>u32::from\<close> reads the octets of an IPv4 address as a number, most significant first.\<close>

definition v4_to_u32 :: "bytes \<Rightarrow> u32" where
  "v4_to_u32 os = from_be32 (os ! 0) (os ! 1) (os ! 2) (os ! 3)"

fun encode_xor_mapped_address :: "bytes \<Rightarrow> socket_addr \<Rightarrow> bytes" where
  "encode_xor_mapped_address transaction_id (V4 os, port) =
     [0, STUN_FAMILY_IPV4] @ to_be16 (xor_port port) @ to_be32 (v4_to_u32 os XOR MAGIC_COOKIE)"
| "encode_xor_mapped_address transaction_id (V6 os, port) =
     [0, STUN_FAMILY_IPV6] @ to_be16 (xor_port port) @
     xor_bytes os (to_be32 MAGIC_COOKIE @ transaction_id)"

definition encode_binding_response :: "bytes \<Rightarrow> socket_addr \<Rightarrow> bytes" where
  "encode_binding_response transaction_id addr =
     (let attr_body = encode_xor_mapped_address transaction_id addr;
          attr_len = of_nat (length attr_body) :: u16;
          msg_len = 4 + of_nat (length attr_body) :: u16
      in to_be16 STUN_BINDING_RESPONSE @ to_be16 msg_len @ to_be32 MAGIC_COOKIE @ transaction_id @
         to_be16 ATTR_XOR_MAPPED_ADDRESS @ to_be16 attr_len @ attr_body)"

definition handle_packet :: "bytes \<Rightarrow> socket_addr \<Rightarrow> (stun_request_error, bytes option) result option" where
  "handle_packet data remote =
     do {
       r \<leftarrow> decode_binding_request data;
       Some (case r of
          Inr transaction_id \<Rightarrow> Inr (Some (encode_binding_response transaction_id remote))
        | Inl Truncated \<Rightarrow> Inr None
        | Inl BadMagic \<Rightarrow> Inr None
        | Inl err \<Rightarrow> Inl err)
     }"

definition parse_mapped_address :: "bytes \<Rightarrow> (stun_error, socket_addr) result option" where
  "parse_mapped_address data =
     (if length data < 8 then Some (Inl (InvalidResponse ''MAPPED-ADDRESS too short''))
      else do {
        family \<leftarrow> idx data 1;
        port \<leftarrow> read16 data 2;
        if family = 0x01 then do {
          os \<leftarrow> byte_range data 4 8;
          Some (Inr (V4 os, port))
        }
        else if family = 0x02 then
          (if length data < 20 then Some (Inl (InvalidResponse ''IPv6 address too short''))
           else do {
             os \<leftarrow> byte_range data 4 20;
             Some (Inr (V6 os, port))
           })
        else Some (Inl (InvalidResponse (''Unknown address family: '' @ dec (unat family))))
      })"

definition parse_xor_mapped_address :: "bytes \<Rightarrow> bytes \<Rightarrow> (stun_error, socket_addr) result option" where
  "parse_xor_mapped_address data transaction_id =
     (if length data < 8 then Some (Inl (InvalidResponse ''XOR-MAPPED-ADDRESS too short''))
      else do {
        family \<leftarrow> idx data 1;
        p \<leftarrow> read16 data 2;
        if family = 0x01 then do {
          xor_ip \<leftarrow> read32 data 4;
          Some (Inr (V4 (to_be32 (xor_ip XOR MAGIC_COOKIE)), xor_port p))
        }
        else if family = 0x02 then
          (if length data < 20 then Some (Inl (InvalidResponse ''IPv6 address too short''))
           else do {
             os \<leftarrow> byte_range data 4 20;
             Some (Inr (V6 (xor_bytes os (to_be32 MAGIC_COOKIE @ transaction_id)), xor_port p))
           })
        else Some (Inl (InvalidResponse (''Unknown address family: '' @ dec (unat family))))
      })"

text \<open>The length of an attribute with its padding, computed on \<open>usize\<close>.\<close>

definition padded_len :: "u16 \<Rightarrow> nat" where
  "padded_len len = unat ((ucast len + 3 :: u64) AND NOT 3)"

text \<open>The loop over the attributes.\<close>

function parse_attributes ::
  "bytes \<Rightarrow> bytes \<Rightarrow> nat \<Rightarrow> nat \<Rightarrow> socket_addr option \<Rightarrow> (stun_error, socket_addr) result option" where
  "parse_attributes data txn message_end offset fallback =
     (if \<not> offset < message_end then
        Some (case fallback of
            Some addr \<Rightarrow> Inr addr
          | None \<Rightarrow> Inl (InvalidResponse ''No mapped address in response''))
      else if offset + 4 > message_end then Some (Inl (InvalidResponse ''Malformed attributes''))
      else do {
        attr_type \<leftarrow> read16 data offset;
        len \<leftarrow> read16 data (offset + 2);
        let attr_start = offset + 4;
            attr_end = attr_start + unat len;
            next_offset = attr_start + padded_len len
        in if next_offset > message_end then Some (Inl (InvalidResponse ''Malformed attributes''))
           else do {
             attr_data \<leftarrow> byte_range data attr_start attr_end;
             if attr_type = ATTR_XOR_MAPPED_ADDRESS \<or> attr_type = ATTR_XOR_MAPPED_ADDRESS_ALT
             then parse_xor_mapped_address attr_data txn
             else if attr_type = ATTR_MAPPED_ADDRESS then do {
               r \<leftarrow> parse_mapped_address attr_data;
               case r of
                 Inl e \<Rightarrow> Some (Inl e)
               | Inr addr \<Rightarrow> parse_attributes data txn message_end next_offset (Some addr)
             }
             else parse_attributes data txn message_end next_offset fallback
           }
      })"
  by pat_completeness auto
termination
  by (relation "measure (\<lambda>(data, txn, message_end, offset, fallback). message_end - offset)") auto

declare parse_attributes.simps [simp del]

definition parse_binding_response :: "bytes \<Rightarrow> bytes \<Rightarrow> (stun_error, socket_addr) result option" where
  "parse_binding_response data expected_txn_id =
     (if length data < 20 then Some (Inl (InvalidResponse ''Message too short''))
      else do {
        msg_type \<leftarrow> read16 data 0;
        if msg_type \<noteq> STUN_BINDING_RESPONSE
        then Some (Inl (InvalidResponse (''Unexpected message type: 0x'' @ hex4 msg_type)))
        else do {
          msg_len \<leftarrow> read16 data 2;
          if length data < 20 + unat msg_len then Some (Inl (InvalidResponse ''Message truncated''))
          else do {
            cookie \<leftarrow> read32 data 4;
            if cookie \<noteq> MAGIC_COOKIE then Some (Inl (InvalidResponse ''Invalid magic cookie''))
            else do {
              txn \<leftarrow> byte_range data 8 20;
              if txn \<noteq> expected_txn_id then Some (Inl (InvalidResponse ''Transaction ID mismatch''))
              else parse_attributes data expected_txn_id (20 + unat msg_len) 20 None
            }
          }
        }
      })"

section \<open>Client and responder\<close>

record stun_client =
  sc_servers :: "socket_addr list"
  sc_timeout :: u64

definition with_servers :: "socket_addr list \<Rightarrow> (stun_error, stun_client) result" where
  "with_servers servers =
     (if servers = [] then Inl NoServers else Inr \<lparr>sc_servers = servers, sc_timeout = 3\<rparr>)"

definition with_timeout :: "stun_client \<Rightarrow> u64 \<Rightarrow> stun_client" where
  "with_timeout c t = c\<lparr>sc_timeout := t\<rparr>"

text \<open>What comes back after a request was sent: nothing before the timeout, an error of the socket,
  or a datagram, of which the buffer keeps 548 bytes. The sender of the datagram is not looked at.
  The exchange takes the timeout, the server and the request.\<close>

datatype received = NoAnswer | SocketError | Datagram bytes

definition query_server ::
  "stun_client \<Rightarrow> bytes \<Rightarrow> (u64 \<Rightarrow> socket_addr \<Rightarrow> bytes \<Rightarrow> received) \<Rightarrow> socket_addr \<Rightarrow>
   (stun_error, socket_addr) result option" where
  "query_server c transaction_id exchange server =
     (case exchange (sc_timeout c) server (build_binding_request transaction_id) of
        SocketError \<Rightarrow> Some (Inl Io)
      | NoAnswer \<Rightarrow> Some (Inl Timeout)
      | Datagram d \<Rightarrow> parse_binding_response (take 548 d) transaction_id)"

text \<open>The loop over the servers. The random transaction ids and the exchanges are functions of the
  number of the attempt, since a server may be listed twice and answer differently.\<close>

fun query_servers ::
  "stun_client \<Rightarrow> (nat \<Rightarrow> bytes) \<Rightarrow> (nat \<Rightarrow> u64 \<Rightarrow> socket_addr \<Rightarrow> bytes \<Rightarrow> received) \<Rightarrow> nat \<Rightarrow>
   socket_addr list \<Rightarrow> (stun_error, socket_addr) result option" where
  "query_servers c ids net n [] = Some (Inl AllServersFailed)"
| "query_servers c ids net n (server # servers) =
     do {
       r \<leftarrow> query_server c (ids n) (net n) server;
       case r of
         Inr endpoint \<Rightarrow> Some (Inr endpoint)
       | Inl _ \<Rightarrow> query_servers c ids net (Suc n) servers
     }"

definition discover_endpoint ::
  "stun_client \<Rightarrow> (nat \<Rightarrow> bytes) \<Rightarrow> (nat \<Rightarrow> u64 \<Rightarrow> socket_addr \<Rightarrow> bytes \<Rightarrow> received) \<Rightarrow>
   (stun_error, socket_addr) result option" where
  "discover_endpoint c ids net = query_servers c ids net 0 (sc_servers c)"

text \<open>One turn of the responder's loop: the datagram it sends back, if any.\<close>

definition serve_stun :: "bytes \<Rightarrow> socket_addr \<Rightarrow> bytes option option" where
  "serve_stun datagram remote =
     do {
       r \<leftarrow> handle_packet (take 1500 datagram) remote;
       Some (case r of Inr (Some response) \<Rightarrow> Some response | _ \<Rightarrow> None)
     }"

section \<open>Reading what was written\<close>

named_theorems layout \<open>reads of a message that is a concatenation\<close>

lemma read16_in [in_range]: "i + 1 < length d \<Longrightarrow> read16 d i = Some (from_be16 (d ! i) (d ! (i + 1)))"
  by (simp add: read16_def idx_in)

lemma read32_in [in_range]:
  "i + 3 < length d \<Longrightarrow>
   read32 d i = Some (from_be32 (d ! i) (d ! (i + 1)) (d ! (i + 2)) (d ! (i + 3)))"
  by (simp add: read32_def idx_in)

lemma length_be [simp]: "length (to_be16 w) = 2" "length (to_be32 v) = 4"
  by (simp_all add: to_be16_def to_be32_def)

lemma from_to_be16 [simp]: "from_be16 (ucast (drop_bit 8 w)) (ucast w) = w"
  unfolding from_be16_def by (rule bit_word_eqI) (auto simp: bit_simps)

lemma from_to_be32 [simp]:
  "from_be32 (ucast (drop_bit 24 w)) (ucast (drop_bit 16 w)) (ucast (drop_bit 8 w)) (ucast w) = w"
  (is "?l = w")
proof (rule bit_word_eqI)
  fix n assume "n < LENGTH(32)"
  then consider "n < 8" | "8 \<le> n" "n < 16" | "16 \<le> n" "n < 24" | "24 \<le> n" "n < 32"
    by fastforce
  then show "bit ?l n = bit w n"
    by cases (auto simp: from_be32_def bit_or_iff bit_push_bit_iff bit_unsigned_iff bit_drop_bit_eq)
qed

lemma from_be32_nth [simp]:
  "from_be32 (to_be32 w ! 0) (to_be32 w ! Suc 0) (to_be32 w ! 2) (to_be32 w ! 3) = w"
  by (simp add: to_be32_def)

lemma bit_u8_high: "8 \<le> n \<Longrightarrow> \<not> bit (b :: u8) n"
  using bit_imp_le_length [of b n] by auto

lemma to_from_be32 [simp]: "to_be32 (from_be32 a b c d) = [a, b, c, d]"
  unfolding to_be32_def from_be32_def
  by (auto intro!: bit_word_eqI simp: bit_simps bit_u8_high)

lemma xor_port_involution [simp]: "xor_port (xor_port p) = p"
  by (simp add: xor_port_def xor.assoc)

lemma length_xor_bytes [simp]: "length (xor_bytes a b) = min (length a) (length b)"
  by (simp add: xor_bytes_def)

lemma xor_bytes_involution: "length a \<le> length b \<Longrightarrow> xor_bytes (xor_bytes a b) b = a"
  by (rule nth_equalityI) (auto simp: xor_bytes_def xor.assoc)

lemma unat_clear_low_two: "unat (x AND NOT 3 :: u64) = 4 * (unat x div 4)"
proof -
  have low: "x AND 3 = x mod 4"
    using take_bit_eq_mask [of 2 x] take_bit_eq_mod [of 2 x] by (simp add: mask_eq_exp_minus_1)
  have "x AND NOT 3 = x - (x AND 3)"
  proof -
    have "x - (x AND 3) = x AND NOT (x AND 3)"
      by (rule disjunctive_diff_eq_and_not) (auto simp: bit_eq_iff bit_simps)
    also have "\<dots> = x AND NOT 3" by (rule bit_word_eqI) (auto simp: bit_simps)
    finally show ?thesis by simp
  qed
  then have "unat (x AND NOT 3) = unat x - unat x mod 4"
    by (simp add: low unat_sub word_le_nat_alt unat_mod)
  then show ?thesis by (simp add: minus_mod_eq_mult_div)
qed

lemma padded_len_eq: "padded_len len = 4 * ((unat len + 3) div 4)"
proof -
  have small: "unat len < 65536" using unsigned_less [where w = len and ?'a = nat] by simp
  have u: "unat (ucast len :: u64) = unat len"
    using small by (simp add: unsigned_ucast_eq take_bit_nat_eq_self_iff)
  have "unat (ucast len + 3 :: u64) = unat len + 3"
    using small u by (subst unat_add_lem [THEN iffD1]) simp_all
  then show ?thesis by (simp only: padded_len_def unat_clear_low_two)
qed

lemma read16_skip [layout]: "length xs \<le> i \<Longrightarrow> read16 (xs @ ys) i = read16 ys (i - length xs)"
  by (auto simp: read16_def idx_def nth_append Suc_diff_le)

lemma read32_skip [layout]: "length xs \<le> i \<Longrightarrow> read32 (xs @ ys) i = read32 ys (i - length xs)"
  by (auto simp: read32_def idx_def nth_append Suc_diff_le)

lemma byte_range_skip [layout]:
  "length xs \<le> a \<Longrightarrow> byte_range (xs @ ys) a b = (if a \<le> b then byte_range ys (a - length xs) (b - length xs) else None)"
  by (auto simp: byte_range_def)

lemma byte_range_front [layout]: "b = length xs \<Longrightarrow> byte_range (xs @ ys) 0 b = Some xs"
  by (simp add: byte_range_def)

lemma read16_front [layout]: "read16 (to_be16 w @ ys) 0 = Some w"
  by (simp add: read16_def idx_def to_be16_def)

lemma read32_front [layout]: "read32 (to_be32 w @ ys) 0 = Some w"
  by (simp add: read32_def idx_def to_be32_def)

lemma length_encoded:
  "length txn = 12 \<Longrightarrow> wf_ip ip \<Longrightarrow>
   length (encode_xor_mapped_address txn (ip, p)) = (if is_ipv4 ip then 8 else 20)"
  by (cases ip) auto

lemma parse_encoded_xor:
  assumes "length txn = 12" "wf_ip ip"
  shows "parse_xor_mapped_address (encode_xor_mapped_address txn (ip, p)) txn = Some (Inr (ip, p))"
proof (cases ip)
  case (V4 os)
  with assms obtain a b c d where "os = [a, b, c, d]"
    by (auto simp: length_Suc_conv numeral_eq_Suc)
  then show ?thesis
    by (simp add: V4 parse_xor_mapped_address_def idx_def read16_def read32_def to_be16_def
        v4_to_u32_def STUN_FAMILY_IPV4_def xor.assoc)
next
  case (V6 os)
  with assms have "length os = 16" by simp
  then show ?thesis using assms
    by (simp add: V6 parse_xor_mapped_address_def idx_def byte_range_def read16_def to_be16_def
        STUN_FAMILY_IPV6_def xor_bytes_involution)
qed

lemma parse_encoded_response:
  assumes "length txn = 12" "wf_ip ip"
  shows "parse_binding_response (encode_binding_response txn (ip, port) @ junk) txn = Some (Inr (ip, port))"
  using length_encoded [OF assms, of port] assms
  by (cases "is_ipv4 ip")
    (auto simp: parse_binding_response_def encode_binding_response_def Let_def layout
      parse_attributes.simps padded_len_eq parse_encoded_xor)

text \<open>C6. A client that asks a responder learns its own address: for every transaction id and every
  address, the responder answers the client's request, with any trailing bytes, by a response from
  which the client, again with any trailing bytes, reads exactly the address the responder saw.\<close>

theorem binding_round_trip:
  assumes "length txn = 12" "wf_ip ip"
  shows "\<exists>response.
      handle_packet (build_binding_request txn @ junk) (ip, port) = Some (Inr (Some response)) \<and>
      parse_binding_response (response @ junk') txn = Some (Inr (ip, port))"
proof -
  have "decode_binding_request (build_binding_request txn @ junk) = Some (Inr txn)"
    using assms by (simp add: decode_binding_request_def build_binding_request_def layout)
  then show ?thesis using parse_encoded_response [OF assms] by (simp add: handle_packet_def)
qed

theorem binding_round_trip_witness:
  "\<exists>response.
     handle_packet (build_binding_request (replicate 12 7) @ []) (V4 [192, 0, 2, 1], 41641) =
       Some (Inr (Some response)) \<and>
     parse_binding_response (response @ [1, 2]) (replicate 12 7) = Some (Inr (V4 [192, 0, 2, 1], 41641))"
  by (rule binding_round_trip) simp_all

section \<open>Arbitrary datagrams\<close>

lemma parse_mapped_total: "\<exists>r. parse_mapped_address d = Some r"
  by (auto simp: parse_mapped_address_def in_range)

lemma parse_xor_mapped_total: "\<exists>r. parse_xor_mapped_address d txn = Some r"
  by (auto simp: parse_xor_mapped_address_def in_range)

lemma padded_len_ge: "unat len \<le> padded_len len"
  unfolding padded_len_eq by presburger

lemma parse_attributes_total:
  "message_end \<le> length d \<Longrightarrow> \<exists>r. parse_attributes d txn message_end offset fallback = Some r"
proof (induction d txn message_end offset fallback rule: parse_attributes.induct)
  case (1 d txn message_end offset fallback)
  show ?case
  proof (cases "offset < message_end \<and> offset + 4 \<le> message_end")
    case False
    then show ?thesis by (subst parse_attributes.simps) auto
  next
    case True
    let ?t = "from_be16 (d ! offset) (d ! (offset + 1))"
    let ?len = "from_be16 (d ! (offset + 2)) (d ! (offset + 3))"
    let ?start = "offset + 4"
    let ?next = "?start + padded_len ?len"
    have reads: "read16 d offset = Some ?t" "read16 d (offset + 2) = Some ?len"
      using True 1(3) by (simp_all add: in_range numeral_eq_Suc)
    show ?thesis
    proof (cases "?next > message_end")
      case True
      then show ?thesis using reads \<open>offset < message_end \<and> _\<close>
        by (subst parse_attributes.simps) (simp add: Let_def)
    next
      case fits: False
      let ?a = "take (unat ?len) (drop ?start d)"
      have body: "byte_range d ?start (?start + unat ?len) = Some ?a"
        using fits 1(3) padded_len_ge [of ?len] by (simp add: in_range)
      obtain r where r: "parse_mapped_address ?a = Some r" using parse_mapped_total by blast
      obtain x where x: "parse_xor_mapped_address ?a txn = Some x" using parse_xor_mapped_total by blast
      have again: "\<exists>r. parse_attributes d txn message_end ?next (Some addr) = Some r"
        if "?t = ATTR_MAPPED_ADDRESS" "r = Inr addr" for addr
        using 1(1) [OF _ _ reads(1) reads(2) refl refl refl _ body _ _ r] that True fits 1(3)
        by (simp add: ATTR_MAPPED_ADDRESS_def ATTR_XOR_MAPPED_ADDRESS_def ATTR_XOR_MAPPED_ADDRESS_ALT_def)
      have skip: "\<exists>r. parse_attributes d txn message_end ?next fallback = Some r"
        if "?t \<noteq> ATTR_MAPPED_ADDRESS" "?t \<noteq> ATTR_XOR_MAPPED_ADDRESS" "?t \<noteq> ATTR_XOR_MAPPED_ADDRESS_ALT"
        using 1(2) [OF _ _ reads(1) reads(2) refl refl refl _ body] that True fits 1(3) by simp
      show ?thesis using True fits reads body r x again skip
        by (subst parse_attributes.simps) (auto simp: Let_def split: sum.splits)
    qed
  qed
qed

text \<open>C18. No datagram makes the codec read outside its buffer: the parser of responses, which loops
  over attributes whose lengths the datagram declares, always ends with a value or an error, and so
  does the responder.\<close>

theorem stun_never_panics:
  "(\<exists>r. parse_binding_response d txn = Some r) \<and> (\<exists>answer. serve_stun d remote = Some answer)"
proof
  show "\<exists>r. parse_binding_response d txn = Some r"
    by (auto simp: parse_binding_response_def in_range parse_attributes_total)
  have "\<exists>r. decode_binding_request e = Some r" for e
    by (auto simp: decode_binding_request_def in_range)
  then obtain r where "decode_binding_request (take 1500 d) = Some r" by blast
  then show "\<exists>answer. serve_stun d remote = Some answer"
    by (simp add: serve_stun_def handle_packet_def)
qed

lemma parse_mapped_wf: "parse_mapped_address d = Some (Inr (ip, p)) \<Longrightarrow> wf_ip ip"
  by (auto simp: parse_mapped_address_def in_range split: if_splits)

lemma parse_xor_mapped_wf:
  "length txn = 12 \<Longrightarrow> parse_xor_mapped_address d txn = Some (Inr (ip, p)) \<Longrightarrow> wf_ip ip"
  by (auto simp: parse_xor_mapped_address_def in_range split: if_splits)

lemma parse_attributes_step:
  assumes "parse_attributes d txn m n f = Some (Inr a)"
  shows "f = Some a \<or> (\<exists>b. parse_xor_mapped_address b txn = Some (Inr a)) \<or>
    (\<exists>n' f'. n < m \<and> n < n' \<and> parse_attributes d txn m n' f' = Some (Inr a) \<and>
       (f' = f \<or> (\<exists>b a'. f' = Some a' \<and> parse_mapped_address b = Some (Inr a'))))"
proof -
  have later: "n < n + 4 + k" for k :: nat by simp
  show ?thesis
    using assms unfolding parse_attributes.simps [of d txn m n f] Let_def
    by (auto split: if_splits option.splits bind_splits sum.splits) (use later in blast)+
qed

lemma parse_attributes_wf:
  "parse_attributes d txn m n f = Some (Inr a) \<Longrightarrow> length txn = 12 \<Longrightarrow>
   pred_option (\<lambda>a. wf_ip (fst a)) f \<Longrightarrow> wf_ip (fst a)"
proof (induction "m - n" arbitrary: n f rule: less_induct)
  case less
  from parse_attributes_step [OF less(2)]
  consider "f = Some a" | b where "parse_xor_mapped_address b txn = Some (Inr a)"
    | n' f' where "n < m" "n < n'" "parse_attributes d txn m n' f' = Some (Inr a)"
        "f' = f \<or> (\<exists>b a'. f' = Some a' \<and> parse_mapped_address b = Some (Inr a'))"
    by blast
  then show ?case
  proof cases
    case 1
    with less(4) show ?thesis by simp
  next
    case 2
    with less(3) show ?thesis by (metis parse_xor_mapped_wf surjective_pairing)
  next
    case 3
    then have "pred_option (\<lambda>a. wf_ip (fst a)) f'"
      using less(4) parse_mapped_wf by fastforce
    with 3 show ?thesis by (intro less(1) [OF _ 3(3) less(3)]) auto
  qed
qed

text \<open>C32. A response is believed only when it is a binding response with the magic cookie and the
  transaction id the client sent, and the address read from it is then a well-formed one.\<close>

theorem response_matches_request:
  assumes "length txn = 12" "parse_binding_response d txn = Some (Inr (ip, port))"
  shows "read16 d 0 = Some STUN_BINDING_RESPONSE \<and> read32 d 4 = Some MAGIC_COOKIE \<and>
         byte_range d 8 20 = Some txn \<and> wf_ip ip"
  using assms parse_attributes_wf [of d txn _ 20 None "(ip, port)"]
  by (auto simp: parse_binding_response_def split: if_splits bind_splits)

theorem response_matches_request_witness:
  "read16 (encode_binding_response (replicate 12 7) (V4 [192, 0, 2, 1], 41641) @ []) 0 =
     Some STUN_BINDING_RESPONSE \<and>
   read32 (encode_binding_response (replicate 12 7) (V4 [192, 0, 2, 1], 41641) @ []) 4 =
     Some MAGIC_COOKIE \<and>
   byte_range (encode_binding_response (replicate 12 7) (V4 [192, 0, 2, 1], 41641) @ []) 8 20 =
     Some (replicate 12 7) \<and>
   wf_ip (V4 [192, 0, 2, 1])"
  by (rule response_matches_request [OF _ parse_encoded_response]) simp_all

lemma query_servers_first:
  "query_servers c ids net n servers = Some (Inr e) \<longleftrightarrow>
   (\<exists>k < length servers. query_server c (ids (n + k)) (net (n + k)) (servers ! k) = Some (Inr e) \<and>
      (\<forall>j < k. \<exists>err. query_server c (ids (n + j)) (net (n + j)) (servers ! j) = Some (Inl err)))"
proof (induction servers arbitrary: n)
  case Nil
  then show ?case by simp
next
  case (Cons s servers)
  show ?case
    by (auto simp: Cons.IH Ex_less_Suc2 All_less_Suc2 split: bind_splits sum.splits)
qed

text \<open>The client returns the endpoint read from the first server, in the configured order, whose
  answer is valid: the servers before it timed out, failed or answered badly, and the ones after it
  do not matter.\<close>

theorem discover_first_answer:
  "discover_endpoint c ids net = Some (Inr e) \<longleftrightarrow>
   (\<exists>k < length (sc_servers c).
      query_server c (ids k) (net k) (sc_servers c ! k) = Some (Inr e) \<and>
      (\<forall>j < k. \<exists>err. query_server c (ids j) (net j) (sc_servers c ! j) = Some (Inl err)))"
  by (simp add: discover_endpoint_def query_servers_first)

theorem discover_first_answer_witness:
  "discover_endpoint
     \<lparr>sc_servers = [(V4 [192, 0, 2, 8], 3478), (V4 [192, 0, 2, 9], 3478)], sc_timeout = 3\<rparr>
     (\<lambda>n. replicate 12 (of_nat n))
     (\<lambda>n t server request. if n = 0 then NoAnswer
        else Datagram (encode_binding_response (replicate 12 (of_nat n)) (V4 [203, 0, 113, 5], 41641)))
   = Some (Inr (V4 [203, 0, 113, 5], 41641))"
  unfolding discover_first_answer
  using parse_encoded_response [of "replicate 12 1" "V4 [203, 0, 113, 5]" 41641 "[]"]
  by (intro exI [of _ 1]) (simp add: query_server_def encode_binding_response_def)

end
