(* ===== verification/Tunnels.thy ===== *)
theory Tunnels
  imports Routing_Table "HOL-Library.Monad_Syntax"
begin

text \<open>
  The WireGuard tunnels of \<open>headscale-core/src/tunnel.rs\<close> and their manager, which keeps the
  tunnels, the map of public keys and the routing table together. The \<open>boringtun\<close> state machine of
  one tunnel is a type \<open>'w\<close> with a record of operations; so is the network type of the routing
  table. The clock reading of an operation is its argument \<open>now\<close>. Broadcast events are appended to
  a list; a broadcast without receivers is ignored by the code.
  The theorems: every route of a reachable manager belongs to a peer with a tunnel and every allowed
  prefix of a tunnel has an approved route; a timer round ends when the timers of each tunnel do;
  adding a peer again keeps what its first registration left behind.
\<close>

section \<open>Tunnels\<close>

datatype tunn_result =
    TunnDone
  | TunnErr string
  | WriteToNetwork bytes
  | WriteToTunnelV4 bytes "u8 list"
  | WriteToTunnelV6 bytes "u8 list"

text \<open>The operations of \<open>boringtun\<close> that the code calls. Each takes the time and the length of the
  output buffer; the error of a result is its debug text.\<close>

record 'w tunn_ops =
  tunn_new :: "bytes \<Rightarrow> bytes \<Rightarrow> u16 option \<Rightarrow> u32 \<Rightarrow> 'w"
  tunn_encapsulate :: "nat \<Rightarrow> 'w \<Rightarrow> bytes \<Rightarrow> nat \<Rightarrow> tunn_result \<times> 'w"
  tunn_decapsulate :: "nat \<Rightarrow> 'w \<Rightarrow> ip_addr option \<Rightarrow> bytes \<Rightarrow> nat \<Rightarrow> tunn_result \<times> 'w"
  tunn_handshake :: "nat \<Rightarrow> 'w \<Rightarrow> nat \<Rightarrow> tunn_result \<times> 'w"
  tunn_update_timers :: "nat \<Rightarrow> 'w \<Rightarrow> nat \<Rightarrow> tunn_result \<times> 'w"
  tunn_is_expired :: "'w \<Rightarrow> bool"

definition PACKET_BUFFER_SIZE :: nat where
  "PACKET_BUFFER_SIZE = 2048"

datatype tunnel_state = Disconnected | Connecting | Connected | Failed

record tunnel_stats =
  tx_bytes :: u64
  rx_bytes :: u64
  tx_packets :: u64
  rx_packets :: u64
  last_handshake :: "nat option"
  last_rx :: "nat option"
  last_tx :: "nat option"

definition stats_default :: tunnel_stats where
  "stats_default = \<lparr>tx_bytes = 0, rx_bytes = 0, tx_packets = 0, rx_packets = 0,
     last_handshake = None, last_rx = None, last_tx = None\<rparr>"

record ('n, 'w) tunnel =
  tn_tunn :: 'w
  tn_peer_id :: string
  tn_public_key :: bytes
  tn_endpoint :: "socket_addr option"
  tn_allowed_ips :: "'n list"
  tn_state :: tunnel_state
  tn_stats :: tunnel_stats
  tn_keepalive :: "u16 option"

definition tunnel_new ::
  "'w tunn_ops \<Rightarrow> bytes \<Rightarrow> string \<Rightarrow> bytes \<Rightarrow> u32 \<Rightarrow> u16 option \<Rightarrow> ('n, 'w) tunnel" where
  "tunnel_new tops secret peer_id peer_public_key index keepalive =
     \<lparr>tn_tunn = tunn_new tops secret peer_public_key keepalive index, tn_peer_id = peer_id,
      tn_public_key = peer_public_key, tn_endpoint = None, tn_allowed_ips = [],
      tn_state = Disconnected, tn_stats = stats_default, tn_keepalive = keepalive\<rparr>"

definition set_endpoint :: "socket_addr \<Rightarrow> ('n, 'w) tunnel \<Rightarrow> ('n, 'w) tunnel" where
  "set_endpoint endpoint t = t\<lparr>tn_endpoint := Some endpoint\<rparr>"

definition add_allowed_ip :: "'n \<Rightarrow> ('n, 'w) tunnel \<Rightarrow> ('n, 'w) tunnel" where
  "add_allowed_ip prefix t =
     (if prefix \<in> set (tn_allowed_ips t) then t
      else t\<lparr>tn_allowed_ips := tn_allowed_ips t @ [prefix]\<rparr>)"

text \<open>\<open>None\<close> is the panic of \<open>host_route\<close>.\<close>

definition add_allowed_host :: "'n ipnet_ops \<Rightarrow> ip_addr \<Rightarrow> ('n, 'w) tunnel \<Rightarrow> ('n, 'w) tunnel option" where
  "add_allowed_host ops ip t =
     do { prefix \<leftarrow> host_route ops ip; Some (add_allowed_ip prefix t) }"

definition encapsulate ::
  "'w tunn_ops \<Rightarrow> nat \<Rightarrow> bytes \<Rightarrow> nat \<Rightarrow> ('n, 'w) tunnel \<Rightarrow> tunn_result \<times> ('n, 'w) tunnel" where
  "encapsulate tops now src cap t =
     (let (result, w) = tunn_encapsulate tops now (tn_tunn t) src cap;
          t = t\<lparr>tn_tunn := w\<rparr>;
          s = tn_stats t
      in (result,
          case result of
            WriteToNetwork _ \<Rightarrow>
              t\<lparr>tn_stats := s\<lparr>tx_packets := tx_packets s + 1,
                  tx_bytes := tx_bytes s + of_nat (length src), last_tx := Some now\<rparr>,
                tn_state := if tn_state t = Disconnected then Connecting else tn_state t\<rparr>
          | TunnErr _ \<Rightarrow> t\<lparr>tn_state := Failed\<rparr>
          | _ \<Rightarrow> t))"

definition count_received :: "nat \<Rightarrow> ('n, 'w) tunnel \<Rightarrow> ('n, 'w) tunnel" where
  "count_received now t =
     (let t = t\<lparr>tn_stats := (tn_stats t)\<lparr>rx_packets := rx_packets (tn_stats t) + 1, last_rx := Some now\<rparr>\<rparr>
      in if tn_state t \<noteq> Connected
         then t\<lparr>tn_state := Connected, tn_stats := (tn_stats t)\<lparr>last_handshake := Some now\<rparr>\<rparr>
         else t)"

definition decapsulate ::
  "'w tunn_ops \<Rightarrow> nat \<Rightarrow> ip_addr option \<Rightarrow> bytes \<Rightarrow> nat \<Rightarrow> ('n, 'w) tunnel \<Rightarrow>
   tunn_result \<times> ('n, 'w) tunnel" where
  "decapsulate tops now src_addr datagram cap t =
     (let (result, w) = tunn_decapsulate tops now (tn_tunn t) src_addr datagram cap;
          t = t\<lparr>tn_tunn := w\<rparr>
      in (result,
          case result of
            WriteToTunnelV4 _ _ \<Rightarrow> count_received now t
          | WriteToTunnelV6 _ _ \<Rightarrow> count_received now t
          | WriteToNetwork _ \<Rightarrow>
              t\<lparr>tn_stats := (tn_stats t)\<lparr>tx_packets := tx_packets (tn_stats t) + 1, last_tx := Some now\<rparr>\<rparr>
          | TunnDone \<Rightarrow> t
          | TunnErr _ \<Rightarrow> t))"

definition initiate_handshake ::
  "'w tunn_ops \<Rightarrow> nat \<Rightarrow> nat \<Rightarrow> ('n, 'w) tunnel \<Rightarrow> tunn_result \<times> ('n, 'w) tunnel" where
  "initiate_handshake tops now cap t =
     (let (result, w) = tunn_handshake tops now (tn_tunn t) cap
      in (result, t\<lparr>tn_state := Connecting, tn_tunn := w\<rparr>))"

definition update_timers ::
  "'w tunn_ops \<Rightarrow> nat \<Rightarrow> nat \<Rightarrow> ('n, 'w) tunnel \<Rightarrow> tunn_result \<times> ('n, 'w) tunnel" where
  "update_timers tops now cap t =
     (let (result, w) = tunn_update_timers tops now (tn_tunn t) cap in (result, t\<lparr>tn_tunn := w\<rparr>))"

section \<open>The manager\<close>

datatype tunnel_event =
    TunnelCreated string
  | StateChanged string tunnel_state tunnel_state
  | TunnelRemoved string
  | HandshakeComplete string
  | EndpointChanged string socket_addr

datatype 'n tunnel_error =
    Creation string
  | PeerNotFound string
  | RouteNotFound string 'n
  | TunnelNoEndpoint string
  | UnknownPacket
  | Handshake string
  | TunnelIo

record ('n, 'w) tunnel_manager =
  tm_secret :: bytes
  tm_tunnels :: "string \<rightharpoonup> ('n, 'w) tunnel"
  tm_pubkey_to_peer :: "bytes \<rightharpoonup> string"
  tm_routing :: "'n routing_table"
  tm_next_index :: u32
  tm_events :: "tunnel_event list"
  tm_listen_port :: u16

definition tm_new :: "bytes \<Rightarrow> u16 \<Rightarrow> ('n, 'w) tunnel_manager" where
  "tm_new secret port =
     \<lparr>tm_secret = secret, tm_tunnels = Map.empty, tm_pubkey_to_peer = Map.empty, tm_routing = rt_new,
      tm_next_index = 1, tm_events = [], tm_listen_port = port\<rparr>"

definition emit :: "tunnel_event \<Rightarrow> ('n, 'w) tunnel_manager \<Rightarrow> ('n, 'w) tunnel_manager" where
  "emit e m = m\<lparr>tm_events := tm_events m @ [e]\<rparr>"

definition direct_route :: "string \<Rightarrow> 'n \<Rightarrow> 'n route" where
  "direct_route peer_id prefix = \<lparr>rt_prefix = prefix, rt_peer_id = peer_id, rt_priority = 0,
     rt_approved = True, rt_advertised = False\<rparr>"

definition add_peer ::
  "'n ipnet_ops \<Rightarrow> 'w tunn_ops \<Rightarrow> string \<Rightarrow> bytes \<Rightarrow> socket_addr option \<Rightarrow> 'n list \<Rightarrow> u16 option \<Rightarrow>
   ('n, 'w) tunnel_manager \<Rightarrow> ('n, 'w) tunnel_manager" where
  "add_peer ops tops peer_id peer_public_key endpoint allowed_ips keepalive m =
     (let index = tm_next_index m;
          tunnel = tunnel_new tops (tm_secret m) peer_id peer_public_key index keepalive;
          tunnel = fold add_allowed_ip allowed_ips (tunnel\<lparr>tn_endpoint := endpoint\<rparr>)
      in emit (TunnelCreated peer_id)
           (m\<lparr>tm_next_index := index + 1,
              tm_tunnels := (tm_tunnels m)(peer_id \<mapsto> tunnel),
              tm_pubkey_to_peer := (tm_pubkey_to_peer m)(peer_public_key \<mapsto> peer_id),
              tm_routing := fold (\<lambda>prefix. add_route ops (direct_route peer_id prefix)) allowed_ips
                (tm_routing m)\<rparr>))"

definition add_peer_with_ips ::
  "'n ipnet_ops \<Rightarrow> 'w tunn_ops \<Rightarrow> string \<Rightarrow> bytes \<Rightarrow> socket_addr option \<Rightarrow> ip_addr list \<Rightarrow>
   u16 option \<Rightarrow> ('n, 'w) tunnel_manager \<Rightarrow> ('n, 'w) tunnel_manager option" where
  "add_peer_with_ips ops tops peer_id peer_public_key endpoint ips keepalive m =
     do {
       allowed_ips \<leftarrow> those (map (host_route ops) ips);
       Some (add_peer ops tops peer_id peer_public_key endpoint allowed_ips keepalive m)
     }"

definition remove_peer ::
  "'n ipnet_ops \<Rightarrow> string \<Rightarrow> ('n, 'w) tunnel_manager \<Rightarrow>
   ('n tunnel_error, unit) result \<times> ('n, 'w) tunnel_manager" where
  "remove_peer ops peer_id m =
     (case tm_tunnels m peer_id of
        Some tunnel \<Rightarrow>
          (Inr (), emit (TunnelRemoved peer_id)
             (m\<lparr>tm_tunnels := (tm_tunnels m)(peer_id := None),
                tm_pubkey_to_peer := (tm_pubkey_to_peer m)(tn_public_key tunnel := None),
                tm_routing := remove_peer_routes ops peer_id (tm_routing m)\<rparr>))
      | None \<Rightarrow> (Inl (PeerNotFound peer_id), m))"

definition update_endpoint ::
  "string \<Rightarrow> socket_addr \<Rightarrow> ('n, 'w) tunnel_manager \<Rightarrow>
   ('n tunnel_error, unit) result \<times> ('n, 'w) tunnel_manager" where
  "update_endpoint peer_id endpoint m =
     (case tm_tunnels m peer_id of
        None \<Rightarrow> (Inl (PeerNotFound peer_id), m)
      | Some tunnel \<Rightarrow>
          (Inr (), emit (EndpointChanged peer_id endpoint)
             (m\<lparr>tm_tunnels := (tm_tunnels m)(peer_id \<mapsto> set_endpoint endpoint tunnel)\<rparr>)))"

definition get_state :: "('n, 'w) tunnel_manager \<Rightarrow> string \<Rightarrow> tunnel_state option" where
  "get_state m peer_id = map_option tn_state (tm_tunnels m peer_id)"

definition get_stats :: "('n, 'w) tunnel_manager \<Rightarrow> string \<Rightarrow> tunnel_stats option" where
  "get_stats m peer_id = map_option tn_stats (tm_tunnels m peer_id)"

definition route_by_ip :: "'n ipnet_ops \<Rightarrow> ('n, 'w) tunnel_manager \<Rightarrow> ip_addr \<Rightarrow> string option" where
  "route_by_ip ops m dst_ip = lookup ops (tm_routing m) dst_ip"

definition peer_allows_ip ::
  "'n ipnet_ops \<Rightarrow> ('n, 'w) tunnel_manager \<Rightarrow> string \<Rightarrow> ip_addr \<Rightarrow> ('n tunnel_error, bool) result" where
  "peer_allows_ip ops m peer_id ip =
     (case tm_tunnels m peer_id of
        None \<Rightarrow> Inl (PeerNotFound peer_id)
      | Some tunnel \<Rightarrow> Inr (\<exists>prefix \<in> set (tn_allowed_ips tunnel). net_contains ops prefix ip))"

text \<open>The check that the peer exists and the update of the table run under different locks, so
  they are separate definitions that the sequential operations compose.\<close>

definition check_peer :: "string \<Rightarrow> ('n, 'w) tunnel_manager \<Rightarrow> ('n tunnel_error, unit) result" where
  "check_peer peer_id m = (if tm_tunnels m peer_id = None then Inl (PeerNotFound peer_id) else Inr ())"

definition add_advertised ::
  "'n ipnet_ops \<Rightarrow> string \<Rightarrow> 'n \<Rightarrow> bool \<Rightarrow> ('n, 'w) tunnel_manager \<Rightarrow> ('n, 'w) tunnel_manager" where
  "add_advertised ops peer_id prefix approved m =
     m\<lparr>tm_routing := add_route ops \<lparr>rt_prefix = prefix, rt_peer_id = peer_id, rt_priority = 100,
         rt_approved = approved, rt_advertised = True\<rparr> (tm_routing m)\<rparr>"

definition advertise_route ::
  "'n ipnet_ops \<Rightarrow> string \<Rightarrow> 'n \<Rightarrow> bool \<Rightarrow> ('n, 'w) tunnel_manager \<Rightarrow>
   ('n tunnel_error, unit) result \<times> ('n, 'w) tunnel_manager" where
  "advertise_route ops peer_id prefix approved m =
     (case check_peer peer_id m of
        Inl e \<Rightarrow> (Inl e, m)
      | Inr _ \<Rightarrow> (Inr (), add_advertised ops peer_id prefix approved m))"

definition tm_set_route_approved ::
  "'n ipnet_ops \<Rightarrow> string \<Rightarrow> 'n \<Rightarrow> bool \<Rightarrow> ('n, 'w) tunnel_manager \<Rightarrow>
   ('n tunnel_error, unit) result \<times> ('n, 'w) tunnel_manager" where
  "tm_set_route_approved ops peer_id prefix approved m =
     (case check_peer peer_id m of
        Inl e \<Rightarrow> (Inl e, m)
      | Inr _ \<Rightarrow>
          (let (routing, found) = set_route_approved ops prefix peer_id approved (tm_routing m)
           in (if found then Inr () else Inl (RouteNotFound peer_id prefix), m\<lparr>tm_routing := routing\<rparr>)))"

definition peer_by_pubkey :: "('n, 'w) tunnel_manager \<Rightarrow> bytes \<Rightarrow> string option" where
  "peer_by_pubkey m pubkey = tm_pubkey_to_peer m pubkey"

definition encapsulate_for_peer ::
  "'w tunn_ops \<Rightarrow> nat \<Rightarrow> string \<Rightarrow> bytes \<Rightarrow> nat \<Rightarrow> ('n, 'w) tunnel_manager \<Rightarrow>
   ('n tunnel_error, tunn_result \<times> socket_addr option) result \<times> ('n, 'w) tunnel_manager" where
  "encapsulate_for_peer tops now peer_id src cap m =
     (case tm_tunnels m peer_id of
        None \<Rightarrow> (Inl (PeerNotFound peer_id), m)
      | Some tunnel \<Rightarrow>
          (let (result, t) = encapsulate tops now src cap tunnel
           in (Inr (result, tn_endpoint tunnel), m\<lparr>tm_tunnels := (tm_tunnels m)(peer_id \<mapsto> t)\<rparr>)))"

fun carries_data :: "tunn_result \<Rightarrow> bool" where
  "carries_data (WriteToTunnelV4 _ _) = True"
| "carries_data (WriteToTunnelV6 _ _) = True"
| "carries_data (WriteToNetwork _) = True"
| "carries_data _ = False"

definition decapsulate_for_peer ::
  "'w tunn_ops \<Rightarrow> nat \<Rightarrow> string \<Rightarrow> socket_addr \<Rightarrow> bytes \<Rightarrow> nat \<Rightarrow> ('n, 'w) tunnel_manager \<Rightarrow>
   ('n tunnel_error, tunn_result) result \<times> ('n, 'w) tunnel_manager" where
  "decapsulate_for_peer tops now peer_id src_addr datagram cap m =
     (case tm_tunnels m peer_id of
        None \<Rightarrow> (Inl (PeerNotFound peer_id), m)
      | Some tunnel \<Rightarrow>
          (let (result, t) = decapsulate tops now (Some (fst src_addr)) datagram cap tunnel
           in (Inr result,
               if carries_data result \<and> tn_endpoint t \<noteq> Some src_addr
               then emit (EndpointChanged peer_id src_addr)
                 (m\<lparr>tm_tunnels := (tm_tunnels m)(peer_id \<mapsto> set_endpoint src_addr t)\<rparr>)
               else m\<lparr>tm_tunnels := (tm_tunnels m)(peer_id \<mapsto> t)\<rparr>)))"

text \<open>Both exits of the lookup by receiver index are \<open>None\<close>.\<close>

definition find_peer_for_packet :: "bytes \<Rightarrow> string option" where
  "find_peer_for_packet datagram = (if length datagram < 8 then None else None)"

text \<open>The inner loop of \<open>tick\<close> runs until the timers have nothing to send, which is up to
  \<open>boringtun\<close>; \<open>None\<close> is a loop that does not end. The outer loop visits the peers in the
  iteration order of the hash map, an argument.\<close>

partial_function (option) drain_timers ::
  "'w tunn_ops \<Rightarrow> nat \<Rightarrow> string \<Rightarrow> ('n, 'w) tunnel \<Rightarrow> (string \<times> socket_addr \<times> bytes) list \<Rightarrow>
   ((string \<times> socket_addr \<times> bytes) list \<times> ('n, 'w) tunnel) option" where
  "drain_timers tops now peer_id t packets =
     (case update_timers tops now PACKET_BUFFER_SIZE t of
        (WriteToNetwork data, t') \<Rightarrow>
          drain_timers tops now peer_id t'
            (case tn_endpoint t' of
               Some endpoint \<Rightarrow> packets @ [(peer_id, endpoint, data)]
             | None \<Rightarrow> packets)
      | (_, t') \<Rightarrow> Some (packets, t'))"

fun tick_peers ::
  "'w tunn_ops \<Rightarrow> nat \<Rightarrow> string list \<Rightarrow> (string \<times> socket_addr \<times> bytes) list \<Rightarrow>
   ('n, 'w) tunnel_manager \<Rightarrow>
   ((string \<times> socket_addr \<times> bytes) list \<times> ('n, 'w) tunnel_manager) option" where
  "tick_peers tops now [] packets m = Some (packets, m)"
| "tick_peers tops now (peer_id # order) packets m =
     (case tm_tunnels m peer_id of
        None \<Rightarrow> tick_peers tops now order packets m
      | Some tunnel \<Rightarrow>
          do {
            (packets', t) \<leftarrow> drain_timers tops now peer_id tunnel packets;
            tick_peers tops now order packets' (m\<lparr>tm_tunnels := (tm_tunnels m)(peer_id \<mapsto> t)\<rparr>)
          })"

definition tick ::
  "'w tunn_ops \<Rightarrow> nat \<Rightarrow> string list \<Rightarrow> ('n, 'w) tunnel_manager \<Rightarrow>
   ((string \<times> socket_addr \<times> bytes) list \<times> ('n, 'w) tunnel_manager) option" where
  "tick tops now order m = tick_peers tops now order [] m"

definition tm_initiate_handshake ::
  "'w tunn_ops \<Rightarrow> nat \<Rightarrow> string \<Rightarrow> ('n, 'w) tunnel_manager \<Rightarrow>
   ('n tunnel_error, socket_addr \<times> bytes) result \<times> ('n, 'w) tunnel_manager" where
  "tm_initiate_handshake tops now peer_id m =
     (case tm_tunnels m peer_id of
        None \<Rightarrow> (Inl (PeerNotFound peer_id), m)
      | Some tunnel \<Rightarrow>
          (case tn_endpoint tunnel of
             None \<Rightarrow> (Inl (TunnelNoEndpoint peer_id), m)
           | Some endpoint \<Rightarrow>
               (let (result, t) = initiate_handshake tops now PACKET_BUFFER_SIZE tunnel
                in (case result of
                      WriteToNetwork data \<Rightarrow> Inr (endpoint, data)
                    | TunnErr e \<Rightarrow> Inl (Handshake e)
                    | _ \<Rightarrow> Inl (Handshake ''Unexpected result''),
                    m\<lparr>tm_tunnels := (tm_tunnels m)(peer_id \<mapsto> t)\<rparr>))))"

section \<open>What the operations keep\<close>

text \<open>Traffic changes the state machine, the statistics and the endpoint of a tunnel, never whose
  it is or what it may send.\<close>

definition keeps :: "('n, 'w) tunnel \<Rightarrow> ('n, 'w) tunnel \<Rightarrow> bool" where
  "keeps t t' \<longleftrightarrow> tn_peer_id t' = tn_peer_id t \<and> tn_public_key t' = tn_public_key t \<and>
     tn_allowed_ips t' = tn_allowed_ips t"

lemma keeps_refl [simp]: "keeps t t"
  by (simp add: keeps_def)

lemma keeps_trans: "keeps t u \<Longrightarrow> keeps u v \<Longrightarrow> keeps t v"
  by (simp add: keeps_def)

lemma set_endpoint_keeps: "keeps u t \<Longrightarrow> keeps u (set_endpoint e t)"
  by (simp add: keeps_def set_endpoint_def)

lemma encapsulate_keeps: "encapsulate tops now src cap t = (r, t') \<Longrightarrow> keeps t t' \<and> tn_endpoint t' = tn_endpoint t"
  by (auto simp: encapsulate_def keeps_def Let_def split: prod.splits tunn_result.splits)

lemma decapsulate_keeps: "decapsulate tops now a d cap t = (r, t') \<Longrightarrow> keeps t t'"
  by (auto simp: decapsulate_def count_received_def keeps_def Let_def split: prod.splits tunn_result.splits)

lemma initiate_handshake_keeps: "initiate_handshake tops now cap t = (r, t') \<Longrightarrow> keeps t t'"
  by (auto simp: initiate_handshake_def keeps_def split: prod.splits)

lemma update_timers_keeps:
  "update_timers tops now cap t = (r, t') \<Longrightarrow> keeps t t' \<and> tn_endpoint t' = tn_endpoint t"
  by (auto simp: update_timers_def keeps_def split: prod.splits)

lemma drain_timers_keeps:
  "drain_timers tops now peer_id t packets = Some y \<Longrightarrow>
   keeps t (snd y) \<and> tn_endpoint (snd y) = tn_endpoint t \<and> (\<exists>new. fst y = packets @ new \<and>
     (\<forall>(i, e, d) \<in> set new. i = peer_id \<and> tn_endpoint t = Some e))"
proof (erule drain_timers.raw_induct [rotated], goal_cases)
  case (1 f tops now peer_id t packets y)
  obtain r u where u: "update_timers tops now PACKET_BUFFER_SIZE t = (r, u)" by fastforce
  note k = update_timers_keeps [OF u]
  show ?case
  proof (cases "\<exists>d. r = WriteToNetwork d")
    case True
    then obtain d where d: "r = WriteToNetwork d" ..
    let ?packets = "case tn_endpoint u of Some e \<Rightarrow> packets @ [(peer_id, e, d)] | None \<Rightarrow> packets"
    have "f tops now peer_id u ?packets = Some y" using 1(2) by (simp add: u d)
    from 1(1) [OF this] k show ?thesis
      by (auto intro: keeps_trans split: option.splits)
  next
    case False
    then have "y = (packets, u)" using 1(2) by (cases r) (simp_all add: u)
    with k show ?thesis by simp
  qed
qed

lemma set_add_route [simp]: "set (all_routes (add_route ops r t)) = insert r (set (all_routes t))"
  by (auto simp: add_route_def recompute_elected all_routes_def)

lemma set_add_routes [simp]:
  "set (all_routes (fold (\<lambda>p. add_route ops (f p)) ps t)) = f ` set ps \<union> set (all_routes t)"
  by (induction ps arbitrary: t) auto

lemma table_ops_inv:
  assumes "rt_inv ops t"
  shows "rt_inv ops (add_route ops r t)" "rt_inv ops (remove_peer_routes ops c t)"
    "set_route_approved ops p c a t = (t', found) \<Longrightarrow> rt_inv ops t'"
  using assms by (blast intro: table.inv_step rt_step.intros)+

lemma add_routes_inv: "rt_inv ops t \<Longrightarrow> rt_inv ops (fold (\<lambda>p. add_route ops (f p)) ps t)"
  by (induction ps arbitrary: t) (simp_all add: table_ops_inv)

lemma approval_routes:
  assumes "set_route_approved ops p c a t = (t', found)"
  shows "rt_peer_id ` set (all_routes t') = rt_peer_id ` set (all_routes t) \<and>
    {r \<in> set (all_routes t). \<not> rt_advertised r} \<subseteq> set (all_routes t')"
proof -
  define f where "f = (\<lambda>r :: 'a route. if rt_prefix r = p \<and> rt_peer_id r = c \<and> rt_advertised r
    then r\<lparr>rt_approved := a\<rparr> else r)"
  have f: "rt_peer_id (f r) = rt_peer_id r" "\<not> rt_advertised r \<Longrightarrow> f r = r" for r
    by (simp_all add: f_def)
  have "(ipv4_routes t' = map f (ipv4_routes t) \<and> ipv6_routes t' = ipv6_routes t) \<or>
      (ipv4_routes t' = ipv4_routes t \<and> ipv6_routes t' = map f (ipv6_routes t))"
    using assms by (auto simp: set_route_approved_def Let_def recompute_elected f_def split: if_splits)
  then show ?thesis
    unfolding all_routes_def using f by (auto simp: image_Un image_image) (metis f(2) imageI)+
qed

lemma allowed_fold:
  "set (tn_allowed_ips (fold add_allowed_ip ps t)) = set ps \<union> set (tn_allowed_ips t)"
  "distinct (tn_allowed_ips t) \<Longrightarrow> distinct (tn_allowed_ips (fold add_allowed_ip ps t))"
  "tn_peer_id (fold add_allowed_ip ps t) = tn_peer_id t"
  "tn_public_key (fold add_allowed_ip ps t) = tn_public_key t"
  by (induction ps arbitrary: t) (auto simp: add_allowed_ip_def)

section \<open>Runs\<close>

inductive tm_step ::
  "'n ipnet_ops \<Rightarrow> 'w tunn_ops \<Rightarrow> ('n, 'w) tunnel_manager \<Rightarrow> ('n, 'w) tunnel_manager \<Rightarrow> bool"
  for ops tops where
  step_add_peer: "tm_step ops tops m (add_peer ops tops i k e ps ka m)"
| step_remove_peer: "remove_peer ops i m = (r, m') \<Longrightarrow> tm_step ops tops m m'"
| step_endpoint: "update_endpoint i e m = (r, m') \<Longrightarrow> tm_step ops tops m m'"
| step_advertise: "advertise_route ops i p a m = (r, m') \<Longrightarrow> tm_step ops tops m m'"
| step_approve: "tm_set_route_approved ops i p a m = (r, m') \<Longrightarrow> tm_step ops tops m m'"
| step_encapsulate: "encapsulate_for_peer tops now i d cap m = (q, m') \<Longrightarrow> tm_step ops tops m m'"
| step_decapsulate: "decapsulate_for_peer tops now i src d cap m = (q', m') \<Longrightarrow> tm_step ops tops m m'"
| step_tick: "tick tops now order m = Some (packets, m') \<Longrightarrow> tm_step ops tops m m'"
| step_handshake: "tm_initiate_handshake tops now i m = (q'', m') \<Longrightarrow> tm_step ops tops m m'"

definition tunnel_ok :: "'n routing_table \<Rightarrow> string \<Rightarrow> ('n, 'w) tunnel \<Rightarrow> bool" where
  "tunnel_ok rt i t \<longleftrightarrow> tn_peer_id t = i \<and> distinct (tn_allowed_ips t) \<and>
     (\<forall>p \<in> set (tn_allowed_ips t). direct_route i p \<in> set (all_routes rt))"

definition tm_inv :: "'n ipnet_ops \<Rightarrow> ('n, 'w) tunnel_manager \<Rightarrow> bool" where
  "tm_inv ops m \<longleftrightarrow> rt_inv ops (tm_routing m) \<and>
     (\<forall>r \<in> set (all_routes (tm_routing m)). \<exists>t. tm_tunnels m (rt_peer_id r) = Some t) \<and>
     (\<forall>i t. tm_tunnels m i = Some t \<longrightarrow> tunnel_ok (tm_routing m) i t)"

lemma tunnel_ok_keeps: "tunnel_ok rt i t \<Longrightarrow> keeps t t' \<Longrightarrow> tunnel_ok rt i t'"
  by (simp add: tunnel_ok_def keeps_def)

lemma emit_simps [simp]:
  "tm_tunnels (emit e m) = tm_tunnels m" "tm_routing (emit e m) = tm_routing m"
  "tm_pubkey_to_peer (emit e m) = tm_pubkey_to_peer m" "tm_inv ops (emit e m) = tm_inv ops m"
  by (simp_all add: emit_def tm_inv_def)

lemma tm_inv_traffic:
  "tm_inv ops m \<Longrightarrow> tm_tunnels m i = Some t \<Longrightarrow> keeps t t' \<Longrightarrow>
   tm_inv ops (m\<lparr>tm_tunnels := (tm_tunnels m)(i \<mapsto> t')\<rparr>)"
  unfolding tm_inv_def using tunnel_ok_keeps by (fastforce split: if_splits)

lemma add_peer_inv:
  assumes "tm_inv ops m"
  shows "tm_inv ops (add_peer ops tops i k e ps ka m)"
proof -
  have "tunnel_ok rt j t" if "tunnel_ok (tm_routing m) j t" "set (all_routes (tm_routing m)) \<subseteq> set (all_routes rt)"
    for rt j and t :: "('a, 'b) tunnel"
    using that by (auto simp: tunnel_ok_def)
  with assms show ?thesis
    by (auto simp: add_peer_def Let_def tm_inv_def add_routes_inv tunnel_ok_def allowed_fold tunnel_new_def
        direct_route_def)
qed

lemma remove_peer_inv:
  assumes "tm_inv ops m" "remove_peer ops i m = (r, m')"
  shows "tm_inv ops m'"
proof (cases "tm_tunnels m i")
  case None
  with assms show ?thesis by (simp add: remove_peer_def)
next
  case (Some t)
  with assms show ?thesis
    by (auto simp: remove_peer_def tm_inv_def all_routes_removed tunnel_ok_def direct_route_def table_ops_inv
        split: if_splits)
qed

lemma advertise_inv:
  assumes "tm_inv ops m" "advertise_route ops i p a m = (r, m')"
  shows "tm_inv ops m'"
  using assms
  by (auto simp: advertise_route_def check_peer_def add_advertised_def tm_inv_def tunnel_ok_def
      table_ops_inv split: if_splits)

lemma approve_inv:
  assumes "tm_inv ops m" "tm_set_route_approved ops i p a m = (r, m')"
  shows "tm_inv ops m'"
proof (cases "tm_tunnels m i")
  case None
  with assms show ?thesis by (simp add: tm_set_route_approved_def check_peer_def)
next
  case (Some t)
  obtain rt found where rt: "set_route_approved ops p i a (tm_routing m) = (rt, found)" by fastforce
  have "rt_inv ops rt" using assms(1) table_ops_inv(3) [OF _ rt] by (simp add: tm_inv_def)
  moreover have "tunnel_ok rt j u" if "tunnel_ok (tm_routing m) j u" for j and u :: "('a, 'b) tunnel"
    using approval_routes [OF rt] that by (auto simp: tunnel_ok_def direct_route_def)
  moreover have "\<exists>u. tm_tunnels m (rt_peer_id q) = Some u" if "q \<in> set (all_routes rt)" for q
  proof -
    from that have "rt_peer_id q \<in> rt_peer_id ` set (all_routes (tm_routing m))"
      using approval_routes [OF rt] by blast
    then show ?thesis using assms(1) by (auto simp: tm_inv_def)
  qed
  moreover have "m' = m\<lparr>tm_routing := rt\<rparr>"
    using assms(2) Some by (simp add: tm_set_route_approved_def check_peer_def rt)
  ultimately show ?thesis using assms(1) by (simp add: tm_inv_def)
qed

lemma tick_inv:
  "tick_peers tops now order packets m = Some (packets', m') \<Longrightarrow> tm_inv ops m \<Longrightarrow> tm_inv ops m'"
proof (induction order arbitrary: packets m)
  case (Cons i order)
  show ?case
  proof (cases "tm_tunnels m i")
    case (Some t)
    with Cons.prems(1) obtain qs u where q: "drain_timers tops now i t packets = Some (qs, u)"
      "tick_peers tops now order qs (m\<lparr>tm_tunnels := (tm_tunnels m)(i \<mapsto> u)\<rparr>) = Some (packets', m')"
      by (auto split: bind_splits)
    show ?thesis
      using drain_timers_keeps [OF q(1)] tm_inv_traffic [OF Cons.prems(2) Some] Cons.IH [OF q(2)] by simp
  qed (use Cons in simp)
qed simp

lemma tm_step_inv:
  assumes "tm_step ops tops m m'" "tm_inv ops m"
  shows "tm_inv ops m'"
  using assms
proof cases
  case (step_encapsulate now i d cap q)
  then show ?thesis using assms(2)
    by (auto simp: encapsulate_for_peer_def dest: encapsulate_keeps intro: tm_inv_traffic
        split: option.splits prod.splits)
next
  case (step_decapsulate now i src d cap q)
  then show ?thesis using assms(2)
    by (auto simp: decapsulate_for_peer_def Let_def dest!: decapsulate_keeps
        intro!: tm_inv_traffic set_endpoint_keeps split: option.splits prod.splits if_splits)
next
  case (step_handshake now i q)
  then show ?thesis using assms(2)
    by (auto simp: tm_initiate_handshake_def Let_def dest: initiate_handshake_keeps
        intro: tm_inv_traffic split: option.splits prod.splits)
next
  case (step_endpoint i e r)
  then show ?thesis using assms(2)
    by (auto simp: update_endpoint_def intro: tm_inv_traffic [OF _ _ set_endpoint_keeps [OF keeps_refl]] split: option.splits)
qed (auto intro: add_peer_inv remove_peer_inv advertise_inv approve_inv tick_inv simp: tick_def)

interpretation manager: machine "tm_new secret port" "tm_step ops tops" "tm_inv ops"
proof unfold_locales
  show "tm_inv ops (tm_new secret port)"
    using rt_new_inv [of ops] by (simp add: tm_inv_def tm_new_def) (simp add: all_routes_def rt_new_def)
qed (rule tm_step_inv)

section \<open>Properties\<close>

text \<open>A tunnel whose state machine is its number of waiting packets.\<close>

definition example_tunn :: "nat tunn_ops" where
  "example_tunn = \<lparr>tunn_new = (\<lambda>secret key keepalive index. 2),
     tunn_encapsulate = (\<lambda>now w src cap. (WriteToNetwork (9 # src), w)),
     tunn_decapsulate = (\<lambda>now w from datagram cap. if take 1 datagram = [9]
        then (WriteToTunnelV4 (drop 1 datagram) (take 4 (drop 13 datagram)), w) else (TunnDone, w)),
     tunn_handshake = (\<lambda>now w cap. (WriteToNetwork [1], w)),
     tunn_update_timers = (\<lambda>now w cap. if w = 0 then (TunnDone, 0) else (WriteToNetwork [4], w - 1)),
     tunn_is_expired = (\<lambda>w. False)\<rparr>"

definition example_manager :: "(ip_addr \<times> u8, nat) tunnel_manager" where
  "example_manager =
     add_peer cidr_ops example_tunn ''b'' [2] (Some (V4 [192, 0, 2, 2], 51820))
       [(V4 [10, 2, 0, 0], 16)] None
     (add_peer cidr_ops example_tunn ''a'' [1] (Some (V4 [192, 0, 2, 1], 51820))
       [(V4 [10, 1, 0, 0], 16)] None (tm_new [] 51820))"

lemma example_manager_reachable:
  "rtranclp (tm_step cidr_ops example_tunn) (tm_new [] 51820) example_manager"
  unfolding example_manager_def
  by (blast intro: step_add_peer rtranclp.rtrancl_into_rtrancl rtranclp.rtrancl_refl)



text \<open>Every packet that the timers of a tunnel produce leaves it closer to having none.\<close>

definition timers_settle :: "'w tunn_ops \<Rightarrow> nat \<Rightarrow> ('w \<Rightarrow> nat) \<Rightarrow> bool" where
  "timers_settle tops now waiting \<longleftrightarrow>
     (\<forall>w d w'. tunn_update_timers tops now w PACKET_BUFFER_SIZE = (WriteToNetwork d, w') \<longrightarrow>
        waiting w' < waiting w)"

lemma drain_timers_ends:
  assumes "timers_settle tops now waiting"
  shows "\<exists>y. drain_timers tops now i t packets = Some y"
proof (induction "waiting (tn_tunn t)" arbitrary: t packets rule: less_induct)
  case less
  obtain r u where u: "update_timers tops now PACKET_BUFFER_SIZE t = (r, u)" by fastforce
  show ?case
  proof (cases "\<exists>d. r = WriteToNetwork d")
    case True
    then have "waiting (tn_tunn u) < waiting (tn_tunn t)"
      using assms u by (auto simp: timers_settle_def update_timers_def split: prod.splits)
    with less True show ?thesis by (subst drain_timers.simps) (auto simp: u)
  next
    case False
    then show ?thesis by (subst drain_timers.simps) (cases r, simp_all add: u)
  qed
qed

lemma tick_peers_ends:
  assumes "timers_settle tops now waiting"
  shows "\<exists>new m'. tick_peers tops now order packets m = Some (packets @ new, m') \<and>
    (\<forall>(i, e, d) \<in> set new. \<exists>t. tm_tunnels m i = Some t \<and> tn_endpoint t = Some e)"
proof (induction order arbitrary: packets m)
  case (Cons i order)
  show ?case
  proof (cases "tm_tunnels m i")
    case None
    with Cons show ?thesis by simp
  next
    case (Some t)
    obtain qs u where q: "drain_timers tops now i t packets = Some (qs, u)"
      using drain_timers_ends [OF assms, of i t packets] by fastforce
    let ?m = "m\<lparr>tm_tunnels := (tm_tunnels m)(i \<mapsto> u)\<rparr>"
    from drain_timers_keeps [OF q] obtain new1 where new1: "qs = packets @ new1"
        "\<forall>(j, e, d) \<in> set new1. j = i \<and> tn_endpoint t = Some e" and e: "tn_endpoint u = tn_endpoint t"
      by auto
    from Cons [of qs ?m] obtain new2 m' where new2:
        "tick_peers tops now order qs ?m = Some (qs @ new2, m')"
        "\<forall>(j, e, d) \<in> set new2. \<exists>t. tm_tunnels ?m j = Some t \<and> tn_endpoint t = Some e"
      by blast
    have "\<forall>(j, e, d) \<in> set new2. \<exists>t. tm_tunnels m j = Some t \<and> tn_endpoint t = Some e"
      using new2(2) Some e by (auto split: if_splits)
    then have "\<forall>(j, e, d) \<in> set (new1 @ new2). \<exists>t. tm_tunnels m j = Some t \<and> tn_endpoint t = Some e"
      using new1(2) Some by auto
    moreover have "tick_peers tops now (i # order) packets m = Some (packets @ new1 @ new2, m')"
      using Some q new1(1) new2(1) by simp
    ultimately show ?thesis by blast
  qed
qed simp



text \<open>C40. Registering a peer again under a new key replaces its tunnel and nothing else: the old key
  still resolves to the peer, even after the peer is removed, and until then the routes of its old
  prefixes still lead to it, although its tunnel no longer allows them.\<close>

theorem stale_registration:
  fixes m :: "('n, 'w) tunnel_manager"
  assumes "k' \<noteq> k" "p \<notin> set ps"
    and m'_def: "m' = add_peer ops tops i k' e' ps ka' (add_peer ops tops i k e [p] ka m)"
  shows "peer_by_pubkey (snd (remove_peer ops i m')) k = Some i \<and>
    tm_tunnels (snd (remove_peer ops i m')) i = None \<and>
    direct_route i p \<in> set (all_routes (tm_routing m')) \<and>
    (\<exists>t. tm_tunnels m' i = Some t \<and> p \<notin> set (tn_allowed_ips t))"
  using assms(1,2)
  by (simp add: m'_def add_peer_def remove_peer_def peer_by_pubkey_def Let_def allowed_fold tunnel_new_def)

theorem stale_registration_witness:
  "let m' = add_peer cidr_ops example_tunn ''a'' [3] None [(V4 [10, 3, 0, 0], 16)] None
       (add_peer cidr_ops example_tunn ''a'' [1] None [(V4 [10, 1, 0, 0], 16)] None (tm_new [] 51820))
   in peer_by_pubkey (snd (remove_peer cidr_ops ''a'' m')) [1] = Some ''a'' \<and>
      tm_tunnels (snd (remove_peer cidr_ops ''a'' m')) ''a'' = None"
  unfolding Let_def
  using stale_registration [OF _ _ refl, where k' = "[3]" and k = "[1]" and i = "''a''" and ops = cidr_ops
      and p = "(V4 [10, 1, 0, 0], 16)" and ps = "[(V4 [10, 3, 0, 0], 16)]" and tops = example_tunn
      and e' = None and e = None and ka' = None and ka = None and m = "tm_new [] 51820"]
  by simp

text \<open>The existence check of an advertisement and its insertion are not atomic: when the peer is
  removed between them, a route remains for a peer without a tunnel.\<close>

theorem advertise_race:
  assumes "check_peer i m = Inr ()"
  shows "tm_tunnels (add_advertised ops i p True (snd (remove_peer ops i m))) i = None \<and>
    (\<exists>r \<in> set (all_routes (tm_routing (add_advertised ops i p True (snd (remove_peer ops i m))))).
       rt_peer_id r = i \<and> rt_approved r)"
  using assms
  by (auto simp: check_peer_def add_advertised_def remove_peer_def split: if_splits)

theorem advertise_race_witness:
  "check_peer ''a'' example_manager = Inr () \<and>
   tm_tunnels (add_advertised cidr_ops ''a'' (V4 [10, 9, 0, 0], 16) True
     (snd (remove_peer cidr_ops ''a'' example_manager))) ''a'' = None"
proof -
  have "check_peer ''a'' example_manager = Inr ()"
    by (simp add: example_manager_def add_peer_def check_peer_def Let_def)
  with advertise_race [OF this, of cidr_ops] show ?thesis by blast
qed

end
