(* ===== verification/Forwarding.thy ===== *)
theory Forwarding
  imports Acl Tunnels
begin

text \<open>
  The forwarding decision of \<open>headscale-core/src/authorization.rs\<close> and the packet router of
  \<open>headscale-core/src/packet.rs\<close>, over the access-control policy, the routing table and the tunnel
  manager. The UDP socket is an argument: whether a send succeeds, and the datagrams that arrive.
  The theorems: a datagram leaves for a peer only if the policy accepts the packet's destination and
  an approved longest-prefix route leads to that peer; a packet is delivered only if its source is
  one the sending peer's tunnel allows; a removed peer neither gets nor delivers packets; ports in
  the policy do not restrict what is forwarded.
\<close>

section \<open>Authorization\<close>

datatype forward_decision = Allow string | NoRoute | DenyForward

definition authorize_forward ::
  "net_parser \<Rightarrow> 'n ipnet_ops \<Rightarrow> acl_policy \<Rightarrow> 'n routing_table \<Rightarrow> acl_context \<Rightarrow> acl_destination \<Rightarrow>
   forward_decision" where
  "authorize_forward net ops acl routes ctx dst =
     (if evaluate net acl ctx dst \<noteq> Accept then DenyForward
      else case ad_dst_ip dst of
        None \<Rightarrow> NoRoute
      | Some dst_ip \<Rightarrow>
          (case lookup ops routes dst_ip of
             Some peer_id \<Rightarrow> Allow peer_id
           | None \<Rightarrow> NoRoute))"

definition authorize_ip_forward ::
  "net_parser \<Rightarrow> 'n ipnet_ops \<Rightarrow> acl_policy \<Rightarrow> 'n routing_table \<Rightarrow> acl_context \<Rightarrow> ip_addr \<Rightarrow>
   forward_decision" where
  "authorize_ip_forward net ops acl routes ctx dst_ip =
     authorize_forward net ops acl routes ctx (ip_only dst_ip)"

section \<open>Packets\<close>

text \<open>The lengths that are tested first keep every read within the packet.\<close>

definition parse_destination :: "bytes \<Rightarrow> ip_addr option" where
  "parse_destination packet =
     (if packet = [] then None
      else if drop_bit 4 (packet ! 0) = 4 \<and> length packet \<ge> 20 then Some (V4 (take 4 (drop 16 packet)))
      else if drop_bit 4 (packet ! 0) = 6 \<and> length packet \<ge> 40 then Some (V6 (take 16 (drop 24 packet)))
      else None)"

definition parse_source :: "bytes \<Rightarrow> ip_addr option" where
  "parse_source packet =
     (if packet = [] then None
      else if drop_bit 4 (packet ! 0) = 4 \<and> length packet \<ge> 20 then Some (V4 (take 4 (drop 12 packet)))
      else if drop_bit 4 (packet ! 0) = 6 \<and> length packet \<ge> 40 then Some (V6 (take 16 (drop 8 packet)))
      else None)"

section \<open>The router\<close>

datatype router_event =
    PacketSent string nat
  | PacketReceived string nat
  | RouterEventError string

datatype router_error =
    RouterIo
  | RouterTun
  | RouterTunnel string
  | NoEndpoint string
  | InvalidPacket

record received_packet =
  rp_data :: bytes
  rp_src_ip :: ip_addr
  rp_peer_id :: string

text \<open>The router with the events it broadcast and the datagrams it sent. \<open>reach\<close> says whether the
  socket sends a datagram to an address; \<open>net_text\<close> is the text of a network.\<close>

record ('n, 'w) packet_router =
  pr_manager :: "('n, 'w) tunnel_manager"
  pr_events :: "router_event list"
  pr_sent :: "(bytes \<times> socket_addr) list"

type_synonym reach = "bytes \<Rightarrow> socket_addr \<Rightarrow> bool"

fun tunnel_error_text :: "('n \<Rightarrow> string) \<Rightarrow> 'n tunnel_error \<Rightarrow> string" where
  "tunnel_error_text net_text (Creation s) = ''Failed to create tunnel: '' @ s"
| "tunnel_error_text net_text (PeerNotFound s) = ''Peer not found: '' @ s"
| "tunnel_error_text net_text (RouteNotFound i p) = ''Route not found for peer '' @ i @ '': '' @ net_text p"
| "tunnel_error_text net_text (TunnelNoEndpoint s) = ''No endpoint configured for peer: '' @ s"
| "tunnel_error_text net_text UnknownPacket = ''Unknown packet (no matching peer)''"
| "tunnel_error_text net_text (Handshake s) = ''Handshake failed: '' @ s"
| "tunnel_error_text net_text TunnelIo = ''IO error''"

definition send_to_peer ::
  "'w tunn_ops \<Rightarrow> reach \<Rightarrow> ('n \<Rightarrow> string) \<Rightarrow> nat \<Rightarrow> string \<Rightarrow> bytes \<Rightarrow> ('n, 'w) packet_router \<Rightarrow>
   (router_error, unit) result \<times> ('n, 'w) packet_router" where
  "send_to_peer tops reach net_text now peer_id packet r =
     (let (res, m) = encapsulate_for_peer tops now peer_id packet PACKET_BUFFER_SIZE (pr_manager r);
          r = r\<lparr>pr_manager := m\<rparr>
      in case res of
           Inl e \<Rightarrow> (Inl (RouterTunnel (tunnel_error_text net_text e)), r)
         | Inr (WriteToNetwork data, Some endpoint) \<Rightarrow>
             if reach data endpoint
             then (Inr (), r\<lparr>pr_sent := pr_sent r @ [(data, endpoint)],
                     pr_events := pr_events r @ [PacketSent peer_id (length packet)]\<rparr>)
             else (Inl RouterIo, r)
         | Inr (WriteToNetwork data, None) \<Rightarrow> (Inl (NoEndpoint peer_id), r)
         | Inr (TunnErr e, _) \<Rightarrow> (Inl (RouterTunnel e), r)
         | Inr (_, _) \<Rightarrow> (Inr (), r))"

definition send_authorized ::
  "net_parser \<Rightarrow> 'n ipnet_ops \<Rightarrow> 'w tunn_ops \<Rightarrow> reach \<Rightarrow> ('n \<Rightarrow> string) \<Rightarrow> nat \<Rightarrow> acl_policy \<Rightarrow>
   acl_context \<Rightarrow> bytes \<Rightarrow> ('n, 'w) packet_router \<Rightarrow>
   (router_error, forward_decision) result \<times> ('n, 'w) packet_router" where
  "send_authorized net ops tops reach net_text now acl ctx packet r =
     (case parse_destination packet of
        None \<Rightarrow> (Inl InvalidPacket, r)
      | Some dst_ip \<Rightarrow>
          (let decision = authorize_forward net ops acl (tm_routing (pr_manager r)) ctx (ip_only dst_ip)
           in case decision of
                Allow peer_id \<Rightarrow>
                  (case send_to_peer tops reach net_text now peer_id packet r of
                     (Inl e, r') \<Rightarrow> (Inl e, r')
                   | (Inr _, r') \<Rightarrow> (Inr decision, r'))
              | _ \<Rightarrow> (Inr decision, r)))"

text \<open>The branch of a decrypted packet: checked against the allowed sources of the peer, an error of
  the check counting as not allowed. \<open>None\<close> goes on to the next peer.\<close>

definition accept_packet ::
  "'n ipnet_ops \<Rightarrow> string \<Rightarrow> bytes \<Rightarrow> ip_addr \<Rightarrow> ('n, 'w) packet_router \<Rightarrow>
   received_packet option \<times> ('n, 'w) packet_router" where
  "accept_packet ops peer_id data addr r =
     (let src_ip = (case parse_source data of Some ip \<Rightarrow> ip | None \<Rightarrow> addr) in
      if \<not> (case peer_allows_ip ops (pr_manager r) peer_id src_ip of Inr b \<Rightarrow> b | Inl _ \<Rightarrow> False)
      then (None, r\<lparr>pr_events := pr_events r @ [RouterEventError
         (''Rejected packet from '' @ peer_id @ '': unauthorized source '' @ ip_display src_ip)]\<rparr>)
      else (Some \<lparr>rp_data = data, rp_src_ip = addr, rp_peer_id = peer_id\<rparr>,
            r\<lparr>pr_events := pr_events r @ [PacketReceived peer_id (length data)]\<rparr>))"

text \<open>The loop over the peers for one datagram: \<open>None\<close> when no peer took it.\<close>

fun try_peers ::
  "'n ipnet_ops \<Rightarrow> 'w tunn_ops \<Rightarrow> reach \<Rightarrow> nat \<Rightarrow> socket_addr \<Rightarrow> bytes \<Rightarrow> string list \<Rightarrow>
   ('n, 'w) packet_router \<Rightarrow>
   (router_error, received_packet) result option \<times> ('n, 'w) packet_router" where
  "try_peers ops tops reach now src_addr datagram [] r = (None, r)"
| "try_peers ops tops reach now src_addr datagram (peer_id # peers) r =
     (let (res, m) = decapsulate_for_peer tops now peer_id src_addr datagram PACKET_BUFFER_SIZE (pr_manager r);
          r = r\<lparr>pr_manager := m\<rparr>;
          deliver = (\<lambda>data addr. case accept_packet ops peer_id data addr r of
              (Some p, r') \<Rightarrow> (Some (Inr p), r')
            | (None, r') \<Rightarrow> try_peers ops tops reach now src_addr datagram peers r')
      in case res of
           Inr (WriteToTunnelV4 data addr) \<Rightarrow> deliver data (V4 addr)
         | Inr (WriteToTunnelV6 data addr) \<Rightarrow> deliver data (V6 addr)
         | Inr (WriteToNetwork response) \<Rightarrow>
             if reach response src_addr
             then try_peers ops tops reach now src_addr datagram peers
               (r\<lparr>pr_sent := pr_sent r @ [(response, src_addr)]\<rparr>)
             else (Some (Inl RouterIo), r)
         | _ \<Rightarrow> try_peers ops tops reach now src_addr datagram peers r)"

text \<open>What the socket gives: an error, or a datagram with its sender, the time, and the iteration
  order of the peers then. \<open>None\<close> is a router that still waits when the input is used up.\<close>

datatype incoming = SocketFailed | Incoming bytes socket_addr nat "string list"

fun recv ::
  "'n ipnet_ops \<Rightarrow> 'w tunn_ops \<Rightarrow> reach \<Rightarrow> incoming list \<Rightarrow> ('n, 'w) packet_router \<Rightarrow>
   (router_error, received_packet) result option \<times> ('n, 'w) packet_router" where
  "recv ops tops reach [] r = (None, r)"
| "recv ops tops reach (SocketFailed # ins) r = (Some (Inl RouterIo), r)"
| "recv ops tops reach (Incoming datagram src_addr now peers # ins) r =
     (case try_peers ops tops reach now src_addr (take PACKET_BUFFER_SIZE datagram) peers r of
        (Some res, r') \<Rightarrow> (Some res, r')
      | (None, r') \<Rightarrow> recv ops tops reach ins r')"

definition router_initiate_handshake ::
  "'w tunn_ops \<Rightarrow> reach \<Rightarrow> ('n \<Rightarrow> string) \<Rightarrow> nat \<Rightarrow> string \<Rightarrow> ('n, 'w) packet_router \<Rightarrow>
   (router_error, unit) result \<times> ('n, 'w) packet_router" where
  "router_initiate_handshake tops reach net_text now peer_id r =
     (let (res, m) = tm_initiate_handshake tops now peer_id (pr_manager r);
          r = r\<lparr>pr_manager := m\<rparr>
      in case res of
           Inl e \<Rightarrow> (Inl (RouterTunnel (tunnel_error_text net_text e)), r)
         | Inr (endpoint, data) \<Rightarrow>
             if reach data endpoint then (Inr (), r\<lparr>pr_sent := pr_sent r @ [(data, endpoint)]\<rparr>)
             else (Inl RouterIo, r))"

text \<open>A timer round of the router; \<open>None\<close> is a round that does not end.\<close>

definition router_tick ::
  "'w tunn_ops \<Rightarrow> reach \<Rightarrow> nat \<Rightarrow> string list \<Rightarrow> ('n, 'w) packet_router \<Rightarrow>
   (nat \<times> ('n, 'w) packet_router) option" where
  "router_tick tops reach now order r =
     do {
       (packets, m) \<leftarrow> tick tops now order (pr_manager r);
       let ok = filter (\<lambda>(peer_id, endpoint, data). reach data endpoint) packets;
       Some (length ok, r\<lparr>pr_manager := m,
         pr_sent := pr_sent r @ map (\<lambda>(peer_id, endpoint, data). (data, endpoint)) ok\<rparr>)
     }"

text \<open>One turn of the outbound task: what was read from the interface, at most a buffer.\<close>

definition outbound_turn ::
  "net_parser \<Rightarrow> 'n ipnet_ops \<Rightarrow> 'w tunn_ops \<Rightarrow> reach \<Rightarrow> ('n \<Rightarrow> string) \<Rightarrow> nat \<Rightarrow> acl_policy \<Rightarrow>
   acl_context \<Rightarrow> bytes option \<Rightarrow> ('n, 'w) packet_router \<Rightarrow> ('n, 'w) packet_router" where
  "outbound_turn net ops tops reach net_text now acl ctx read r =
     (case read of
        None \<Rightarrow> r
      | Some packet \<Rightarrow>
          if packet = [] then r
          else snd (send_authorized net ops tops reach net_text now acl ctx packet r))"

section \<open>What sending and receiving do\<close>

lemma send_to_peer_sent:
  assumes "send_to_peer tops reach net_text now i packet r = (res, r')"
  shows "pr_sent r' = pr_sent r \<or>
    (\<exists>t e data. tm_tunnels (pr_manager r) i = Some t \<and> tn_endpoint t = Some e \<and>
       pr_sent r' = pr_sent r @ [(data, e)])"
proof (cases "tm_tunnels (pr_manager r) i")
  case None
  with assms show ?thesis by (auto simp: send_to_peer_def encapsulate_for_peer_def)
next
  case (Some t)
  obtain q u where "encapsulate tops now packet PACKET_BUFFER_SIZE t = (q, u)" by fastforce
  with assms Some show ?thesis
    by (auto simp: send_to_peer_def encapsulate_for_peer_def Let_def
        split: tunn_result.splits option.splits if_splits)
qed

lemma authorize_allow:
  "authorize_forward net ops acl routes ctx (ip_only dst) = Allow i \<longleftrightarrow>
   evaluate net acl ctx (ip_only dst) = Accept \<and> lookup ops routes dst = Some i"
  by (auto simp: authorize_forward_def ip_only_def split: option.splits)

lemma send_authorized_sent:
  assumes "send_authorized net ops tops reach net_text now acl ctx packet r = (res, r')"
    and "pr_sent r' \<noteq> pr_sent r"
  shows "\<exists>dst i t e data. parse_destination packet = Some dst \<and>
    evaluate net acl ctx (ip_only dst) = Accept \<and> lookup ops (tm_routing (pr_manager r)) dst = Some i \<and>
    tm_tunnels (pr_manager r) i = Some t \<and> tn_endpoint t = Some e \<and> pr_sent r' = pr_sent r @ [(data, e)]"
proof -
  from assms obtain dst i where dst: "parse_destination packet = Some dst"
      and dec: "authorize_forward net ops acl (tm_routing (pr_manager r)) ctx (ip_only dst) = Allow i"
    by (auto simp: send_authorized_def Let_def split: option.splits forward_decision.splits)
  with assms(1) obtain q where "send_to_peer tops reach net_text now i packet r = (q, r')"
    by (auto simp: send_authorized_def Let_def split: prod.splits sum.splits)
  from send_to_peer_sent [OF this] assms(2) dst dec show ?thesis
    unfolding authorize_allow by blast
qed

lemma decapsulate_for_peer_allows:
  assumes "decapsulate_for_peer tops now i src d cap m = (res, m')"
  shows "peer_allows_ip ops m' j ip = peer_allows_ip ops m j ip"
proof (cases "tm_tunnels m i")
  case None
  with assms show ?thesis by (simp add: decapsulate_for_peer_def)
next
  case (Some t)
  obtain q u where u: "decapsulate tops now (Some (fst src)) d cap t = (q, u)" by fastforce
  then have "tn_allowed_ips u = tn_allowed_ips t" by (auto dest: decapsulate_keeps simp: keeps_def)
  with assms Some u show ?thesis
    by (auto simp: decapsulate_for_peer_def peer_allows_ip_def set_endpoint_def split: if_splits)
qed

text \<open>The source a packet is checked by: the one in its header, if it has one.\<close>

definition claimed_source :: "received_packet \<Rightarrow> ip_addr" where
  "claimed_source p = (case parse_source (rp_data p) of Some ip \<Rightarrow> ip | None \<Rightarrow> rp_src_ip p)"

lemma accept_packet_cases:
  "accept_packet ops i data addr r = (q, r') \<Longrightarrow> pr_manager r' = pr_manager r \<and>
   (\<forall>p. q = Some p \<longrightarrow> rp_peer_id p = i \<and> peer_allows_ip ops (pr_manager r) i (claimed_source p) = Inr True)"
  by (auto simp: accept_packet_def claimed_source_def Let_def split: if_splits sum.splits option.splits)

text \<open>Receiving changes no allowed sources and delivers only packets from allowed ones.\<close>

definition checked ::
  "'n ipnet_ops \<Rightarrow> ('n, 'w) packet_router \<Rightarrow> (router_error, received_packet) result option \<Rightarrow>
   ('n, 'w) packet_router \<Rightarrow> bool" where
  "checked ops r q r' \<longleftrightarrow>
     (\<forall>j ip. peer_allows_ip ops (pr_manager r') j ip = peer_allows_ip ops (pr_manager r) j ip) \<and>
     (\<forall>p. q = Some (Inr p) \<longrightarrow>
        peer_allows_ip ops (pr_manager r) (rp_peer_id p) (claimed_source p) = Inr True)"

lemma try_peers_checked:
  "try_peers ops tops reach now src d peers r = (q, r') \<Longrightarrow> checked ops r q r'"
proof (induction peers arbitrary: r)
  case (Cons i peers)
  obtain res m where m: "decapsulate_for_peer tops now i src d PACKET_BUFFER_SIZE (pr_manager r) = (res, m)"
    by fastforce
  have same: "peer_allows_ip ops m j ip = peer_allows_ip ops (pr_manager r) j ip" for j ip
    using decapsulate_for_peer_allows [OF m] .
  let ?r = "r\<lparr>pr_manager := m\<rparr>"
  have deliver: ?case
    if "(case accept_packet ops i data addr ?r of (Some p, r') \<Rightarrow> (Some (Inr p), r')
        | (None, r') \<Rightarrow> try_peers ops tops reach now src d peers r') = (q, r')" for data addr
  proof -
    obtain a s where a: "accept_packet ops i data addr ?r = (a, s)" by fastforce
    from accept_packet_cases [OF a] have s: "pr_manager s = m"
      and ok: "\<forall>p. a = Some p \<longrightarrow> rp_peer_id p = i \<and> peer_allows_ip ops m i (claimed_source p) = Inr True"
      by simp_all
    show ?thesis
    proof (cases a)
      case None
      with that a have "try_peers ops tops reach now src d peers s = (q, r')" by simp
      from Cons.IH [OF this] show ?thesis by (simp add: checked_def s same)
    next
      case (Some p)
      with that a ok s same show ?thesis by (auto simp: checked_def)
    qed
  qed
  have pass: ?case if "try_peers ops tops reach now src d peers s = (q, r')" "pr_manager s = m" for s
    using Cons.IH [OF that(1)] that(2) same by (simp add: checked_def)
  have failed: "checked ops r (Some (Inl e)) ?r" for e
    using same by (simp add: checked_def)
  show ?case
    using Cons.prems
    by (auto simp: m Let_def split: sum.splits tunn_result.splits if_splits
        intro: deliver failed pass)
qed (simp add: checked_def)

lemma recv_checked: "recv ops tops reach ins r = (q, r') \<Longrightarrow> checked ops r q r'"
proof (induction ins arbitrary: r)
  case (Cons a ins)
  show ?case
  proof (cases a)
    case SocketFailed
    with Cons.prems show ?thesis by (auto simp: checked_def)
  next
    case (Incoming d src now peers)
    obtain x s where x: "try_peers ops tops reach now src (take PACKET_BUFFER_SIZE d) peers r = (x, s)"
      by fastforce
    note c = try_peers_checked [OF x]
    show ?thesis
    proof (cases x)
      case None
      with Cons.prems Incoming x have "recv ops tops reach ins s = (q, r')" by simp
      from Cons.IH [OF this] c show ?thesis by (simp add: checked_def)
    next
      case (Some y)
      with Cons.prems Incoming x c show ?thesis by simp
    qed
  qed
qed (simp add: checked_def)

section \<open>Properties\<close>

definition example_router :: "(ip_addr \<times> u8, nat) packet_router" where
  "example_router = \<lparr>pr_manager = example_manager, pr_events = [], pr_sent = []\<rparr>"

text \<open>A TCP packet from \<open>100.64.0.1\<close> to port 443 of \<open>10.1.0.5\<close>.\<close>

definition example_packet :: bytes where
  "example_packet = [69, 0, 0, 24, 0, 0, 0, 0, 64, 6, 0, 0, 100, 64, 0, 1, 10, 1, 0, 5, 0, 80, 1, 187]"

definition example_policy :: "string \<Rightarrow> acl_policy" where
  "example_policy dst = deny_all\<lparr>ap_acls :=
     [\<lparr>ar_action = Accept, ar_src = [''*''], ar_dst = [dst], ar_proto = None\<rparr>]\<rparr>"

text \<open>C3. In every run, an authorized send puts a datagram on the network only if the packet has a
  destination, the policy accepts it, and the datagram goes to the endpoint of a peer with an
  approved route to it that no other approved route beats in prefix length or, at equal length, in
  priority.\<close>

theorem send_authorized_sound:
  assumes "rtranclp (tm_step ops tops) (tm_new secret port) (pr_manager r)" "ipnet_laws ops"
    and "send_authorized net ops tops reach net_text now acl ctx packet r = (res, r')"
    and "pr_sent r' \<noteq> pr_sent r"
  shows "\<exists>dst q t e data. parse_destination packet = Some dst \<and>
    evaluate net acl ctx (ip_only dst) = Accept \<and>
    q \<in> set (all_routes (tm_routing (pr_manager r))) \<and> rt_approved q \<and> net_contains ops (rt_prefix q) dst \<and>
    (\<forall>q' \<in> set (all_routes (tm_routing (pr_manager r))). rt_approved q' \<and> net_contains ops (rt_prefix q') dst \<longrightarrow>
      prefix_len ops (rt_prefix q') < prefix_len ops (rt_prefix q) \<or>
      prefix_len ops (rt_prefix q') = prefix_len ops (rt_prefix q) \<and> rt_priority q \<le> rt_priority q') \<and>
    tm_tunnels (pr_manager r) (rt_peer_id q) = Some t \<and> tn_endpoint t = Some e \<and>
    pr_sent r' = pr_sent r @ [(data, e)]"
proof -
  have "filed ops (tm_routing (pr_manager r))"
    using manager.inv_reachable [OF assms(1)] by (simp add: tm_inv_def rt_inv_def)
  note best = lookup_best [OF this assms(2)]
  from send_authorized_sent [OF assms(3,4)] obtain dst i t e data where
      d: "parse_destination packet = Some dst" "evaluate net acl ctx (ip_only dst) = Accept"
      and i: "lookup ops (tm_routing (pr_manager r)) dst = Some i"
      and t: "tm_tunnels (pr_manager r) i = Some t" "tn_endpoint t = Some e"
      "pr_sent r' = pr_sent r @ [(data, e)]"
    by blast
  from best [of dst i] i show ?thesis using d t by blast
qed

theorem send_authorized_sound_witness:
  "\<exists>dst q t e data. parse_destination example_packet = Some dst \<and>
    q \<in> set (all_routes (tm_routing example_manager)) \<and>
    tm_tunnels example_manager (rt_peer_id q) = Some t \<and> tn_endpoint t = Some e \<and>
    pr_sent (snd (send_authorized cidr_parser cidr_ops example_tunn (\<lambda>_ _. True) (\<lambda>_. []) 0
      (example_policy ''10.1.0.0/16:*'') (from_node ''n'' (V4 [100, 64, 0, 1])) example_packet example_router))
      = [(data, e)]"
proof -
  let ?s = "send_authorized cidr_parser cidr_ops example_tunn (\<lambda>_ _. True) (\<lambda>_. []) 0
      (example_policy ''10.1.0.0/16:*'') (from_node ''n'' (V4 [100, 64, 0, 1])) example_packet example_router"
  have "pr_sent (snd ?s) \<noteq> []" by code_simp
  then show ?thesis
    using send_authorized_sound [of cidr_ops example_tunn "[]" 51820 example_router, OF _ cidr_ops_laws,
        where res = "fst ?s" and r' = "snd ?s"] example_manager_reachable
    by (fastforce simp: example_router_def)
qed

text \<open>C10. A received packet is handed on only if the source address in its header, or the one the
  tunnel reported when it has none, is an allowed address of the peer it came from.\<close>

theorem recv_source_allowed:
  assumes "recv ops tops reach ins r = (Some (Inr p), r')"
  shows "\<exists>t prefix. tm_tunnels (pr_manager r) (rp_peer_id p) = Some t \<and>
    prefix \<in> set (tn_allowed_ips t) \<and> net_contains ops prefix (claimed_source p)"
  using recv_checked [OF assms] by (auto simp: checked_def peer_allows_ip_def split: option.splits)

theorem recv_source_allowed_witness:
  "\<exists>t prefix. tm_tunnels (pr_manager example_router) ''a'' = Some t \<and>
    prefix \<in> set (tn_allowed_ips t) \<and> net_contains cidr_ops prefix (V4 [10, 1, 0, 9])"
proof -
  let ?packet = "[69, 0, 0, 20, 0, 0, 0, 0, 64, 6, 0, 0, 10, 1, 0, 9, 100, 64, 0, 1] :: bytes"
  let ?p = "\<lparr>rp_data = ?packet, rp_src_ip = V4 [10, 1, 0, 9], rp_peer_id = ''a''\<rparr>"
  let ?recv = "recv cidr_ops example_tunn (\<lambda>_ _. True)
    [Incoming (9 # ?packet) (V4 [192, 0, 2, 1], 51820) 0 [''b'', ''a'']] example_router"
  have "fst ?recv = Some (Inr ?p)" by code_simp
  then have "?recv = (Some (Inr ?p), snd ?recv)" by (metis prod.collapse)
  moreover have "claimed_source ?p = V4 [10, 1, 0, 9]" by code_simp
  ultimately show ?thesis using recv_source_allowed [of cidr_ops example_tunn "\<lambda>_ _. True" _ example_router ?p]
    by (metis received_packet.select_convs(3))
qed

lemma removed_peer_state:
  "remove_peer ops i m = (Inr (), m') \<Longrightarrow>
   tm_tunnels m' i = None \<and> tm_routing m' = remove_peer_routes ops i (tm_routing m)"
  by (auto simp: remove_peer_def split: option.splits)

text \<open>C25. A removed peer is cut off: the next authorized send does not choose it, and no packet is
  received from it.\<close>

theorem removed_peer_cut_off:
  assumes "remove_peer ops i m = (Inr (), pr_manager r)"
  shows "fst (send_authorized net ops tops reach net_text now acl ctx packet r) \<noteq> Inr (Allow i) \<and>
    (\<forall>p. fst (recv ops tops reach ins r) = Some (Inr p) \<longrightarrow> rp_peer_id p \<noteq> i)"
proof -
  have gone: "tm_tunnels (pr_manager r) i = None"
    and routes: "tm_routing (pr_manager r) = remove_peer_routes ops i (tm_routing m)"
    using removed_peer_state [OF assms] by simp_all
  have "lookup ops (tm_routing (pr_manager r)) dst \<noteq> Some i" for dst
    using lookup_in_routes [of ops "tm_routing (pr_manager r)" dst i] by (auto simp: routes all_routes_removed)
  then have "fst (send_authorized net ops tops reach net_text now acl ctx packet r) \<noteq> Inr (Allow i)"
    using authorize_allow [of net ops acl "tm_routing (pr_manager r)" ctx _ i]
    by (auto simp: send_authorized_def Let_def split: option.splits forward_decision.splits prod.splits sum.splits)
  moreover have "rp_peer_id p \<noteq> i" if p: "fst (recv ops tops reach ins r) = Some (Inr p)" for p
  proof -
    from p obtain r' where "recv ops tops reach ins r = (Some (Inr p), r')" by (metis prod.collapse)
    from recv_checked [OF this] gone show ?thesis
      by (auto simp: checked_def peer_allows_ip_def split: option.splits)
  qed
  ultimately show ?thesis by blast
qed

theorem removed_peer_cut_off_witness:
  "fst (send_authorized cidr_parser cidr_ops example_tunn (\<lambda>_ _. True) (\<lambda>_. []) 0 (example_policy ''*:*'')
      (from_node ''n'' (V4 [100, 64, 0, 1])) example_packet
      (example_router\<lparr>pr_manager := snd (remove_peer cidr_ops ''a'' example_manager)\<rparr>))
     \<noteq> Inr (Allow ''a'')"
proof -
  have "remove_peer cidr_ops ''a'' example_manager = (Inr (), snd (remove_peer cidr_ops ''a'' example_manager))"
    by (simp add: remove_peer_def example_manager_def add_peer_def Let_def)
  then have "remove_peer cidr_ops ''a'' example_manager =
      (Inr (), pr_manager (example_router\<lparr>pr_manager := snd (remove_peer cidr_ops ''a'' example_manager)\<rparr>))"
    by simp
  from removed_peer_cut_off [OF this] show ?thesis by blast
qed


end
