(* ===== verification/Json_Scanner.thy ===== *)
theory Json_Scanner
  imports Std_Net
begin

text \<open>
  The scanner of \<open>headscale-api-acl/src/go_json/scanner.rs\<close> that validates JSON texts before they are
  decoded: an automaton over bytes with a stack of open containers. A byte slice is a list of
  characters, one per byte; the stack has its top first. A panic is \<open>None\<close>. The quotation of
  a string in Go syntax (\<open>go_strconv::quote\<close>), used in error texts only, is an argument.
  A step hands its byte from state to state at most three times, which is its termination measure.
\<close>

section \<open>The scanner\<close>

datatype scan_state =
    BeginValue | BeginValueOrEmpty | BeginString | BeginStringOrEmpty | InString | Escape
  | Unicode u8 | Negative | Zero | Integer | Dot | Fraction | Exponent | ExponentSign
  | ExponentDigits | Literal string nat | EndValue | EndTop

datatype frame = ObjectKey | ObjectValue | ArrayValue

record scanner =
  sc_state :: scan_state
  sc_frames :: "frame list"
  sc_end_top :: bool

definition scanner_default :: scanner where
  "scanner_default = \<lparr>sc_state = BeginValue, sc_frames = [], sc_end_top = False\<rparr>"

definition space :: "char \<Rightarrow> bool" where
  "space b \<longleftrightarrow> b = CHR '' '' \<or> b = CHR 0x09 \<or> b = CHR 0x0D \<or> b = CHR 0x0A"

text \<open>\<open>char::from\<close> of a byte as a string: its encoding in UTF-8.\<close>

definition char_from :: "char \<Rightarrow> string" where
  "char_from b = (if byte b < 128 then [b] else [char_of (192 + byte b div 64), char_of (128 + byte b mod 64)])"

definition error :: "(string \<Rightarrow> string) \<Rightarrow> char \<Rightarrow> string \<Rightarrow> string" where
  "error quote b ctx =
     ''invalid character '' @
     (if b = CHR 0x27 then [CHR 0x27, CHR 0x5C, CHR 0x27, CHR 0x27]
      else if b = CHR 0x22 then [CHR 0x27, CHR 0x5C, CHR 0x22, CHR 0x27]
      else [CHR 0x27] @ butlast (tl (quote (char_from b))) @ [CHR 0x27]) @
     '' '' @ ctx"

type_synonym scan_result = "((string, unit) result \<times> scanner) option"

definition stay :: "scan_state \<Rightarrow> frame list \<Rightarrow> bool \<Rightarrow> scan_result" where
  "stay st F e = Some (Inr (), \<lparr>sc_state = st, sc_frames = F, sc_end_top = e\<rparr>)"

definition fail :: "scan_state \<Rightarrow> frame list \<Rightarrow> bool \<Rightarrow> string \<Rightarrow> scan_result" where
  "fail st F e msg = Some (Inl msg, \<lparr>sc_state = st, sc_frames = F, sc_end_top = e\<rparr>)"

text \<open>\<open>push\<close> leaves the frame on the stack when the depth is exceeded, and the state as it was.\<close>

definition push :: "(string \<Rightarrow> string) \<Rightarrow> char \<Rightarrow> frame \<Rightarrow> scan_state \<Rightarrow> scan_state \<Rightarrow> frame list \<Rightarrow> bool \<Rightarrow> scan_result" where
  "push quote b f old new F e =
     (if length (f # F) > 10000 then fail old (f # F) e (error quote b ''exceeded max depth'')
      else stay new (f # F) e)"

definition pop :: "frame list \<Rightarrow> bool \<Rightarrow> scan_result" where
  "pop F e = (if tl F = [] then stay EndTop (tl F) True else stay EndValue (tl F) e)"

definition digit1_9 :: "char \<Rightarrow> bool" where
  "digit1_9 b \<longleftrightarrow> is_ascii_digit b \<and> b \<noteq> CHR ''0''"

text \<open>A state hands its byte on at most three times.\<close>

fun rank :: "scan_state \<Rightarrow> nat" where
  "rank Integer = 3"
| "rank Zero = 2"
| "rank Fraction = 2"
| "rank ExponentDigits = 2"
| "rank BeginValueOrEmpty = 2"
| "rank BeginStringOrEmpty = 2"
| "rank EndValue = 1"
| "rank Exponent = 1"
| "rank _ = 0"

text \<open>The loop of \<open>step\<close>, the fields of the scanner as arguments.\<close>

function step_loop :: "(string \<Rightarrow> string) \<Rightarrow> char \<Rightarrow> frame list \<Rightarrow> bool \<Rightarrow> scan_state \<Rightarrow> scan_result" where
  "step_loop quote b F e BeginValueOrEmpty =
     (if space b then stay BeginValueOrEmpty F e
      else if b = CHR '']'' then step_loop quote b F e EndValue
      else step_loop quote b F e BeginValue)"
| "step_loop quote b F e BeginValue =
     (if space b then stay BeginValue F e
      else if b = CHR ''{'' then push quote b ObjectKey BeginValue BeginStringOrEmpty F e
      else if b = CHR ''['' then push quote b ArrayValue BeginValue BeginValueOrEmpty F e
      else if b = CHR 0x22 then stay InString F e
      else if b = CHR ''-'' then stay Negative F e
      else if b = CHR ''0'' then stay Zero F e
      else if digit1_9 b then stay Integer F e
      else if b = CHR ''t'' then stay (Literal ''true'' 1) F e
      else if b = CHR ''f'' then stay (Literal ''false'' 1) F e
      else if b = CHR ''n'' then stay (Literal ''null'' 1) F e
      else fail BeginValue F e (error quote b ''looking for beginning of value''))"
| "step_loop quote b F e BeginStringOrEmpty =
     (if space b then stay BeginStringOrEmpty F e
      else if b = CHR ''}'' then
        (case F of [] \<Rightarrow> None | f # F' \<Rightarrow> step_loop quote b (ObjectValue # F') e EndValue)
      else step_loop quote b F e BeginString)"
| "step_loop quote b F e BeginString =
     (if space b then stay BeginString F e
      else if b \<noteq> CHR 0x22 then
        fail BeginString F e (error quote b ''looking for beginning of object key string'')
      else stay InString F e)"
| "step_loop quote b F e InString =
     (if b = CHR 0x22 then stay EndValue F e
      else if b = CHR 0x5C then stay Escape F e
      else if byte b \<le> 0x1f then fail InString F e (error quote b ''in string literal'')
      else stay InString F e)"
| "step_loop quote b F e Escape =
     (if b \<in> {CHR ''b'', CHR ''f'', CHR ''n'', CHR ''r'', CHR ''t'', CHR 0x5C, CHR ''/'', CHR 0x22}
      then stay InString F e
      else if b = CHR ''u'' then stay (Unicode 4) F e
      else fail Escape F e (error quote b ''in string escape code''))"
| "step_loop quote b F e (Unicode remaining) =
     (if hex_value b = None then
        fail (Unicode remaining) F e (error quote b (''in '' @ [CHR 0x5C] @ ''u hexadecimal character escape''))
      else if remaining = 1 then stay InString F e
      else stay (Unicode (remaining - 1)) F e)"
| "step_loop quote b F e Negative =
     (if b = CHR ''0'' then stay Zero F e
      else if digit1_9 b then stay Integer F e
      else fail Negative F e (error quote b ''in numeric literal''))"
| "step_loop quote b F e Integer =
     (if is_ascii_digit b then stay Integer F e else step_loop quote b F e Zero)"
| "step_loop quote b F e Zero =
     (if b = CHR ''.'' then stay Dot F e
      else if b = CHR ''e'' \<or> b = CHR ''E'' then stay Exponent F e
      else step_loop quote b F e EndValue)"
| "step_loop quote b F e Dot =
     (if \<not> is_ascii_digit b then fail Dot F e (error quote b ''after decimal point in numeric literal'')
      else stay Fraction F e)"
| "step_loop quote b F e Fraction =
     (if is_ascii_digit b then stay Fraction F e
      else if b = CHR ''e'' \<or> b = CHR ''E'' then stay Exponent F e
      else step_loop quote b F e EndValue)"
| "step_loop quote b F e Exponent =
     (if b = CHR ''+'' \<or> b = CHR ''-'' then stay ExponentSign F e
      else step_loop quote b F e ExponentSign)"
| "step_loop quote b F e ExponentSign =
     (if \<not> is_ascii_digit b then fail ExponentSign F e (error quote b ''in exponent of numeric literal'')
      else stay ExponentDigits F e)"
| "step_loop quote b F e ExponentDigits =
     (if is_ascii_digit b then stay ExponentDigits F e else step_loop quote b F e EndValue)"
| "step_loop quote b F e (Literal literal next) =
     (if \<not> next < length literal then None
      else if b \<noteq> literal ! next then
        fail (Literal literal next) F e
          (error quote b (''in literal '' @ literal @ '' (expecting '' @ [CHR 0x27, literal ! next, CHR 0x27] @ '')''))
      else if next + 1 = length literal then stay EndValue F e
      else stay (Literal literal (next + 1)) F e)"
| "step_loop quote b F e EndValue =
     (case F of
        [] \<Rightarrow> step_loop quote b F True EndTop
      | f # F' \<Rightarrow>
          if space b then stay EndValue F e
          else (case f of
             ObjectKey \<Rightarrow>
               if b = CHR '':'' then stay BeginValue (ObjectValue # F') e
               else fail EndValue F e (error quote b ''after object key'')
           | ObjectValue \<Rightarrow>
               if b = CHR '','' then stay BeginString (ObjectKey # F') e
               else if b = CHR ''}'' then pop F e
               else fail EndValue F e (error quote b ''after object key:value pair'')
           | ArrayValue \<Rightarrow>
               if b = CHR '','' then stay BeginValue F e
               else if b = CHR '']'' then pop F e
               else fail EndValue F e (error quote b ''after array element'')))"
| "step_loop quote b F e EndTop =
     (if space b then stay EndTop F e
      else fail EndTop F e (error quote b ''after top-level value''))"
  by pat_completeness auto

termination
  by (relation "measure (\<lambda>(quote, b, F, e, st). rank st)") auto

definition step :: "(string \<Rightarrow> string) \<Rightarrow> char \<Rightarrow> scanner \<Rightarrow> scan_result" where
  "step quote b s = step_loop quote b (sc_frames s) (sc_end_top s) (sc_state s)"

fun step_all :: "(string \<Rightarrow> string) \<Rightarrow> string \<Rightarrow> scanner \<Rightarrow> scan_result" where
  "step_all quote [] s = Some (Inr (), s)"
| "step_all quote (b # bs) s =
     (case step quote b s of
        Some (Inr _, s') \<Rightarrow> step_all quote bs s'
      | r \<Rightarrow> r)"

definition check_valid :: "(string \<Rightarrow> string) \<Rightarrow> string \<Rightarrow> (string, unit) result option" where
  "check_valid quote bytes =
     (case step_all quote bytes scanner_default of
        None \<Rightarrow> None
      | Some (Inl msg, _) \<Rightarrow> Some (Inl msg)
      | Some (Inr _, s) \<Rightarrow>
          if sc_end_top s then Some (Inr ())
          else (case step quote (CHR '' '') s of
             None \<Rightarrow> None
           | Some (Inl msg, _) \<Rightarrow> Some (Inl msg)
           | Some (Inr _, s') \<Rightarrow>
               if sc_end_top s' then Some (Inr ()) else Some (Inl ''unexpected end of JSON input'')))"

text \<open>The loop of \<open>first_raw_value\<close> with the bytes of the value so far, then its start.\<close>

fun raw_loop :: "(string \<Rightarrow> string) \<Rightarrow> string \<Rightarrow> string \<Rightarrow> scanner \<Rightarrow> (string, string option) result option" where
  "raw_loop quote seen [] s =
     (case step quote (CHR '' '') s of
        None \<Rightarrow> None
      | Some (_, s') \<Rightarrow> if sc_end_top s' then Some (Inr (Some seen)) else Some (Inl ''unexpected EOF''))"
| "raw_loop quote seen (b # bs) s =
     (let inside_container = sc_frames s \<noteq> [] in
      case step quote b s of
        None \<Rightarrow> None
      | Some (r, s') \<Rightarrow>
          if sc_end_top s' then Some (Inr (Some (if inside_container then seen @ [b] else seen)))
          else (case r of Inl msg \<Rightarrow> Some (Inl msg) | Inr _ \<Rightarrow> raw_loop quote (seen @ [b]) bs s'))"

definition first_raw_value :: "(string \<Rightarrow> string) \<Rightarrow> string \<Rightarrow> (string, string option) result option" where
  "first_raw_value quote bytes =
     (case dropWhile space bytes of
        [] \<Rightarrow> Some (Inr None)
      | rest \<Rightarrow> raw_loop quote [] rest scanner_default)"

end
