(* ===== verification/Json_Grammar.thy ===== *)
theory Json_Grammar
  imports Json_Scanner
begin

text \<open>
  The JSON grammar as an inductive definition, and the soundness of the scanner of
  \<open>headscale-api-acl/src/go_json/scanner.rs\<close> for it. What the scanner has read is described by its state
  and its stack; one lemma per group of states shows that a step keeps the description and does not
  panic, and a last one that the end mark is set only when a value has ended.
\<close>

section \<open>The grammar\<close>

definition ws :: "string \<Rightarrow> bool" where
  "ws w \<longleftrightarrow> list_all space w"

definition digits :: "string \<Rightarrow> bool" where
  "digits ds \<longleftrightarrow> ds \<noteq> [] \<and> list_all is_ascii_digit ds"

inductive json_integer :: "string \<Rightarrow> bool" where
  int_zero: "json_integer ''0''"
| int_pos: "digit1_9 d \<Longrightarrow> list_all is_ascii_digit ds \<Longrightarrow> json_integer (d # ds)"

inductive json_mantissa :: "string \<Rightarrow> bool" where
  mant_int: "json_integer i \<Longrightarrow> json_mantissa i"
| mant_neg: "json_integer i \<Longrightarrow> json_mantissa (CHR ''-'' # i)"

inductive json_fraction :: "string \<Rightarrow> bool" where
  frac_none: "json_mantissa m \<Longrightarrow> json_fraction m"
| frac_some: "json_mantissa m \<Longrightarrow> digits ds \<Longrightarrow> json_fraction (m @ CHR ''.'' # ds)"

definition exp_mark :: "char \<Rightarrow> bool" where
  "exp_mark b \<longleftrightarrow> b = CHR ''e'' \<or> b = CHR ''E''"

definition exp_sign :: "string \<Rightarrow> bool" where
  "exp_sign s \<longleftrightarrow> s \<in> {[], ''+'', ''-''}"

inductive json_number :: "string \<Rightarrow> bool" where
  num_plain: "json_fraction m \<Longrightarrow> json_number m"
| num_exp: "json_fraction m \<Longrightarrow> exp_mark c \<Longrightarrow> exp_sign s \<Longrightarrow> digits ds \<Longrightarrow> json_number (m @ c # s @ ds)"

definition plain_char :: "char \<Rightarrow> bool" where
  "plain_char b \<longleftrightarrow> b \<noteq> CHR 0x22 \<and> b \<noteq> CHR 0x5C \<and> 0x1f < byte b"

definition escape_char :: "char \<Rightarrow> bool" where
  "escape_char b \<longleftrightarrow> b \<in> {CHR ''b'', CHR ''f'', CHR ''n'', CHR ''r'', CHR ''t'', CHR 0x5C, CHR ''/'', CHR 0x22}"

definition hex_char :: "char \<Rightarrow> bool" where
  "hex_char b \<longleftrightarrow> hex_value b \<noteq> None"

inductive json_chars :: "string \<Rightarrow> bool" where
  chars_nil: "json_chars []"
| chars_plain: "json_chars cs \<Longrightarrow> plain_char b \<Longrightarrow> json_chars (cs @ [b])"
| chars_escape: "json_chars cs \<Longrightarrow> escape_char b \<Longrightarrow> json_chars (cs @ [CHR 0x5C, b])"
| chars_unicode: "json_chars cs \<Longrightarrow> list_all hex_char hs \<Longrightarrow> length hs = 4 \<Longrightarrow>
    json_chars (cs @ [CHR 0x5C, CHR ''u''] @ hs)"

definition json_string :: "string \<Rightarrow> bool" where
  "json_string t \<longleftrightarrow> (\<exists>cs. t = CHR 0x22 # cs @ [CHR 0x22] \<and> json_chars cs)"

text \<open>A value that nests at most \<open>d\<close> containers; the elements of an array and the members of an
  object, each with the space around them.\<close>

inductive json_value :: "nat \<Rightarrow> string \<Rightarrow> bool"
  and json_elements :: "nat \<Rightarrow> string \<Rightarrow> bool"
  and json_members :: "nat \<Rightarrow> string \<Rightarrow> bool" where
  value_string: "json_string t \<Longrightarrow> json_value d t"
| value_number: "json_number t \<Longrightarrow> json_value d t"
| value_literal: "t \<in> {''true'', ''false'', ''null''} \<Longrightarrow> json_value d t"
| value_array0: "ws w \<Longrightarrow> json_value (Suc d) (CHR ''['' # w @ '']'')"
| value_array: "json_elements d es \<Longrightarrow> json_value (Suc d) (CHR ''['' # es @ '']'')"
| value_object0: "ws w \<Longrightarrow> json_value (Suc d) (CHR ''{'' # w @ ''}'')"
| value_object: "json_members d ms \<Longrightarrow> json_value (Suc d) (CHR ''{'' # ms @ ''}'')"
| elements_one: "ws w \<Longrightarrow> json_value d v \<Longrightarrow> ws w' \<Longrightarrow> json_elements d (w @ v @ w')"
| elements_more: "json_elements d es \<Longrightarrow> ws w \<Longrightarrow> json_value d v \<Longrightarrow> ws w' \<Longrightarrow>
    json_elements d (es @ '','' @ w @ v @ w')"
| members_one: "ws w \<Longrightarrow> json_string k \<Longrightarrow> ws w1 \<Longrightarrow> ws w2 \<Longrightarrow> json_value d v \<Longrightarrow> ws w3 \<Longrightarrow>
    json_members d (w @ k @ w1 @ '':'' @ w2 @ v @ w3)"
| members_more: "json_members d ms \<Longrightarrow> ws w \<Longrightarrow> json_string k \<Longrightarrow> ws w1 \<Longrightarrow> ws w2 \<Longrightarrow> json_value d v \<Longrightarrow>
    ws w3 \<Longrightarrow> json_members d (ms @ '','' @ w @ k @ w1 @ '':'' @ w2 @ v @ w3)"

definition json_text :: "string \<Rightarrow> bool" where
  "json_text t \<longleftrightarrow> (\<exists>w v w'. t = w @ v @ w' \<and> ws w \<and> json_value 10000 v \<and> ws w')"

section \<open>What has been read\<close>

text \<open>The part of a token that a state has read, by state.\<close>

definition signed :: "string \<Rightarrow> bool" where
  "signed s \<longleftrightarrow> s \<in> {[], ''-''}"

fun token :: "scan_state \<Rightarrow> string \<Rightarrow> bool" where
  "token Negative t \<longleftrightarrow> t = ''-''"
| "token Zero t \<longleftrightarrow> json_mantissa t"
| "token Integer t \<longleftrightarrow>
     (\<exists>s d ds. t = s @ d # ds \<and> signed s \<and> digit1_9 d \<and> list_all is_ascii_digit ds)"
| "token Dot t \<longleftrightarrow> (\<exists>m. t = m @ ''.'' \<and> json_mantissa m)"
| "token Fraction t \<longleftrightarrow> (\<exists>m ds. t = m @ CHR ''.'' # ds \<and> json_mantissa m \<and> digits ds)"
| "token Exponent t \<longleftrightarrow> (\<exists>m c. t = m @ [c] \<and> json_fraction m \<and> exp_mark c)"
| "token ExponentSign t \<longleftrightarrow> (\<exists>m c s. t = m @ c # s \<and> json_fraction m \<and> exp_mark c \<and> exp_sign s)"
| "token ExponentDigits t \<longleftrightarrow>
     (\<exists>m c s ds. t = m @ c # s @ ds \<and> json_fraction m \<and> exp_mark c \<and> exp_sign s \<and> digits ds)"
| "token InString t \<longleftrightarrow> (\<exists>cs. t = CHR 0x22 # cs \<and> json_chars cs)"
| "token Escape t \<longleftrightarrow> (\<exists>cs. t = CHR 0x22 # cs @ [CHR 0x5C] \<and> json_chars cs)"
| "token (Unicode n) t \<longleftrightarrow> (\<exists>cs hs. t = CHR 0x22 # cs @ [CHR 0x5C, CHR ''u''] @ hs \<and> json_chars cs \<and>
     list_all hex_char hs \<and> unat n + length hs = 4 \<and> 0 < unat n)"
| "token (Literal l n) t \<longleftrightarrow> l \<in> {''true'', ''false'', ''null''} \<and> t = take n l \<and> 0 < n \<and> n < length l"
| "token _ t \<longleftrightarrow> False"

fun in_string :: "scan_state \<Rightarrow> bool" where
  "in_string InString = True"
| "in_string Escape = True"
| "in_string (Unicode n) = True"
| "in_string _ = False"

text \<open>The containers that are open: what a frame has read when the next value or key may begin, and
  when one has just ended.\<close>

definition takes_value :: "frame list \<Rightarrow> bool" where
  "takes_value F \<longleftrightarrow> F = [] \<or> hd F \<noteq> ObjectKey"

fun opener :: "frame \<Rightarrow> char" where
  "opener ArrayValue = CHR ''[''"
| "opener _ = CHR ''{''"

definition key_ready :: "nat \<Rightarrow> string \<Rightarrow> bool" where
  "key_ready d c \<longleftrightarrow> ws c \<or> (\<exists>ms w. c = ms @ '','' @ w \<and> json_members d ms \<and> ws w)"

fun content_ready :: "nat \<Rightarrow> frame \<Rightarrow> string \<Rightarrow> bool" where
  "content_ready d ArrayValue c \<longleftrightarrow> ws c \<or> (\<exists>es w. c = es @ '','' @ w \<and> json_elements d es \<and> ws w)"
| "content_ready d ObjectKey c \<longleftrightarrow> key_ready d c"
| "content_ready d ObjectValue c \<longleftrightarrow>
     (\<exists>c0 k w w'. c = c0 @ k @ w @ '':'' @ w' \<and> key_ready d c0 \<and> json_string k \<and> ws w \<and> ws w')"

fun content_ended :: "nat \<Rightarrow> frame \<Rightarrow> string \<Rightarrow> bool" where
  "content_ended d ArrayValue c \<longleftrightarrow> json_elements d c"
| "content_ended d ObjectKey c \<longleftrightarrow> (\<exists>c0 k w. c = c0 @ k @ w \<and> key_ready d c0 \<and> json_string k \<and> ws w)"
| "content_ended d ObjectValue c \<longleftrightarrow> json_members d c"

definition room :: "frame list \<Rightarrow> nat" where
  "room F = 10000 - length F"

fun ready :: "frame list \<Rightarrow> string \<Rightarrow> bool" where
  "ready [] q \<longleftrightarrow> ws q"
| "ready (f # F) q \<longleftrightarrow> length F < 10000 \<and> takes_value F \<and>
     (\<exists>p c. q = p @ opener f # c \<and> ready F p \<and> content_ready (room (f # F)) f c)"

definition json_head :: "string \<Rightarrow> bool" where
  "json_head q \<longleftrightarrow> (\<exists>w v. q = w @ v \<and> ws w \<and> json_value 10000 v)"

fun ended :: "frame list \<Rightarrow> string \<Rightarrow> bool" where
  "ended [] q \<longleftrightarrow> json_head q"
| "ended (f # F) q \<longleftrightarrow> length F < 10000 \<and> takes_value F \<and>
     (\<exists>p c. q = p @ opener f # c \<and> ready F p \<and> content_ended (room (f # F)) f c)"

definition fresh :: "frame list \<Rightarrow> string \<Rightarrow> bool" where
  "fresh F q \<longleftrightarrow> F \<noteq> [] \<and> length (tl F) < 10000 \<and> takes_value (tl F) \<and>
     (\<exists>p w. q = p @ opener (hd F) # w \<and> ready (tl F) p \<and> ws w)"

fun reading :: "scan_state \<Rightarrow> frame list \<Rightarrow> string \<Rightarrow> bool" where
  "reading BeginValue F q \<longleftrightarrow> ready F q \<and> takes_value F"
| "reading BeginValueOrEmpty F q \<longleftrightarrow> fresh F q \<and> hd F = ArrayValue"
| "reading BeginString F q \<longleftrightarrow> ready F q \<and> F \<noteq> [] \<and> hd F = ObjectKey"
| "reading BeginStringOrEmpty F q \<longleftrightarrow> fresh F q \<and> hd F = ObjectKey"
| "reading EndValue F q \<longleftrightarrow> ended F q"
| "reading EndTop F q \<longleftrightarrow> F = [] \<and> json_text q"
| "reading st F q \<longleftrightarrow> (\<exists>p t. q = p @ t \<and> ready F p \<and> token st t \<and> (takes_value F \<or> in_string st))"

definition scanned :: "scanner \<Rightarrow> string \<Rightarrow> bool" where
  "scanned s q \<longleftrightarrow> reading (sc_state s) (sc_frames s) q \<and> (sc_end_top s \<longleftrightarrow> sc_state s = EndTop)"

lemma ws_simps [simp]: "ws []" "ws (b # w) \<longleftrightarrow> space b \<and> ws w" "ws (w @ w') \<longleftrightarrow> ws w \<and> ws w'"
  by (simp_all add: ws_def)

lemma room_Cons: "length F < 10000 \<Longrightarrow> room F = Suc (room (f # F))"
  by (simp add: room_def)

lemma json_text_space: "json_text q \<Longrightarrow> space b \<Longrightarrow> json_text (q @ [b])"
  unfolding json_text_def
proof (elim exE conjE)
  fix w v w' assume "q = w @ v @ w'" "ws w" "json_value 10000 v" "ws w'" "space b"
  then show "\<exists>w v w'. q @ [b] = w @ v @ w' \<and> ws w \<and> json_value 10000 v \<and> ws w'"
    by (intro exI [of _ w] exI [of _ v] exI [of _ "w' @ [b]"]) simp
qed

lemma elements_space: "json_elements d c \<Longrightarrow> ws u \<Longrightarrow> json_elements d (c @ u)"
proof (erule json_elements.cases)
  fix w d' v w' assume "d = d'" "c = w @ v @ w'" "ws w" "json_value d' v" "ws w'" "ws u"
  then show ?thesis using elements_one [of w d v "w' @ u"] by simp
next
  fix d' es w v w' assume "d = d'" "c = es @ '','' @ w @ v @ w'" "json_elements d' es" "ws w"
    "json_value d' v" "ws w'" "ws u"
  then show ?thesis using elements_more [of d es w v "w' @ u"] by simp
qed

lemma members_space: "json_members d c \<Longrightarrow> ws u \<Longrightarrow> json_members d (c @ u)"
proof (erule json_members.cases)
  fix w k w1 w2 d' v w3 assume "d = d'" "c = w @ k @ w1 @ '':'' @ w2 @ v @ w3" "ws w" "json_string k"
    "ws w1" "ws w2" "json_value d' v" "ws w3" "ws u"
  then show ?thesis using members_one [of w k w1 w2 d v "w3 @ u"] by simp
next
  fix d' ms w k w1 w2 v w3 assume "d = d'" "c = ms @ '','' @ w @ k @ w1 @ '':'' @ w2 @ v @ w3"
    "json_members d' ms" "ws w" "json_string k" "ws w1" "ws w2" "json_value d' v" "ws w3" "ws u"
  then show ?thesis using members_more [of d ms w k w1 w2 v "w3 @ u"] by simp
qed

section \<open>A step keeps the description\<close>

lemma json_textI: "ws w \<Longrightarrow> json_value 10000 v \<Longrightarrow> ws w' \<Longrightarrow> json_text (w @ v @ w')"
  unfolding json_text_def by blast

lemma json_headI: "ws w \<Longrightarrow> json_value 10000 v \<Longrightarrow> json_head (w @ v)"
  unfolding json_head_def by blast

lemma json_head_text: "json_head q \<Longrightarrow> ws u \<Longrightarrow> json_text (q @ u)"
  using json_textI [of _ _ u] by (auto simp: json_head_def)

lemma key_readyI: "json_members d ms \<Longrightarrow> ws w \<Longrightarrow> key_ready d (ms @ '','' @ w)"
  unfolding key_ready_def by blast

lemma array_readyI: "json_elements d es \<Longrightarrow> ws w \<Longrightarrow> content_ready d ArrayValue (es @ '','' @ w)"
  unfolding content_ready.simps by blast

lemma value_readyI:
  "key_ready d c \<Longrightarrow> json_string k \<Longrightarrow> ws w \<Longrightarrow> ws w' \<Longrightarrow> content_ready d ObjectValue (c @ k @ w @ '':'' @ w')"
  unfolding content_ready.simps by blast

lemma key_endedI: "key_ready d c \<Longrightarrow> json_string k \<Longrightarrow> ws w \<Longrightarrow> content_ended d ObjectKey (c @ k @ w)"
  unfolding content_ended.simps by blast

lemma readyI:
  "length F < 10000 \<Longrightarrow> takes_value F \<Longrightarrow> ready F p \<Longrightarrow> content_ready (room (f # F)) f c \<Longrightarrow>
   ready (f # F) (p @ opener f # c)"
  unfolding ready.simps by blast

lemma endedI:
  "length F < 10000 \<Longrightarrow> takes_value F \<Longrightarrow> ready F p \<Longrightarrow> content_ended (room (f # F)) f c \<Longrightarrow>
   ended (f # F) (p @ opener f # c)"
  unfolding ended.simps by blast

lemma freshI:
  "length F < 10000 \<Longrightarrow> takes_value F \<Longrightarrow> ready F p \<Longrightarrow> ws w \<Longrightarrow> fresh (f # F) (p @ opener f # w)"
  unfolding fresh_def list.sel by blast

lemma ready_space: "ready F q \<Longrightarrow> space b \<Longrightarrow> ready F (q @ [b])"
proof (cases F)
  case (Cons f F')
  assume "ready F q" and b: "space b"
  with Cons obtain p c where q: "q = p @ opener f # c" "ready F' p" "content_ready (room F) f c"
      and F': "length F' < 10000" "takes_value F'" by auto
  have "content_ready (room F) f (c @ [b])"
  proof (cases f)
    case ArrayValue
    with q(3) consider "ws c" | es w where "c = es @ '','' @ w" "json_elements (room F) es" "ws w" by auto
    then show ?thesis
    proof cases
      case 2
      then show ?thesis using b ArrayValue array_readyI [of "room F" es "w @ [b]"] by simp
    qed (use b ArrayValue in auto)
  next
    case ObjectKey
    with q(3) consider "ws c" | ms w where "c = ms @ '','' @ w" "json_members (room F) ms" "ws w"
      by (auto simp: key_ready_def)
    then show ?thesis
    proof cases
      case 2
      then show ?thesis using b ObjectKey key_readyI [of "room F" ms "w @ [b]"] by simp
    qed (use b ObjectKey in \<open>auto simp: key_ready_def\<close>)
  next
    case ObjectValue
    with q(3) obtain c0 k w w' where "c = c0 @ k @ w @ '':'' @ w'" "key_ready (room F) c0"
      "json_string k" "ws w" "ws w'" by auto
    then show ?thesis using b ObjectValue value_readyI [of "room F" c0 k w "w' @ [b]"] by simp
  qed
  then show ?thesis using q F' Cons readyI [of F' p f "c @ [b]"] by simp
qed simp

lemma fresh_space: "fresh F q \<Longrightarrow> space b \<Longrightarrow> fresh F (q @ [b])"
  using freshI [of "tl F" _ "_ @ [b]" "hd F"] by (auto simp: fresh_def)

lemma fresh_ready: "fresh F q \<Longrightarrow> hd F \<noteq> ObjectValue \<Longrightarrow> ready F q"
  by (cases F; cases "hd F") (auto simp: fresh_def key_ready_def)

lemma ended_space: "F \<noteq> [] \<Longrightarrow> ended F q \<Longrightarrow> space b \<Longrightarrow> ended F (q @ [b])"
proof (cases F)
  case (Cons f F')
  assume "ended F q" and b: "space b"
  with Cons obtain p c where q: "q = p @ opener f # c" "ready F' p" "content_ended (room F) f c"
      and F': "length F' < 10000" "takes_value F'" by auto
  have "content_ended (room F) f (c @ [b])"
    using q(3) b
  proof (cases f)
    case ObjectKey
    with q(3) obtain c0 k w where "c = c0 @ k @ w" "key_ready (room F) c0" "json_string k" "ws w" by auto
    then show ?thesis using b ObjectKey key_endedI [of "room F" c0 k "w @ [b]"] by simp
  qed (auto intro: elements_space members_space)
  then show ?thesis using q F' Cons endedI [of F' p f "c @ [b]"] by simp
qed simp

text \<open>A value, or a key, where one may begin ends it.\<close>

lemma value_ends:
  assumes "ready F p" "takes_value F" "json_value (room F) v"
  shows "ended F (p @ v)"
proof (cases F)
  case Nil
  with assms show ?thesis
    using json_headI [of p v] by (simp add: room_def)
next
  case (Cons f F')
  with assms(1) obtain p' c where q: "p = p' @ opener f # c" "ready F' p'" "content_ready (room F) f c"
      and F': "length F' < 10000" "takes_value F'" by auto
  have "content_ended (room F) f (c @ v)"
  proof (cases f)
    case ArrayValue
    with q(3) consider "ws c" | es w where "c = es @ '','' @ w" "json_elements (room F) es" "ws w" by auto
    then show ?thesis
      using ArrayValue assms(3) elements_one [of c "room F" v "[]"] elements_more [of "room F" _ _ v "[]"]
      by cases auto
  next
    case ObjectValue
    with q(3) obtain c0 k w w' where c: "c = c0 @ k @ w @ '':'' @ w'" "key_ready (room F) c0"
      "json_string k" "ws w" "ws w'" by auto
    from c(2) consider "ws c0" | ms u where "c0 = ms @ '','' @ u" "json_members (room F) ms" "ws u"
      by (auto simp: key_ready_def)
    then show ?thesis
      using ObjectValue c assms(3) members_one [of c0 k w w' "room F" v "[]"]
        members_more [of "room F" _ _ k w w' v "[]"]
      by cases auto
  next
    case ObjectKey
    with assms(2) Cons show ?thesis by (simp add: takes_value_def)
  qed
  then show ?thesis using q F' Cons endedI [of F' p' f "c @ v"] by simp
qed

lemma string_ends:
  assumes "ready F p" "json_string v"
  shows "ended F (p @ v)"
proof (cases "takes_value F")
  case True
  with assms show ?thesis by (auto intro: value_ends value_string)
next
  case False
  then obtain F' where F: "F = ObjectKey # F'" by (cases F) (auto simp: takes_value_def)
  with assms obtain p' c where "p = p' @ opener ObjectKey # c" "ready F' p'" "key_ready (room F) c"
      "length F' < 10000" "takes_value F'" by auto
  then show ?thesis
    using F assms(2) key_endedI [of "room F" c v "[]"] endedI [of F' p' ObjectKey "c @ v"] by simp
qed

lemma container_ends:
  assumes "length F < 10000" "takes_value F" "ready F p"
    and "f = ArrayValue \<and> b = CHR '']'' \<and> (ws c \<or> json_elements (room (f # F)) c) \<or>
      f \<noteq> ArrayValue \<and> b = CHR ''}'' \<and> (ws c \<or> json_members (room (f # F)) c)"
  shows "ended F ((p @ opener f # c) @ [b])"
proof -
  have "json_value (room F) (opener f # c @ [b])"
    using assms(4) unfolding room_Cons [OF assms(1), of f]
    by (cases f) (auto intro: value_array0 value_array value_object0 value_object)
  from value_ends [OF assms(3,2) this] show ?thesis by simp
qed

text \<open>A step is sound when it does not panic and, if it succeeds, describes one byte more.\<close>

definition sound :: "string \<Rightarrow> char \<Rightarrow> scan_result \<Rightarrow> bool" where
  "sound q b r \<longleftrightarrow> (case r of
      None \<Rightarrow> False
    | Some (Inl _, _) \<Rightarrow> True
    | Some (Inr _, s) \<Rightarrow> scanned s (q @ [b]))"

lemma sound_simps [simp]:
  "sound q b (stay st F e) \<longleftrightarrow> reading st F (q @ [b]) \<and> (e \<longleftrightarrow> st = EndTop)"
  "sound q b (fail st F e msg)"
  "sound q b (push quote b f old new F e) \<longleftrightarrow>
     (length F < 10000 \<longrightarrow> reading new (f # F) (q @ [b]) \<and> (e \<longleftrightarrow> new = EndTop))"
  by (auto simp: sound_def stay_def fail_def push_def scanned_def)

lemma sound_if [simp]:
  "sound q b (if P then r else r') \<longleftrightarrow> (P \<longrightarrow> sound q b r) \<and> (\<not> P \<longrightarrow> sound q b r')"
  by simp

lemma space_not [simp]:
  "\<not> space (CHR ''{'')" "\<not> space (CHR ''['')" "\<not> space (CHR ''}'')" "\<not> space (CHR '']'')"
  "\<not> space (CHR '','')" "\<not> space (CHR '':'')" "\<not> space (CHR 0x22)" "space (CHR '' '')"
  by (simp_all add: space_def)

lemma sound_pop:
  assumes "ended F (q @ [b])" "\<not> e"
  shows "sound q b (pop (f # F) e)"
  using assms json_head_text [of "q @ [b]" "[]"] by (cases F) (simp_all add: pop_def)

lemma sound_EndTop: "json_text q \<Longrightarrow> sound q b (step_loop quote b [] True EndTop)"
  by (simp add: json_text_space)

lemma sound_EndValue:
  assumes "ended F q"
  shows "sound q b (step_loop quote b F False EndValue)"
proof (cases F)
  case Nil
  with assms show ?thesis using json_head_text [of q "[b]"] by simp
next
  case (Cons f F')
  with assms obtain p c where q: "q = p @ opener f # c" "ready F' p" "content_ended (room F) f c"
      and F': "length F' < 10000" "takes_value F'" by auto
  show ?thesis
  proof (cases "space b")
    case True
    with assms Cons show ?thesis using ended_space [of F q b] by simp
  next
    case False
    show ?thesis
    proof (cases f)
      case ArrayValue
      have "ready F (q @ '','')"
        using q F' Cons ArrayValue readyI [of F' p f "c @ '',''"] array_readyI [of "room F" c "[]"] by simp
      moreover have "ended F' (q @ '']'')"
        using container_ends [OF F' q(2), of ArrayValue "CHR '']''" c] q Cons ArrayValue by simp
      ultimately show ?thesis
        using False Cons ArrayValue sound_pop [of F' q b False ArrayValue] by (auto simp: takes_value_def)
    next
      case ObjectKey
      with q obtain c0 k w where c: "c = c0 @ k @ w" "key_ready (room F) c0" "json_string k" "ws w" by auto
      have "ready (ObjectValue # F') (q @ '':'')"
        using q F' Cons ObjectKey c readyI [of F' p ObjectValue "c @ '':''"]
          value_readyI [of "room F" c0 k w "[]"] by (simp add: room_def)
      then show ?thesis using False Cons ObjectKey by (auto simp: takes_value_def)
    next
      case ObjectValue
      have "ready (ObjectKey # F') (q @ '','')"
        using q F' Cons ObjectValue readyI [of F' p ObjectKey "c @ '',''"] key_readyI [of "room F" c "[]"]
        by (simp add: room_def)
      moreover have "ended F' (q @ ''}'')"
        using container_ends [OF F' q(2), of ObjectValue "CHR ''}''" c] q Cons ObjectValue by simp
      ultimately show ?thesis
        using False Cons ObjectValue sound_pop [of F' q b False ObjectValue] by auto
    qed
  qed
qed

lemma digits_snoc: "list_all is_ascii_digit ds \<Longrightarrow> is_ascii_digit b \<Longrightarrow> digits (ds @ [b])"
  by (simp add: digits_def)

lemma digits_single: "is_ascii_digit b \<Longrightarrow> digits [b]"
  by (simp add: digits_def)

lemma mantissaI: "signed s \<Longrightarrow> json_integer i \<Longrightarrow> json_mantissa (s @ i)"
  by (auto simp: signed_def intro: json_mantissa.intros)

lemma integer_mantissa: "token Integer t \<Longrightarrow> json_mantissa t"
  by (auto intro!: mantissaI int_pos)

lemma mantissa_number: "json_mantissa t \<Longrightarrow> json_number t"
  by (intro num_plain frac_none)

lemma token_number:
  "token Zero t \<Longrightarrow> json_number t" "token Integer t \<Longrightarrow> json_number t"
  "token Fraction t \<Longrightarrow> json_number t" "token ExponentDigits t \<Longrightarrow> json_number t"
  using integer_mantissa
  by (auto intro: mantissa_number num_plain frac_some num_exp simp del: token.simps(3))

text \<open>The next byte of a token, by state.\<close>

lemma token_grows:
  "token Negative t \<Longrightarrow> b = CHR ''0'' \<Longrightarrow> token Zero (t @ [b])"
  "token Negative t \<Longrightarrow> digit1_9 b \<Longrightarrow> token Integer (t @ [b])"
  "token Integer t \<Longrightarrow> is_ascii_digit b \<Longrightarrow> token Integer (t @ [b])"
  "token Zero t \<Longrightarrow> b = CHR ''.'' \<Longrightarrow> token Dot (t @ [b])"
  "token Zero t \<Longrightarrow> exp_mark b \<Longrightarrow> token Exponent (t @ [b])"
  "token Dot t \<Longrightarrow> is_ascii_digit b \<Longrightarrow> token Fraction (t @ [b])"
  "token Fraction t \<Longrightarrow> is_ascii_digit b \<Longrightarrow> token Fraction (t @ [b])"
  "token Fraction t \<Longrightarrow> exp_mark b \<Longrightarrow> token Exponent (t @ [b])"
  "token Exponent t \<Longrightarrow> b = CHR ''+'' \<or> b = CHR ''-'' \<Longrightarrow> token ExponentSign (t @ [b])"
  "token Exponent t \<Longrightarrow> token ExponentSign t"
  "token ExponentSign t \<Longrightarrow> is_ascii_digit b \<Longrightarrow> token ExponentDigits (t @ [b])"
  "token ExponentDigits t \<Longrightarrow> is_ascii_digit b \<Longrightarrow> token ExponentDigits (t @ [b])"
proof -
  show "token Negative t \<Longrightarrow> b = CHR ''0'' \<Longrightarrow> token Zero (t @ [b])"
    by (simp add: mant_neg int_zero)
  show "token Negative t \<Longrightarrow> digit1_9 b \<Longrightarrow> token Integer (t @ [b])"
    by (auto simp: signed_def intro!: exI [of _ "''-''"])
  show "token Integer t \<Longrightarrow> is_ascii_digit b \<Longrightarrow> token Integer (t @ [b])" by fastforce
  show "token Zero t \<Longrightarrow> b = CHR ''.'' \<Longrightarrow> token Dot (t @ [b])" by simp
  show "token Zero t \<Longrightarrow> exp_mark b \<Longrightarrow> token Exponent (t @ [b])" by (auto intro: frac_none)
  show "token Dot t \<Longrightarrow> is_ascii_digit b \<Longrightarrow> token Fraction (t @ [b])" by (fastforce simp: digits_def)
  show "token Fraction t \<Longrightarrow> is_ascii_digit b \<Longrightarrow> token Fraction (t @ [b])" by (fastforce simp: digits_def)
  show "token Fraction t \<Longrightarrow> exp_mark b \<Longrightarrow> token Exponent (t @ [b])" by (fastforce intro: frac_some)
  show "token Exponent t \<Longrightarrow> b = CHR ''+'' \<or> b = CHR ''-'' \<Longrightarrow> token ExponentSign (t @ [b])"
    by (fastforce simp: exp_sign_def)
  show "token Exponent t \<Longrightarrow> token ExponentSign t" by (fastforce simp: exp_sign_def)
  show "token ExponentSign t \<Longrightarrow> is_ascii_digit b \<Longrightarrow> token ExponentDigits (t @ [b])"
    by (fastforce simp: digits_def)
  show "token ExponentDigits t \<Longrightarrow> is_ascii_digit b \<Longrightarrow> token ExponentDigits (t @ [b])"
    by (fastforce simp: digits_def)
qed

lemma string_grows:
  "token InString t \<Longrightarrow> b = CHR 0x22 \<Longrightarrow> json_string (t @ [b])"
  "token InString t \<Longrightarrow> b = CHR 0x5C \<Longrightarrow> token Escape (t @ [b])"
  "token InString t \<Longrightarrow> plain_char b \<Longrightarrow> token InString (t @ [b])"
  "token Escape t \<Longrightarrow> escape_char b \<Longrightarrow> token InString (t @ [b])"
  "token Escape t \<Longrightarrow> b = CHR ''u'' \<Longrightarrow> token (Unicode 4) (t @ [b])"
  "token (Unicode n) t \<Longrightarrow> hex_char b \<Longrightarrow> n \<noteq> 1 \<Longrightarrow> token (Unicode (n - 1)) (t @ [b])"
  "token (Unicode n) t \<Longrightarrow> hex_char b \<Longrightarrow> n = 1 \<Longrightarrow> token InString (t @ [b])"
proof -
  show "token InString t \<Longrightarrow> b = CHR 0x22 \<Longrightarrow> json_string (t @ [b])" by (auto simp: json_string_def)
  show "token InString t \<Longrightarrow> b = CHR 0x5C \<Longrightarrow> token Escape (t @ [b])" by auto
  show "token InString t \<Longrightarrow> plain_char b \<Longrightarrow> token InString (t @ [b])" by (auto intro: chars_plain)
  show "token Escape t \<Longrightarrow> escape_char b \<Longrightarrow> token InString (t @ [b])" by (auto intro: chars_escape)
  show "token Escape t \<Longrightarrow> b = CHR ''u'' \<Longrightarrow> token (Unicode 4) (t @ [b])" by auto
next
  assume t: "token (Unicode n) t" and b: "hex_char b"
  then obtain cs hs where u: "t = CHR 0x22 # cs @ [CHR 0x5C, CHR ''u''] @ hs" "json_chars cs"
    "list_all hex_char hs" "unat n + length hs = 4" "0 < unat n" by auto
  {
    assume "n \<noteq> 1"
    then have "unat (n - 1) = unat n - 1" "1 < unat n"
      using u(5) by (auto simp: unat_minus_one word_unat_eq_iff)
    then show "token (Unicode (n - 1)) (t @ [b])"
      unfolding token.simps using u b
      by (intro exI [where x = cs] exI [where x = "hs @ [b]"] conjI) simp_all
  }
  assume "n = 1"
  then show "token InString (t @ [b])"
    using u b chars_unicode [of cs "hs @ [b]"] by simp
qed

lemma literal_grows:
  "token (Literal l n) t \<Longrightarrow> b = l ! n \<Longrightarrow> n + 1 \<noteq> length l \<Longrightarrow> token (Literal l (n + 1)) (t @ [b])"
  "token (Literal l n) t \<Longrightarrow> b = l ! n \<Longrightarrow> n + 1 = length l \<Longrightarrow> t @ [b] \<in> {''true'', ''false'', ''null''}"
proof -
  assume t: "token (Literal l n) t" and b: "b = l ! n"
  then have "t @ [b] = take (n + 1) l" by (simp add: take_Suc_conv_app_nth)
  with t show "n + 1 \<noteq> length l \<Longrightarrow> token (Literal l (n + 1)) (t @ [b])"
    "n + 1 = length l \<Longrightarrow> t @ [b] \<in> {''true'', ''false'', ''null''}" by auto
qed

lemma token_reading:
  "ready F p \<Longrightarrow> token st t \<Longrightarrow> takes_value F \<or> in_string st \<Longrightarrow> reading st F (p @ t)"
  by (cases st) fastforce+

lemma number_ends: "ready F p \<Longrightarrow> takes_value F \<Longrightarrow> json_number t \<Longrightarrow> ended F (p @ t)"
  by (intro value_ends value_number)

declare token.simps [simp del] reading.simps [simp del] step_loop.simps [simp del]

lemma grow_reading:
  "ready F p \<Longrightarrow> token st (t @ [b]) \<Longrightarrow> takes_value F \<or> in_string st \<Longrightarrow> reading st F (p @ t @ [b])"
  using token_reading [of F p st "t @ [b]"] by simp

lemma sound_number_end:
  "ready F p \<Longrightarrow> takes_value F \<Longrightarrow> json_number t \<Longrightarrow> sound (p @ t) b (step_loop quote b F False EndValue)"
  by (intro sound_EndValue number_ends)

lemma sound_zero:
  assumes "ready F p" "takes_value F" "token Zero t"
  shows "sound (p @ t) b (step_loop quote b F False Zero)"
  using assms
  by (simp add: step_loop.simps(10) grow_reading token_grows(4,5) sound_number_end token_number exp_mark_def)

lemma sound_exponent_sign:
  assumes "ready F p" "takes_value F" "token ExponentSign t"
  shows "sound (p @ t) b (step_loop quote b F False ExponentSign)"
  using assms by (simp add: step_loop.simps(14) grow_reading token_grows(11))

lemma sound_number:
  assumes p: "ready F p" and v: "takes_value F" and t: "token st t"
    and st: "st \<in> {Negative, Zero, Integer, Dot, Fraction, Exponent, ExponentSign, ExponentDigits}"
  shows "sound (p @ t) b (step_loop quote b F False st)"
  using st
proof (elim insertE emptyE)
  assume "st = Integer"
  moreover from this t have "token Zero t" using integer_mantissa by (simp add: token.simps(2))
  ultimately show ?thesis using p v t sound_zero [of F p t b quote]
    by (simp add: step_loop.simps(9) grow_reading token_grows(3))
qed (use p v t in \<open>simp_all add: sound_zero sound_exponent_sign step_loop.simps(8,11,12,13,15) grow_reading
    token_grows exp_mark_def sound_number_end token_number\<close>)

lemma sound_string:
  assumes p: "ready F p" and t: "token st t" and st: "in_string st"
  shows "sound (p @ t) b (step_loop quote b F False st)"
proof (cases st)
  case InString
  have "ended F (p @ t @ [b])" if "b = CHR 0x22"
    using string_ends [OF p string_grows(1) [OF t [unfolded InString] that]] by simp
  with InString p t show ?thesis
    by (simp add: step_loop.simps(5) reading.simps(5) grow_reading string_grows(2,3) plain_char_def)
next
  case Escape
  show ?thesis
  proof (cases "escape_char b")
    case True
    then have "step_loop quote b F False Escape = stay InString F False"
      by (simp add: step_loop.simps(6) escape_char_def)
    with True Escape p t show ?thesis by (simp add: grow_reading string_grows(4))
  next
    case False
    then have "step_loop quote b F False Escape = (if b = CHR ''u'' then stay (Unicode 4) F False
        else fail Escape F False (error quote b ''in string escape code''))"
      by (simp add: step_loop.simps(6) escape_char_def)
    with Escape p t show ?thesis by (simp add: grow_reading string_grows(5))
  qed
next
  case (Unicode n)
  with p t show ?thesis
    by (simp add: step_loop.simps(7) grow_reading string_grows(6,7) hex_char_def)
qed (use st in simp_all)

lemma sound_literal:
  assumes p: "ready F p" and v: "takes_value F" and t: "token (Literal l n) t"
  shows "sound (p @ t) b (step_loop quote b F False (Literal l n))"
proof -
  have "n < length l" using t by (simp add: token.simps)
  moreover have "ended F (p @ t @ [b])" if "b = l ! n" "n + 1 = length l"
    using value_ends [OF p v value_literal [OF literal_grows(2) [OF t that]]] by simp
  moreover have "reading (Literal l (n + 1)) F (p @ t @ [b])" if "b = l ! n" "n + 1 \<noteq> length l"
    using grow_reading [OF p literal_grows(1) [OF t that]] v by simp
  ultimately show ?thesis by (simp add: step_loop.simps(16) reading.simps(5))
qed

lemma sound_token:
  assumes "ready F p" "token st t" "takes_value F \<or> in_string st"
  shows "sound (p @ t) b (step_loop quote b F False st)"
proof (cases "in_string st")
  case True
  with assms show ?thesis by (intro sound_string)
next
  case False
  with assms show ?thesis
    by (cases st) (simp_all add: sound_number sound_literal, simp_all add: token.simps)
qed

lemma begin_value_sound:
  assumes p: "ready F p" and v: "takes_value F"
  shows "sound p b (step_loop quote b F False BeginValue)"
proof -
  have tok: "reading st F (p @ [c])" if "token st [c]" for st c
    using token_reading [OF p that] v by simp
  have opened: "fresh (f # F) (p @ [opener f])" if "length F < 10000" for f
    using freshI [OF that v p, of "[]" f] by simp
  have "token Negative ''-''" "token Zero ''0''" "token InString [CHR 0x22]" "token (Literal ''true'' 1) ''t''"
    "token (Literal ''false'' 1) ''f''" "token (Literal ''null'' 1) ''n''"
    by (auto simp: token.simps intro: mant_int int_zero chars_nil)
  moreover have "token Integer [b]" if "digit1_9 b"
    using that by (auto simp: token.simps signed_def intro!: exI [of _ "[]"])
  moreover have "reading BeginStringOrEmpty (ObjectKey # F) (p @ ''{'')"
    "reading BeginValueOrEmpty (ArrayValue # F) (p @ ''['')" if "length F < 10000"
    using opened [OF that, of ObjectKey] opened [OF that, of ArrayValue] by (simp_all add: reading.simps)
  moreover have "reading BeginValue F (p @ [b])" if "space b"
    using ready_space [OF p that] v by (simp add: reading.simps)
  ultimately show ?thesis by (simp add: step_loop.simps(2) tok)
qed

lemma begin_string_sound:
  assumes p: "ready F p" and F: "F \<noteq> []" "hd F = ObjectKey"
  shows "sound p b (step_loop quote b F False BeginString)"
proof -
  have "token InString [CHR 0x22]" by (auto simp: token.simps intro: chars_nil)
  from token_reading [OF p this] have "reading InString F (p @ [CHR 0x22])" by simp
  with ready_space [OF p] F show ?thesis by (auto simp: step_loop.simps(4) reading.simps(3))
qed

lemma empty_container_sound:
  assumes "fresh (f # F) q" "f = ArrayValue \<and> b = CHR '']'' \<or> f \<noteq> ArrayValue \<and> b = CHR ''}''"
  shows "sound q b (pop (g # F) False)"
proof (rule sound_pop)
  from assms(1) obtain p w where "q = p @ opener f # w" "ready F p" "ws w" "length F < 10000" "takes_value F"
    by (auto simp: fresh_def)
  then show "ended F (q @ [b])" using container_ends [of F p f b w] assms(2) by auto
qed simp

lemma step_sound:
  assumes "scanned s q"
  shows "sound q b (step quote b s)"
proof -
  obtain st F e where s: "s = \<lparr>sc_state = st, sc_frames = F, sc_end_top = e\<rparr>" by (cases s)
  with assms have r: "reading st F q" and e: "e \<longleftrightarrow> st = EndTop" by (simp_all add: scanned_def)
  have "sound q b (step_loop quote b F e st)"
  proof (cases st)
    case BeginValue
    with r e show ?thesis by (simp add: reading.simps begin_value_sound)
  next
    case BeginValueOrEmpty
    with r obtain F' where F: "F = ArrayValue # F'" "fresh F q"
      by (cases F) (auto simp: reading.simps fresh_def)
    with BeginValueOrEmpty e show ?thesis
      using fresh_space [of F q b] begin_value_sound [OF fresh_ready, of F q b quote]
        empty_container_sound [of ArrayValue F' q b ArrayValue]
      by (auto simp: step_loop.simps(1,17) reading.simps(2) takes_value_def)
  next
    case BeginString
    with r e show ?thesis by (simp add: reading.simps begin_string_sound)
  next
    case BeginStringOrEmpty
    with r obtain F' where F: "F = ObjectKey # F'" "fresh F q"
      by (cases F) (auto simp: reading.simps fresh_def)
    with BeginStringOrEmpty e show ?thesis
      using fresh_space [of F q b] begin_string_sound [OF fresh_ready, of F q b quote]
        empty_container_sound [of ObjectKey F' q b ObjectValue]
      by (auto simp: step_loop.simps(3,17) reading.simps(4))
  next
    case EndValue
    with r e show ?thesis by (simp add: reading.simps sound_EndValue)
  next
    case EndTop
    with r e show ?thesis using json_text_space [of q b] by (auto simp: reading.simps step_loop.simps(18))
  qed (use r e sound_token [of F _ st _ b quote] in \<open>auto simp: reading.simps\<close>)
  then show ?thesis by (simp add: step_def s)
qed

section \<open>Accepted texts\<close>

lemma sound_cases:
  assumes "sound q b r"
  obtains msg s where "r = Some (Inl msg, s)" | s where "r = Some (Inr (), s)" "scanned s (q @ [b])"
proof -
  from assms obtain x s where "r = Some (x, s)" by (auto simp: sound_def split: option.splits)
  with assms that show ?thesis by (cases x) (auto simp: sound_def)
qed

lemma step_all_sound:
  "scanned s q \<Longrightarrow> \<exists>r s'. step_all quote bs s = Some (r, s') \<and> (r = Inr () \<longrightarrow> scanned s' (q @ bs))"
proof (induction bs arbitrary: s q)
  case (Cons b bs)
  show ?case
  proof (rule sound_cases [OF step_sound [OF Cons.prems, of b quote]])
    fix s' assume s': "step quote b s = Some (Inr (), s')" "scanned s' (q @ [b])"
    from Cons.IH [OF s'(2)] s'(1) show ?thesis by simp
  qed simp
qed simp

lemma scanned_default: "scanned scanner_default []"
  by (simp add: scanned_def scanner_default_def reading.simps takes_value_def)

text \<open>When the scanner sets its end mark, the value ended before the byte, or the byte closed it.\<close>

lemma json_text_head: "json_text (q @ [b]) \<Longrightarrow> \<not> space b \<Longrightarrow> json_head (q @ [b])"
  unfolding json_text_def
proof (elim exE conjE)
  fix w v w' assume *: "q @ [b] = w @ v @ w'" "ws w" "json_value 10000 v" "ws w'" "\<not> space b"
  then have "w' = []" by (cases w' rule: rev_cases) auto
  with * show ?thesis using json_headI [of w v] by simp
qed

definition marks :: "scan_result \<Rightarrow> bool" where
  "marks x \<longleftrightarrow> (case x of None \<Rightarrow> False | Some (r, s) \<Rightarrow> sc_end_top s)"

lemma marks_simps [simp]:
  "marks (stay st F e) = e" "marks (fail st F e msg) = e" "marks (push quote b f old new F e) = e"
  "marks (if P then x else y) = (if P then marks x else marks y)" "\<not> marks None"
  by (simp_all add: marks_def stay_def fail_def push_def)

lemma no_marks [simp]:
  "\<not> marks (step_loop quote b F False BeginValue)" "\<not> marks (step_loop quote b F False BeginString)"
  "\<not> marks (step_loop quote b F False InString)" "\<not> marks (step_loop quote b F False Escape)"
  "\<not> marks (step_loop quote b F False (Unicode n))" "\<not> marks (step_loop quote b F False Negative)"
  "\<not> marks (step_loop quote b F False Dot)" "\<not> marks (step_loop quote b F False ExponentSign)"
  "\<not> marks (step_loop quote b F False (Literal l i))" "\<not> marks (step_loop quote b F False EndTop)"
  by (simp_all add: step_loop.simps(2,4-8,11,14,16,18))

lemma no_marks_exponent [simp]: "\<not> marks (step_loop quote b F False Exponent)"
  by (simp add: step_loop.simps(13))

text \<open>What a marking step did: hand the byte to the end of a top-level value, or close a container.\<close>

definition closes :: "char \<Rightarrow> scan_result \<Rightarrow> bool" where
  "closes b x \<longleftrightarrow> \<not> space b \<and> (\<exists>s. x = Some (Inr (), s) \<and> sc_state s = EndTop)"

lemma end_value_marks:
  assumes "marks (step_loop quote b (f # F) False EndValue)"
  shows "closes b (step_loop quote b (f # F) False EndValue)"
  using assms by (cases f) (auto simp: step_loop.simps(17) closes_def pop_def stay_def fail_def marks_def
      split: if_splits)

lemma zero_marks:
  "marks (step_loop quote b F False Zero) \<Longrightarrow>
   step_loop quote b F False Zero = step_loop quote b F False EndValue"
  by (simp add: step_loop.simps(10) split: if_splits)

lemma number_marks:
  assumes "marks (step_loop quote b F False st)" "st \<in> {Zero, Integer, Fraction, ExponentDigits}"
  shows "step_loop quote b F False st = step_loop quote b F False EndValue"
  using assms zero_marks [of quote b F] by (auto simp: step_loop.simps(9,12,15) split: if_splits)

lemma loop_marks:
  assumes "marks (step_loop quote b F False st)" "reading st F q"
  shows "F = [] \<and> json_head q \<or> F \<noteq> [] \<and> closes b (step_loop quote b F False st)"
proof -
  have finished: ?thesis if "step_loop quote b F False st = step_loop quote b F False EndValue" "ended F q"
    using that assms(1) end_value_marks by (cases F) auto
  have number: ?thesis if "st \<in> {Zero, Integer, Fraction, ExponentDigits}"
  proof (rule finished)
    show "step_loop quote b F False st = step_loop quote b F False EndValue"
      using assms(1) that by (rule number_marks)
    from that assms(2) obtain p t where "q = p @ t" "ready F p" "token st t" "takes_value F"
      by (auto simp: reading.simps)
    with that show "ended F q" using number_ends token_number by blast
  qed
  show ?thesis
  proof (cases st)
    case BeginValueOrEmpty
    with assms obtain f F' where F: "F = f # F'" by (cases F) (auto simp: reading.simps fresh_def)
    with BeginValueOrEmpty assms(1) have "b = CHR '']''" by (simp add: step_loop.simps(1) split: if_splits)
    with BeginValueOrEmpty F assms(1) show ?thesis using end_value_marks [of quote b f F']
      by (simp add: step_loop.simps(1))
  next
    case BeginStringOrEmpty
    with assms obtain f F' where F: "F = f # F'" by (cases F) (auto simp: reading.simps fresh_def)
    with BeginStringOrEmpty assms(1) have "b = CHR ''}''" by (simp add: step_loop.simps(3) split: if_splits)
    with BeginStringOrEmpty F assms(1) show ?thesis using end_value_marks [of quote b ObjectValue F']
      by (simp add: step_loop.simps(3))
  next
    case EndValue
    with assms(2) show ?thesis by (intro finished) (simp_all add: reading.simps)
  qed (use assms(1) number in simp_all)
qed

lemma step_ends:
  assumes "scanned s q" "\<not> sc_end_top s" "step quote b s = Some (r, s')" "sc_end_top s'"
  shows "sc_frames s = [] \<and> json_head q \<or> sc_frames s \<noteq> [] \<and> \<not> space b \<and> json_head (q @ [b])"
proof -
  obtain st F where s: "s = \<lparr>sc_state = st, sc_frames = F, sc_end_top = False\<rparr>" using assms(2) by (cases s) auto
  with assms have r: "reading st F q" and loop: "step_loop quote b F False st = Some (r, s')"
    by (auto simp: scanned_def step_def)
  have "marks (step_loop quote b F False st)" using assms(4) by (simp add: loop marks_def)
  from loop_marks [OF this r] show ?thesis
  proof (elim disjE conjE)
    assume *: "F \<noteq> []" "closes b (step_loop quote b F False st)"
    then have "r = Inr ()" "sc_state s' = EndTop" "\<not> space b" by (auto simp: closes_def loop)
    moreover from this have "json_text (q @ [b])"
      using sound_cases [OF step_sound [OF assms(1), of b quote]] assms(3)
      by (auto simp: scanned_def reading.simps)
    ultimately show ?thesis using * s by (simp add: json_text_head)
  qed (use s in simp)
qed

lemma accepted_json_text:
  assumes "check_valid quote bs = Some (Inr ())"
  shows "json_text bs"
proof -
  from step_all_sound [OF scanned_default, of quote bs] assms obtain s where
    s: "step_all quote bs scanner_default = Some (Inr (), s)" "scanned s bs"
    by (auto simp: check_valid_def split: sum.splits)
  show ?thesis
  proof (cases "sc_end_top s")
    case True
    with s(2) show ?thesis by (auto simp: scanned_def reading.simps)
  next
    case False
    with s(1) assms obtain s' where "step quote (CHR '' '') s = Some (Inr (), s')" "sc_end_top s'"
      by (auto simp: check_valid_def split: option.splits sum.splits if_splits prod.splits)
    from step_ends [OF s(2) False this] show ?thesis using json_head_text [of bs "[]"] by auto
  qed
qed

lemma check_valid_total: "\<exists>r. check_valid quote bs = Some r"
proof -
  from step_all_sound [OF scanned_default, of quote bs] obtain r s where
    s: "step_all quote bs scanner_default = Some (r, s)" "r = Inr () \<longrightarrow> scanned s bs" by auto
  show ?thesis
  proof (cases r)
    case (Inr u)
    then have "scanned s bs" using s(2) by simp
    from step_sound [OF this, of "CHR '' ''" quote] show ?thesis
    proof (rule sound_cases)
      show "step quote (CHR '' '') s = Some (Inl msg, s') \<Longrightarrow> ?thesis" for msg s'
        using s(1) Inr by (simp add: check_valid_def)
      show "step quote (CHR '' '') s = Some (Inr (), s') \<Longrightarrow> ?thesis" for s'
        using s(1) Inr by (simp add: check_valid_def)
    qed
  qed (simp add: check_valid_def s)
qed

end
