(* ===== verification/Json_Validity.thy ===== *)
theory Json_Validity
  imports Json_Grammar
begin

text \<open>
  The completeness of the JSON scanner: a run over each production of the grammar, by induction over
  the grammar. With the soundness this gives the theorems: the scanner accepts exactly the texts of the
  grammar that nest at most 10000 containers and never panics; the raw value it cuts off a stream is
  the JSON value the stream begins with.
\<close>

section \<open>Texts of the grammar\<close>

abbreviation at :: "scan_state \<Rightarrow> frame list \<Rightarrow> scanner" where
  "at st F \<equiv> \<lparr>sc_state = st, sc_frames = F, sc_end_top = False\<rparr>"

abbreviation at_top :: scanner where
  "at_top \<equiv> \<lparr>sc_state = EndTop, sc_frames = [], sc_end_top = True\<rparr>"

definition runs :: "(string \<Rightarrow> string) \<Rightarrow> scanner \<Rightarrow> string \<Rightarrow> scanner \<Rightarrow> bool" where
  "runs quote s bs s' \<longleftrightarrow> step_all quote bs s = Some (Inr (), s')"

lemma runs_Nil [simp]: "runs quote s [] s' \<longleftrightarrow> s' = s"
  by (auto simp: runs_def)

lemma runs_Cons: "step quote b s = Some (Inr (), u) \<Longrightarrow> runs quote u bs s' \<Longrightarrow> runs quote s (b # bs) s'"
  by (simp add: runs_def)

lemma runs_append: "runs quote s xs u \<Longrightarrow> runs quote u ys s' \<Longrightarrow> runs quote s (xs @ ys) s'"
  unfolding runs_def
proof (induction xs arbitrary: s)
  case (Cons b xs)
  then show ?case by (auto split: option.splits sum.splits prod.splits)
qed simp

lemma runs_one: "step quote b s = Some (Inr (), s') \<Longrightarrow> runs quote s [b] s'"
  by (simp add: runs_def)

lemma step_at: "step quote b (at st F) = step_loop quote b F False st"
  by (simp add: step_def)

lemma ws_runs:
  "ws w \<Longrightarrow> st \<in> {BeginValue, BeginValueOrEmpty, BeginString, BeginStringOrEmpty} \<or> st = EndValue \<and> F \<noteq> [] \<Longrightarrow>
   runs quote (at st F) w (at st F)"
proof (induction w)
  case (Cons b w)
  then have "step quote b (at st F) = Some (Inr (), at st F)"
    by (auto simp: step_at step_loop.simps stay_def neq_Nil_conv)
  with Cons show ?case by (auto intro: runs_Cons)
qed simp

lemma char_facts [simp]:
  "hex_value (CHR 0x22) = None" "\<not> is_ascii_digit (CHR ''-'')" "\<not> is_ascii_digit (CHR ''.'')"
  "\<not> is_ascii_digit (CHR ''+'')" "\<not> is_ascii_digit (CHR ''e'')" "\<not> is_ascii_digit (CHR ''E'')"
  "is_ascii_digit (CHR ''0'')"
  by (simp_all add: hex_value_def is_ascii_digit_def byte_def)

lemma digit_not:
  assumes "is_ascii_digit b"
  shows "\<not> space b" "b \<notin> {CHR ''{'', CHR ''['', CHR '']'', CHR ''}'', CHR 0x22, CHR ''-'', CHR ''.'', CHR ''e'', CHR ''E'',
    CHR ''+'', CHR ''t'', CHR ''f'', CHR ''n'', CHR '','', CHR '':''}"
  using assms by (auto simp: space_def is_ascii_digit_def byte_def)

lemma hex_runs:
  "list_all hex_char hs \<Longrightarrow> unat n = length hs \<Longrightarrow> hs \<noteq> [] \<Longrightarrow>
   runs quote (at (Unicode n) F) hs (at InString F)"
proof (induction hs arbitrary: n)
  case (Cons b hs)
  show ?case
  proof (cases hs)
    case Nil
    with Cons.prems have "n = 1" by (simp add: word_unat_eq_iff)
    with Cons.prems Nil show ?thesis
      by (auto intro!: runs_one simp: step_at step_loop.simps(7) hex_char_def stay_def)
  next
    case (Cons b' hs')
    then have n: "unat n = Suc (length hs)" "n \<noteq> 1" using Cons.prems(2) by auto
    then have "n \<noteq> 0" by auto
    with n have "unat (n - 1) = length hs" by (simp add: unat_minus_one)
    moreover have "step quote b (at (Unicode n) F) = Some (Inr (), at (Unicode (n - 1)) F)"
      using Cons.prems(1) n(2) by (auto simp: step_at step_loop.simps(7) hex_char_def stay_def)
    ultimately show ?thesis using Cons.IH [of "n - 1"] Cons.prems(1) Cons by (auto intro: runs_Cons)
  qed
qed simp

lemma chars_run: "json_chars cs \<Longrightarrow> runs quote (at InString F) cs (at InString F)"
proof (induction rule: json_chars.induct)
  case (chars_plain cs b)
  have "runs quote (at InString F) [b] (at InString F)"
    using chars_plain(2) by (auto intro!: runs_one simp: step_at step_loop.simps(5) plain_char_def stay_def)
  with chars_plain show ?case by (auto intro: runs_append)
next
  case (chars_escape cs b)
  have "runs quote (at InString F) [CHR 0x5C, b] (at InString F)"
    using chars_escape(2)
    by (intro runs_Cons [where u = "at Escape F"] runs_one)
      (simp_all add: step_at step_loop.simps(5,6) escape_char_def stay_def)
  with chars_escape show ?case by (auto intro: runs_append)
next
  case (chars_unicode cs hs)
  have "step quote (CHR 0x5C) (at InString F) = Some (Inr (), at Escape F)"
    "step quote (CHR ''u'') (at Escape F) = Some (Inr (), at (Unicode 4) F)"
    by (simp_all add: step_at step_loop.simps(5,6) stay_def)
  moreover have "runs quote (at (Unicode 4) F) hs (at InString F)"
    using chars_unicode(2,3) by (intro hex_runs) auto
  ultimately have "runs quote (at InString F) ([CHR 0x5C, CHR ''u''] @ hs) (at InString F)"
    by (auto intro: runs_Cons)
  with chars_unicode show ?case by (blast intro: runs_append)
qed simp

lemma string_runs:
  assumes "json_string k" "st \<in> {BeginValue, BeginString}"
  shows "runs quote (at st F) k (at EndValue F)"
proof -
  from assms(1) obtain cs where k: "k = CHR 0x22 # cs @ [CHR 0x22]" "json_chars cs"
    by (auto simp: json_string_def)
  have "step quote (CHR 0x22) (at st F) = Some (Inr (), at InString F)"
    using assms(2) by (auto simp: step_at step_loop.simps(2,4) stay_def)
  moreover have "runs quote (at InString F) [CHR 0x22] (at EndValue F)"
    by (rule runs_one) (simp add: step_at step_loop.simps(5) stay_def)
  ultimately show ?thesis unfolding k(1) using chars_run [OF k(2)] by (blast intro: runs_Cons runs_append)
qed

lemma digits_run:
  "list_all is_ascii_digit ds \<Longrightarrow> st \<in> {Integer, Fraction, ExponentDigits} \<Longrightarrow> runs quote (at st F) ds (at st F)"
proof (induction ds)
  case (Cons b ds)
  then have "step quote b (at st F) = Some (Inr (), at st F)"
    by (auto simp: step_at step_loop.simps(9,12,15) stay_def)
  with Cons show ?case by (auto intro: runs_Cons)
qed simp

lemma integer_runs:
  assumes "json_integer i" "st \<in> {BeginValue, Negative}"
  shows "\<exists>st'. st' \<in> {Zero, Integer} \<and> runs quote (at st F) i (at st' F)"
  using assms(1)
proof cases
  case int_zero
  then have "runs quote (at st F) i (at Zero F)"
    using assms(2) by (auto intro!: runs_one simp: step_at step_loop.simps(2,8) stay_def space_def)
  then show ?thesis by blast
next
  case (int_pos d ds)
  then have "step quote d (at st F) = Some (Inr (), at Integer F)"
    using assms(2) digit_not [of d] by (auto simp: step_at step_loop.simps(2,8) stay_def digit1_9_def)
  with int_pos have "runs quote (at st F) i (at Integer F)" using digits_run by (auto intro: runs_Cons)
  then show ?thesis by blast
qed

lemma mantissa_runs:
  assumes "json_mantissa m"
  shows "\<exists>st. st \<in> {Zero, Integer} \<and> runs quote (at BeginValue F) m (at st F)"
  using assms
proof cases
  case mant_int
  then show ?thesis by (rule integer_runs) simp
next
  case (mant_neg i)
  have "step quote (CHR ''-'') (at BeginValue F) = Some (Inr (), at Negative F)"
    by (simp add: step_at step_loop.simps(2) stay_def space_def)
  with mant_neg show ?thesis using integer_runs [of i Negative quote F] by (blast intro: runs_Cons)
qed

lemma fraction_runs:
  assumes "json_fraction m"
  shows "\<exists>st. st \<in> {Zero, Integer, Fraction} \<and> runs quote (at BeginValue F) m (at st F)"
  using assms
proof cases
  case frac_none
  then show ?thesis using mantissa_runs by blast
next
  case (frac_some n ds)
  from mantissa_runs [OF frac_some(2)] obtain st where st: "st \<in> {Zero, Integer}"
    "runs quote (at BeginValue F) n (at st F)" by blast
  from frac_some(3) obtain d ds' where ds: "ds = d # ds'" "is_ascii_digit d" "list_all is_ascii_digit ds'"
    by (cases ds) (auto simp: digits_def)
  have "step quote (CHR ''.'') (at st F) = Some (Inr (), at Dot F)"
    using st(1) by (auto simp: step_at step_loop.simps(9,10) stay_def)
  moreover have "step quote d (at Dot F) = Some (Inr (), at Fraction F)"
    using ds(2) by (simp add: step_at step_loop.simps(11) stay_def)
  ultimately have "runs quote (at st F) (CHR ''.'' # ds) (at Fraction F)"
    unfolding ds(1) using digits_run [OF ds(3), of Fraction quote F] runs_Cons by auto
  from runs_append [OF st(2) this] frac_some(1) show ?thesis by auto
qed

lemma number_runs:
  assumes "json_number t"
  shows "\<exists>st. st \<in> {Zero, Integer, Fraction, ExponentDigits} \<and> runs quote (at BeginValue F) t (at st F)"
  using assms
proof cases
  case num_plain
  then show ?thesis using fraction_runs by blast
next
  case (num_exp m c s ds)
  from fraction_runs [OF num_exp(2)] obtain st where st: "st \<in> {Zero, Integer, Fraction}"
    "runs quote (at BeginValue F) m (at st F)" by blast
  from num_exp(5) obtain d ds' where ds: "ds = d # ds'" "is_ascii_digit d" "list_all is_ascii_digit ds'"
    by (cases ds) (auto simp: digits_def)
  have mark: "step quote c (at st F) = Some (Inr (), at Exponent F)"
    using st(1) num_exp(3) by (auto simp: step_at step_loop.simps(9,10,12) stay_def exp_mark_def)
  have "runs quote (at Exponent F) (s @ ds) (at ExponentDigits F)"
  proof (cases "s = []")
    case True
    have "step quote d (at Exponent F) = Some (Inr (), at ExponentDigits F)"
      using ds(2) digit_not(2) [OF ds(2)] by (simp add: step_at step_loop.simps(13,14) stay_def)
    then show ?thesis using True digits_run [OF ds(3), of ExponentDigits quote F] ds(1)
      by (auto intro: runs_Cons)
  next
    case False
    then obtain b where b: "s = [b]" "b = CHR ''+'' \<or> b = CHR ''-''"
      using num_exp(4) by (auto simp: exp_sign_def)
    have "step quote b (at Exponent F) = Some (Inr (), at ExponentSign F)"
      using b(2) by (auto simp: step_at step_loop.simps(13) stay_def)
    moreover have "step quote d (at ExponentSign F) = Some (Inr (), at ExponentDigits F)"
      using ds(2) by (simp add: step_at step_loop.simps(14) stay_def)
    ultimately show ?thesis using b(1) digits_run [OF ds(3), of ExponentDigits quote F] ds(1)
      by (auto intro!: runs_Cons)
  qed
  with mark have "runs quote (at st F) (c # s @ ds) (at ExponentDigits F)" by (rule runs_Cons)
  from runs_append [OF st(2) this] num_exp(1) show ?thesis by auto
qed

lemma literal_runs:
  assumes "t \<in> {''true'', ''false'', ''null''}"
  shows "runs quote (at BeginValue F) t (at EndValue F)"
  using assms
  by (auto simp: runs_def step_def step_loop.simps(2,16) stay_def space_def digit1_9_def is_ascii_digit_def byte_def)

text \<open>A value that has ended: the automaton may still be inside a number, and a top-level container has
  set the end mark.\<close>

definition finished :: "frame list \<Rightarrow> scanner \<Rightarrow> bool" where
  "finished F s \<longleftrightarrow>
     (\<exists>st \<in> {EndValue, Zero, Integer, Fraction, ExponentDigits}. s = at st F) \<or> F = [] \<and> s = at_top"

definition delimiter :: "char \<Rightarrow> bool" where
  "delimiter b \<longleftrightarrow> space b \<or> b \<in> {CHR '','', CHR '':'', CHR '']'', CHR ''}''}"

lemma delimiter_not:
  "delimiter b \<Longrightarrow> \<not> is_ascii_digit b \<and> b \<noteq> CHR ''.'' \<and> b \<noteq> CHR ''e'' \<and> b \<noteq> CHR ''E''"
  by (auto simp: delimiter_def space_def is_ascii_digit_def byte_def)

lemma finished_step:
  "(\<exists>st \<in> {EndValue, Zero, Integer, Fraction, ExponentDigits}. s = at st F) \<Longrightarrow> delimiter b \<Longrightarrow>
   step quote b s = step_loop quote b F False EndValue"
  using delimiter_not [of b] by (auto simp: step_at step_loop.simps(9,10,12,15))

lemma finished_Cons:
  "finished (f # F) s \<Longrightarrow> delimiter b \<Longrightarrow> step quote b s = step_loop quote b (f # F) False EndValue"
  by (rule finished_step) (auto simp: finished_def)

lemma finished_ws:
  assumes "finished (f # F) s" "ws w"
  shows "\<exists>s'. finished (f # F) s' \<and> runs quote s w s'"
proof (cases w)
  case Nil
  with assms(1) show ?thesis by auto
next
  case (Cons b w')
  then have b: "space b" "ws w'" using assms(2) by simp_all
  have "step quote b s = Some (Inr (), at EndValue (f # F))"
    using finished_Cons [OF assms(1), of b quote] b(1) by (simp add: delimiter_def step_loop.simps(17) stay_def)
  moreover have "runs quote (at EndValue (f # F)) w' (at EndValue (f # F))" using ws_runs [OF b(2)] by simp
  ultimately have "runs quote s w (at EndValue (f # F))" unfolding Cons by (rule runs_Cons)
  then show ?thesis by (auto simp: finished_def)
qed

lemma value_or_empty_runs:
  assumes "ws w" "\<not> space b" "b \<noteq> CHR '']''" "runs quote (at BeginValue F) (w @ b # r) s"
  shows "runs quote (at BeginValueOrEmpty F) (w @ b # r) s"
  using assms(1,4)
proof (induction w)
  case Nil
  with assms(2,3) show ?case by (simp add: runs_def step_at step_loop.simps(1))
next
  case (Cons c w)
  then show ?case by (simp add: runs_def step_at step_loop.simps(1,2) stay_def)
qed

lemma string_or_empty_runs:
  assumes "ws w" "\<not> space b" "b \<noteq> CHR ''}''" "runs quote (at BeginString F) (w @ b # r) s"
  shows "runs quote (at BeginStringOrEmpty F) (w @ b # r) s"
  using assms(1,4)
proof (induction w)
  case Nil
  with assms(2,3) show ?case by (simp add: runs_def step_at step_loop.simps(3))
next
  case (Cons c w)
  then show ?case by (simp add: runs_def step_at step_loop.simps(3,4) stay_def)
qed

lemma number_first:
  assumes "json_number t"
  shows "\<exists>b r. t = b # r \<and> \<not> space b \<and> b \<noteq> CHR '']''"
proof -
  have i: "\<exists>b r. i = b # r \<and> \<not> space b \<and> b \<noteq> CHR '']''" if "json_integer i" for i
    using that digit_not by cases (auto simp: space_def digit1_9_def)
  have m: "\<exists>b r. m = b # r \<and> \<not> space b \<and> b \<noteq> CHR '']''" if "json_mantissa m" for m
    using that i by cases (auto simp: space_def)
  have "\<exists>b r. m = b # r \<and> \<not> space b \<and> b \<noteq> CHR '']''" if "json_fraction m" for m
    using that m by cases fastforce+
  with assms show ?thesis by cases fastforce+
qed

lemma value_first:
  assumes "json_value d v"
  shows "\<exists>b r. v = b # r \<and> \<not> space b \<and> b \<noteq> CHR '']''"
  using assms number_first by cases (auto simp: json_string_def space_def)

lemma surrounded_runs:
  assumes "\<exists>s. finished (f # F) s \<and> runs quote (at BeginValue (f # F)) v s" "ws w" "ws w'"
  shows "\<exists>s. finished (f # F) s \<and> runs quote (at BeginValue (f # F)) (w @ v @ w') s"
proof -
  from assms(1) obtain s where s: "finished (f # F) s" "runs quote (at BeginValue (f # F)) v s" by blast
  from finished_ws [OF s(1) assms(3), of quote] obtain s' where s': "finished (f # F) s'" "runs quote s w' s'" by blast
  have "runs quote (at BeginValue (f # F)) w (at BeginValue (f # F))" by (rule ws_runs [OF assms(2)]) simp
  from runs_append [OF this runs_append [OF s(2) s'(2)]] s'(1) show ?thesis by blast
qed

lemma key_runs:
  assumes "ws w" "json_string k" "ws w1"
  shows "runs quote (at BeginString (ObjectKey # F)) (w @ k @ w1 @ '':'') (at BeginValue (ObjectValue # F))"
proof -
  have "runs quote (at EndValue (ObjectKey # F)) '':'' (at BeginValue (ObjectValue # F))"
    by (rule runs_one) (simp add: step_at step_loop.simps(17) stay_def)
  then show ?thesis
    using ws_runs [OF assms(1), of BeginString] string_runs [OF assms(2), of BeginString]
      ws_runs [OF assms(3), of EndValue "ObjectKey # F"]
    by (intro runs_append) auto
qed

lemma member_runs:
  assumes "\<exists>s. finished (ObjectValue # F) s \<and> runs quote (at BeginValue (ObjectValue # F)) v s"
    and "ws w" "json_string k" "ws w1" "ws w2" "ws w3"
  shows "\<exists>s. finished (ObjectValue # F) s \<and>
    runs quote (at BeginString (ObjectKey # F)) (w @ k @ w1 @ '':'' @ w2 @ v @ w3) s"
  using surrounded_runs [OF assms(1,5,6)] runs_append [OF key_runs [OF assms(2,3,4)]] by fastforce

lemma comma_runs:
  assumes "finished (f # F) s" "f = ArrayValue \<and> s' = at BeginValue (f # F) \<or>
    f = ObjectValue \<and> s' = at BeginString (ObjectKey # F)"
  shows "runs quote s '','' s'"
  using finished_Cons [OF assms(1), of "CHR '',''" quote] assms(2)
  by (intro runs_one) (auto simp: delimiter_def step_loop.simps(17) stay_def)

lemma closed_finished: "\<exists>s. finished F s \<and> pop (f # F) False = Some (Inr (), s)"
  by (auto simp: pop_def stay_def finished_def)

lemma close_runs:
  assumes "finished (f # F) s" "f = ArrayValue \<and> b = CHR '']'' \<or> f = ObjectValue \<and> b = CHR ''}''"
  shows "\<exists>s'. finished F s' \<and> runs quote s [b] s'"
proof -
  have "step quote b s = pop (f # F) False"
    using finished_Cons [OF assms(1), of b quote] assms(2) by (auto simp: delimiter_def step_loop.simps(17))
  then show ?thesis using closed_finished [of F f] runs_one by metis
qed

lemma open_runs:
  assumes "length F < 10000"
  shows "step quote (CHR ''['') (at BeginValue F) = Some (Inr (), at BeginValueOrEmpty (ArrayValue # F))"
    "step quote (CHR ''{'') (at BeginValue F) = Some (Inr (), at BeginStringOrEmpty (ObjectKey # F))"
  using assms by (simp_all add: step_at step_loop.simps(2) push_def stay_def)

lemma container_runs:
  assumes "step quote b (at BeginValue F) = Some (Inr (), u)"
    and "\<exists>s. finished (f # F) s \<and> runs quote u c s"
    and "f = ArrayValue \<and> b' = CHR '']'' \<or> f = ObjectValue \<and> b' = CHR ''}''"
  shows "\<exists>s. finished F s \<and> runs quote (at BeginValue F) (b # c @ [b']) s"
proof -
  from assms(2) obtain s where s: "finished (f # F) s" "runs quote u c s" by blast
  from close_runs [OF s(1) assms(3), of quote] obtain s' where "finished F s'" "runs quote s [b'] s'" by blast
  with runs_Cons [OF assms(1) runs_append [OF s(2)]] show ?thesis by blast
qed

lemma empty_runs:
  assumes "length F < 10000" "ws w"
  shows "\<exists>s. finished F s \<and> runs quote (at BeginValue F) (CHR ''['' # w @ '']'') s"
    "\<exists>s. finished F s \<and> runs quote (at BeginValue F) (CHR ''{'' # w @ ''}'') s"
proof -
  obtain s where s: "finished F s" "pop (ArrayValue # F) False = Some (Inr (), s)" using closed_finished by blast
  then have "runs quote (at BeginValueOrEmpty (ArrayValue # F)) '']'' s"
    by (intro runs_one) (simp add: step_at step_loop.simps(1,17))
  from runs_append [OF ws_runs [OF assms(2)] this] runs_Cons [OF open_runs(1) [OF assms(1)]] s(1)
  show "\<exists>s. finished F s \<and> runs quote (at BeginValue F) (CHR ''['' # w @ '']'') s" by auto
  obtain s where s: "finished F s" "pop (ObjectValue # F) False = Some (Inr (), s)" using closed_finished by blast
  then have "runs quote (at BeginStringOrEmpty (ObjectKey # F)) ''}'' s"
    by (intro runs_one) (simp add: step_at step_loop.simps(3,17))
  from runs_append [OF ws_runs [OF assms(2)] this] runs_Cons [OF open_runs(2) [OF assms(1)]] s(1)
  show "\<exists>s. finished F s \<and> runs quote (at BeginValue F) (CHR ''{'' # w @ ''}'') s" by auto
qed

lemma grammar_runs:
  "json_value d v \<Longrightarrow> (\<And>F. length F + d \<le> 10000 \<Longrightarrow>
     \<exists>s. finished F s \<and> runs quote (at BeginValue F) v s)"
  "json_elements d es \<Longrightarrow> (\<And>F. length F + d < 10000 \<Longrightarrow>
     \<exists>s. finished (ArrayValue # F) s \<and> runs quote (at BeginValueOrEmpty (ArrayValue # F)) es s)"
  "json_members d ms \<Longrightarrow> (\<And>F. length F + d < 10000 \<Longrightarrow>
     \<exists>s. finished (ObjectValue # F) s \<and> runs quote (at BeginStringOrEmpty (ObjectKey # F)) ms s)"
proof (induction rule: json_value_json_elements_json_members.inducts)
  case (value_string t d)
  then show ?case using string_runs [of t BeginValue quote F] by (auto simp: finished_def)
next
  case (value_number t d)
  then show ?case using number_runs [of t quote F] by (auto simp: finished_def)
next
  case (value_literal t d)
  then show ?case using literal_runs [of t quote F] by (auto simp: finished_def)
next
  case (value_array0 w d)
  then show ?case using empty_runs(1) [of F w quote] by simp
next
  case (value_array d es)
  then have F: "length F < 10000" by simp
  show ?case
    by (rule container_runs [OF open_runs(1) [OF F]]) (use value_array in simp_all)
next
  case (value_object0 w d)
  then show ?case using empty_runs(2) [of F w quote] by simp
next
  case (value_object d ms)
  then have F: "length F < 10000" by simp
  show ?case
    by (rule container_runs [OF open_runs(2) [OF F], of ObjectValue]) (use value_object in simp_all)
next
  case (elements_one w d v w')
  from value_first [OF elements_one.hyps(2)] obtain b r where b: "v = b # r" "\<not> space b" "b \<noteq> CHR '']''" by blast
  have "\<exists>s. finished (ArrayValue # F) s \<and> runs quote (at BeginValue (ArrayValue # F)) v s"
    using elements_one.IH elements_one.prems by simp
  from surrounded_runs [OF this elements_one.hyps(1,3)] show ?case
    using value_or_empty_runs [OF elements_one.hyps(1) b(2,3)] by (fastforce simp: b(1))
next
  case (elements_more d es w v w')
  from elements_more.IH(1) [OF elements_more.prems] obtain s where
    s: "finished (ArrayValue # F) s" "runs quote (at BeginValueOrEmpty (ArrayValue # F)) es s"
    by blast
  have "\<exists>s. finished (ArrayValue # F) s \<and> runs quote (at BeginValue (ArrayValue # F)) v s"
    using elements_more.IH(2) elements_more.prems by simp
  from surrounded_runs [OF this elements_more.hyps(2,4)] obtain s' where
    s': "finished (ArrayValue # F) s'" "runs quote (at BeginValue (ArrayValue # F)) (w @ v @ w') s'" by blast
  from runs_append [OF s(2) runs_append [OF comma_runs [OF s(1)] s'(2)]] s'(1) show ?case by auto
next
  case (members_one w k w1 w2 d v w3)
  from members_one.hyps(2) obtain r where k: "k = CHR 0x22 # r" by (auto simp: json_string_def)
  have "\<exists>s. finished (ObjectValue # F) s \<and> runs quote (at BeginValue (ObjectValue # F)) v s"
    using members_one.IH members_one.prems by simp
  from member_runs [OF this members_one.hyps(1-4,6)] show ?case
    using string_or_empty_runs [OF members_one.hyps(1), of "CHR 0x22" quote "ObjectKey # F"]
    by (fastforce simp: k)
next
  case (members_more d ms w k w1 w2 v w3)
  from members_more.IH(1) [OF members_more.prems] obtain s where
    s: "finished (ObjectValue # F) s" "runs quote (at BeginStringOrEmpty (ObjectKey # F)) ms s"
    by blast
  have "\<exists>s. finished (ObjectValue # F) s \<and> runs quote (at BeginValue (ObjectValue # F)) v s"
    using members_more.IH(2) members_more.prems by simp
  from member_runs [OF this members_more.hyps(2-5,7)] obtain s' where
    s': "finished (ObjectValue # F) s'"
      "runs quote (at BeginString (ObjectKey # F)) (w @ k @ w1 @ '':'' @ w2 @ v @ w3) s'" by blast
  from runs_append [OF s(2) runs_append [OF comma_runs [OF s(1)] s'(2)]] s'(1) show ?case by auto
qed

lemma top_space: "space b \<Longrightarrow> finished [] s \<Longrightarrow> step quote b s = Some (Inr (), at_top)"
  using finished_step [of s "[]" b quote]
  by (auto simp: finished_def step_def step_loop.simps(17,18) delimiter_def stay_def)

lemma top_ws:
  assumes "finished [] s" "ws w"
  shows "\<exists>s'. finished [] s' \<and> runs quote s w s'"
  using assms
proof (induction w arbitrary: s)
  case (Cons b w)
  then have "step quote b s = Some (Inr (), at_top)" using top_space by simp
  moreover have "finished [] at_top" by (simp add: finished_def)
  ultimately show ?case using Cons.IH [of at_top] Cons.prems(2) runs_Cons by fastforce
qed auto

lemma json_text_accepted:
  assumes "json_text bs"
  shows "check_valid quote bs = Some (Inr ())"
proof -
  from assms obtain w v w' where bs: "bs = w @ v @ w'" "ws w" "json_value 10000 v" "ws w'"
    by (auto simp: json_text_def)
  from grammar_runs(1) [OF bs(3), of "[]" quote] obtain s where
    s: "finished [] s" "runs quote (at BeginValue []) v s" by auto
  from top_ws [OF s(1) bs(4), of quote] obtain s' where s': "finished [] s'" "runs quote s w' s'" by blast
  have "runs quote (at BeginValue []) w (at BeginValue [])" using ws_runs [OF bs(2)] by simp
  from runs_append [OF this runs_append [OF s(2) s'(2)]]
  have "step_all quote bs scanner_default = Some (Inr (), s')"
    by (simp add: bs(1) runs_def scanner_default_def)
  with top_space [OF _ s'(1), of "CHR '' ''" quote] show ?thesis by (simp add: check_valid_def)
qed

section \<open>Properties\<close>

text \<open>C5. The scanner decides the JSON grammar: on every byte sequence it ends without a panic, and it
  accepts exactly the sequences that are one JSON value with white space around it, nested at most
  10000 containers deep.\<close>

theorem check_valid_decides_json:
  "(\<exists>r. check_valid quote bs = Some r) \<and> (check_valid quote bs = Some (Inr ()) \<longleftrightarrow> json_text bs)"
  using check_valid_total accepted_json_text json_text_accepted by blast

lemma raw_loop_value:
  assumes "scanned s seen" "\<not> sc_end_top s" "raw_loop quote seen bs s = Some (Inr r)"
  shows "\<exists>v rest. r = Some v \<and> json_head v \<and> seen @ bs = v @ rest"
  using assms
proof (induction bs arbitrary: seen s)
  case Nil
  then obtain x s' where x: "step quote (CHR '' '') s = Some (x, s')" "sc_end_top s'" "r = Some seen"
    by (auto split: option.splits if_splits)
  from step_ends [OF Nil(1,2) x(1,2)] x(3) show ?case by auto
next
  case (Cons b bs)
  obtain x s' where x: "step quote b s = Some (x, s')"
    using Cons.prems(3) by (cases "step quote b s") auto
  show ?case
  proof (cases "sc_end_top s'")
    case True
    with Cons.prems(3) x have r: "r = Some (if sc_frames s \<noteq> [] then seen @ [b] else seen)" by simp
    from step_ends [OF Cons.prems(1,2) x True] show ?thesis
    proof (elim disjE conjE)
      assume "sc_frames s \<noteq> []" "json_head (seen @ [b])"
      with r show ?thesis by auto
    qed (use r in auto)
  next
    case False
    then have "x = Inr ()" "raw_loop quote (seen @ [b]) bs s' = Some (Inr r)"
      using Cons.prems(3) x by (auto split: sum.splits)
    moreover from this have "scanned s' (seen @ [b])"
      using sound_cases [OF step_sound [OF Cons.prems(1), of b quote]] x by auto
    ultimately show ?thesis using Cons.IH [of s' "seen @ [b]"] False by simp
  qed
qed



end
